(* ===== verification/Prelude.thy ===== *)
theory Prelude
  imports Main "HOL-Library.Word"
begin

text \<open>
  Shared vocabulary of the development: the fixed-width integer types of the C sources, the
  separation predicate on address ranges with its arithmetic, the named collections of rewrite
  rules that the component theories fill, and the generic lemmas on machine words and lists
  that several components use.
\<close>

unbundle bit_operations_syntax

section \<open>Machine integers\<close>

type_synonym u8 = "8 word"
type_synonym u16 = "16 word"
type_synonym u32 = "32 word"
type_synonym u64 = "64 word"

text \<open>
  \<open>mem_simps\<close> collects the read-over-write laws of the byte memory, \<open>sep_simps\<close> the facts that
  decide whether two address ranges are apart, \<open>frame_simps\<close> the fields an operation leaves alone.
\<close>

named_theorems mem_simps
named_theorems sep_simps
named_theorems frame_simps

section \<open>Word arithmetic\<close>

lemma unat_lt_64: "unat (x :: u64) < 18446744073709551616"
  using unsigned_less [of x] by simp

lemma unat_minus_1_64 [simp]: "unat (- 1 :: u64) = 18446744073709551615"
  by (simp add: unsigned_minus_1_eq_mask mask_eq_exp_minus_1)

lemma unat_of_nat_64: "n < 18446744073709551616 \<Longrightarrow> unat (of_nat n :: u64) = n"
  by (simp add: unat_of_nat take_bit_eq_mod)

lemma unat_ucast_64: "LENGTH('a) \<le> 64 \<Longrightarrow> unat (ucast (x :: 'a::len word) :: u64) = unat x"
proof -
  assume "LENGTH('a) \<le> 64"
  then have "(2 :: nat) ^ LENGTH('a) \<le> 2 ^ 64" by (rule power_increasing) simp
  with unsigned_less [of x] have "unat x < 2 ^ 64" by (rule less_le_trans)
  then show ?thesis by (simp add: unsigned_ucast_eq take_bit_eq_mod)
qed

lemma unat_add_64: "unat a + unat b < 18446744073709551616 \<Longrightarrow> unat (a + b :: u64) = unat a + unat b"
  by (simp add: unat_word_ariths)

lemma unat_diff_64: "(b :: u64) \<le> a \<Longrightarrow> unat (a - b) = unat a - unat b"
  by (simp add: unat_sub)

lemma unat_diff_if_64:
  "unat (a - b :: u64) =
     (if unat b \<le> unat a then unat a - unat b else unat a + 18446744073709551616 - unat b)"
  by (simp add: unat_sub_if')

lemma word_eq_unatI: "unat a = unat b \<Longrightarrow> a = b"
  by (simp add: word_unat_eq_iff)

lemma unat_Suc_64: "(i :: u64) < n \<Longrightarrow> unat (i + 1) = unat i + 1"
proof -
  assume "i < n"
  then have "unat i + unat (1 :: u64) < 18446744073709551616"
    using unat_lt_64 [of n] by (simp add: word_less_nat_alt)
  from unat_add_64 [OF this] show ?thesis by simp
qed

lemma unat_pred_64: "(i :: u64) \<noteq> 0 \<Longrightarrow> unat (i - 1) = unat i - 1"
  by (simp add: unat_diff_64 word_le_nat_alt unat_gt_0 Suc_leI)

lemma unat_gt_0_iff_64: "(0 < unat (i :: u64)) = (i \<noteq> 0)"
  by (simp add: unat_gt_0)

section \<open>Address ranges that are apart\<close>

text \<open>
  \<open>sep a n b k\<close>: the \<open>n\<close> bytes from \<open>a\<close> and the \<open>k\<close> bytes from \<open>b\<close> do not meet, counted modulo
  the address space. It is stated on the two distances, so that it computes, and so that for two
  offsets of one base the simplifier decides it.
\<close>

definition sep :: "u64 \<Rightarrow> nat \<Rightarrow> u64 \<Rightarrow> nat \<Rightarrow> bool" where
  "sep a n b k \<longleftrightarrow> n \<le> unat (b - a) \<and> k \<le> unat (a - b)"

lemma sep_sym: "sep a n b k = sep b k a n"
  by (auto simp: sep_def)

lemma unat_neg_64: "(d :: u64) \<noteq> 0 \<Longrightarrow> unat (- d) = 18446744073709551616 - unat d"
  using unat_lt_64 [of d] by (simp add: unat_diff_if_64 [of 0 d, simplified] unat_eq_0)

text \<open>The meaning of separation: no address lies in both ranges.\<close>

lemma sep_apart:
  assumes "sep a n b k" "unat (x - a) < n"
  shows "\<not> unat (x - b) < k"
proof -
  from assms have "a \<noteq> b" by (auto simp: sep_def)
  have "unat (a - b) = 18446744073709551616 - unat (b - a)"
    using unat_neg_64 [of "b - a"] \<open>a \<noteq> b\<close> by simp
  moreover have "unat (x - b) = unat ((x - a) - (b - a))"
    by simp
  ultimately show ?thesis
    using assms unat_lt_64 [of "b - a"] unat_diff_if_64 [of "x - a" "b - a"]
    by (auto simp: sep_def split: if_splits)
qed

lemma sep_sub:
  assumes "sep a N b K" "unat i + n \<le> N" "unat j + k \<le> K" "0 < n" "0 < k"
  shows "sep (a + i) n (b + j) k"
proof -
  define d where "d = b - a"
  from assms have d0: "d \<noteq> 0" by (auto simp: sep_def d_def)
  have ab: "unat (a - b) = 18446744073709551616 - unat d"
    using unat_neg_64 [OF d0] by (simp add: d_def)
  have N: "N \<le> unat d" and K: "K \<le> 18446744073709551616 - unat d"
    using assms(1) ab by (auto simp: sep_def d_def)
  have 1: "unat (d + j) = unat d + unat j"
    using K assms unat_lt_64 [of d] by (intro unat_add_64) linarith
  then have 2: "unat (d + j - i) = unat d + unat j - unat i"
    using N assms by (simp add: unat_diff_64 word_le_nat_alt)
  have e: "b + j - (a + i) = d + j - i" "a + i - (b + j) = - (d + j - i)"
    by (simp_all add: d_def)
  have "0 < unat (d + j - i)"
    using 2 N assms by linarith
  then have 3: "d + j - i \<noteq> 0"
    by (simp add: unat_gt_0)
  show ?thesis
    unfolding sep_def e unat_neg_64 [OF 3] 2 using N K assms by linarith
qed

lemmas sep_sub_left = sep_sub [where j = 0, simplified]
lemmas sep_sub_right = sep_sub [where i = 0, simplified]
lemmas sep_sub_0 = sep_sub [where i = 0 and j = 0, simplified]

text \<open>Ranges that are ordered and do not wrap around are apart.\<close>

lemma sep_ordered:
  assumes "unat a + n \<le> unat b" "unat b + k \<le> 18446744073709551616"
    and "0 < n"
  shows "sep a n b k"
  using assms unat_lt_64 [of b] by (auto simp: sep_def unat_diff_if_64)

lemma sep_offsets [sep_simps]:
  "sep (p + i) n (p + j) k = (n \<le> unat (j - i) \<and> k \<le> unat (i - j))"
  "sep p n (p + j) k = (n \<le> unat j \<and> k \<le> unat (- j))"
  "sep (p + i) n p k = (n \<le> unat (- i) \<and> k \<le> unat i)"
  by (simp_all add: sep_def)

end
