(* ===== verification/Memory.thy ===== *)
theory Memory
  imports Prelude
begin

text \<open>
  The byte memory of the C abstract machine and the block operations over it: little-endian
  loads and stores of 32 and 64 bits, the kernel's \<open>memcpy\<close>, \<open>memset\<close>, \<open>memmove\<close> and \<open>memcmp\<close>
  (\<^verbatim>\<open>kernel/src/main.c\<close>) and the versions of \<^verbatim>\<open>libc/string\<close>. The contract the block copies
  share is the locale \<open>block_copy\<close>; the contract of the typed cells is the locale \<open>cell\<close>.
\<close>

section \<open>Bytes, loads and stores\<close>

type_synonym memory = "u64 \<Rightarrow> u8"

text \<open>\<open>load n m a\<close> reads \<open>n\<close> bytes little-endian; \<open>store n m a v\<close> writes the low \<open>n\<close> bytes of \<open>v\<close>.\<close>

primrec load :: "nat \<Rightarrow> memory \<Rightarrow> u64 \<Rightarrow> u64" where
  "load 0 m a = 0"
| "load (Suc n) m a = ucast (m a) OR push_bit 8 (load n m (a + 1))"

definition store :: "nat \<Rightarrow> memory \<Rightarrow> u64 \<Rightarrow> u64 \<Rightarrow> memory" where
  "store n m a v =
     (\<lambda>x. if unat (x - a) < n then ucast (drop_bit (8 * unat (x - a)) v) else m x)"

definition load32 :: "memory \<Rightarrow> u64 \<Rightarrow> u32" where
  "load32 m a = ucast (load 4 m a)"

definition store32 :: "memory \<Rightarrow> u64 \<Rightarrow> u32 \<Rightarrow> memory" where
  "store32 m a v = store 4 m a (ucast v)"

definition load64 :: "memory \<Rightarrow> u64 \<Rightarrow> u64" where
  "load64 m a = load 8 m a"

definition store64 :: "memory \<Rightarrow> u64 \<Rightarrow> u64 \<Rightarrow> memory" where
  "store64 m a v = store 8 m a v"

lemma bit_load:
  "bit (load n m a) k \<longleftrightarrow> k < 64 \<and> k < 8 * n \<and> bit (m (a + of_nat (k div 8))) (k mod 8)"
proof (induction n arbitrary: a k)
  case 0
  show ?case by simp
next
  case (Suc n)
  show ?case
  proof (cases "k < 8")
    case True
    then show ?thesis by (simp add: bit_simps)
  next
    case False
    then obtain j where "k = j + 8" by (metis add.commute le_Suc_ex linorder_not_less)
    moreover have "\<not> bit (m a) (j + 8)"
      by (auto dest: bit_imp_le_length)
    moreover have "(j + 8) div 8 = 1 + j div 8" by simp
    ultimately show ?thesis
      by (auto simp: bit_simps Suc.IH add.assoc)
  qed
qed

text \<open>A load depends only on the bytes of its range.\<close>

lemma load_cong: "(\<And>i. i < n \<Longrightarrow> m (a + of_nat i) = m' (a + of_nat i)) \<Longrightarrow> load n m a = load n m' a"
  by (rule bit_word_eqI) (auto simp: bit_load)

lemma load_store_same:
  assumes "n \<le> 8"
  shows "load n (store n m a v) a = take_bit (8 * n) v"
proof (rule bit_word_eqI)
  fix k assume k: "k < LENGTH(64)"
  show "bit (load n (store n m a v) a) k = bit (take_bit (8 * n) v) k"
  proof (cases "k < 8 * n")
    case True
    then have "k div 8 < n" by simp
    moreover have "unat (of_nat (k div 8) :: u64) = k div 8"
      using k by (intro unat_of_nat_64) simp
    ultimately show ?thesis
      using k True by (simp add: bit_load store_def bit_simps)
  next
    case False
    then show ?thesis by (simp add: bit_load bit_simps)
  qed
qed

lemma load_store_other:
  assumes "sep a n b k" "n \<le> 8"
  shows "load n (store k m b v) a = load n m a"
proof (rule load_cong)
  fix i assume "i < n"
  then have "unat (a + of_nat i - a) < n"
    using assms(2) by (simp add: unat_of_nat_64)
  from sep_apart [OF assms(1) this] show "store k m b v (a + of_nat i) = m (a + of_nat i)"
    by (simp add: store_def)
qed

text \<open>The laws of a cell of fixed width, proved once and instantiated for the two widths.\<close>

locale cell =
  fixes width :: nat
    and get :: "memory \<Rightarrow> u64 \<Rightarrow> 'v"
    and put :: "memory \<Rightarrow> u64 \<Rightarrow> 'v \<Rightarrow> memory"
  assumes get_put: "get (put m a v) a = v"
    and get_local: "(\<And>x. unat (x - a) < width \<Longrightarrow> m x = m' x) \<Longrightarrow> get m a = get m' a"
    and put_local: "\<not> unat (x - a) < width \<Longrightarrow> put m a v x = m x"
begin

lemma get_apart:
  assumes "sep a width b n" "\<And>x. \<not> unat (x - b) < n \<Longrightarrow> m' x = m x"
  shows "get m' a = get m a"
  using assms sep_apart [OF assms(1)] by (intro get_local) blast

lemma get_put_other: "sep a width b width \<Longrightarrow> get (put m b v) a = get m a"
  by (rule get_apart) (auto simp: put_local)

lemma put_byte_other: "sep a width x 1 \<Longrightarrow> put m a v x = m x"
  by (rule put_local) (auto simp: sep_def dest: sep_apart)

end

interpretation c32: cell 4 load32 store32
proof
  fix m a and v :: u32
  show "load32 (store32 m a v) a = v"
    by (simp add: load32_def store32_def load_store_same, rule bit_word_eqI, simp add: bit_simps)
next
  fix a and m m' :: memory
  assume "\<And>x. unat (x - a) < 4 \<Longrightarrow> m x = m' x"
  then show "load32 m a = load32 m' a"
    unfolding load32_def by (intro arg_cong [where f = ucast] load_cong) (simp add: unat_of_nat_64)
next
  fix x a :: u64 and m and v :: u32
  assume "\<not> unat (x - a) < 4"
  then show "store32 m a v x = m x" by (simp add: store32_def store_def)
qed

interpretation c64: cell 8 load64 store64
proof
  fix m a v
  show "load64 (store64 m a v) a = v"
    by (simp add: load64_def store64_def load_store_same, rule bit_word_eqI, simp add: bit_simps)
next
  fix a and m m' :: memory
  assume "\<And>x. unat (x - a) < 8 \<Longrightarrow> m x = m' x"
  then show "load64 m a = load64 m' a"
    unfolding load64_def by (intro load_cong) (simp add: unat_of_nat_64)
next
  fix x a :: u64 and m v
  assume "\<not> unat (x - a) < 8"
  then show "store64 m a v x = m x" by (simp add: store64_def store_def)
qed

text \<open>Cells of different widths do not disturb each other either.\<close>

lemma load64_store32 [mem_simps]: "sep a 8 b 4 \<Longrightarrow> load64 (store32 m b v) a = load64 m a"
  by (rule c64.get_apart) (auto simp: c32.put_local)

lemma load32_store64 [mem_simps]: "sep a 4 b 8 \<Longrightarrow> load32 (store64 m b v) a = load32 m a"
  by (rule c32.get_apart) (auto simp: c64.put_local)

lemmas [mem_simps] = c32.get_put c64.get_put c32.get_put_other c64.get_put_other

section \<open>Block operations of the kernel\<close>

text \<open>
  The ascending loop \<open>for (i = 0; i < n; i++) pdest[i] = psrc[i]\<close> of \<open>memcpy\<close> and of the first
  branch of \<open>memmove\<close>, and the descending loop of its second branch.
\<close>

function copy_up :: "memory \<Rightarrow> u64 \<Rightarrow> u64 \<Rightarrow> u64 \<Rightarrow> u64 \<Rightarrow> memory" where
  "copy_up m pdest psrc i n =
     (if i < n then copy_up (m(pdest + i := m (psrc + i))) pdest psrc (i + 1) n else m)"
  by pat_completeness auto
termination
  by (relation "measure (\<lambda>(m, d, s, i, n). unat n - unat i)") (auto simp: unat_Suc_64 word_less_nat_alt)

function copy_down :: "memory \<Rightarrow> u64 \<Rightarrow> u64 \<Rightarrow> u64 \<Rightarrow> memory" where
  "copy_down m pdest psrc i =
     (if i > 0 then copy_down (m(pdest + (i - 1) := m (psrc + (i - 1)))) pdest psrc (i - 1) else m)"
  by pat_completeness auto
termination
  by (relation "measure (\<lambda>(m, d, s, i). unat i)") (auto simp: unat_pred_64 unat_gt_0)

declare copy_up.simps [simp del] copy_down.simps [simp del]

definition memcpy :: "memory \<Rightarrow> u64 \<Rightarrow> u64 \<Rightarrow> u64 \<Rightarrow> u64 \<times> memory" where
  "memcpy m dest src n = (dest, copy_up m dest src 0 n)"

function memset_loop :: "memory \<Rightarrow> u64 \<Rightarrow> u8 \<Rightarrow> u64 \<Rightarrow> u64 \<Rightarrow> memory" where
  "memset_loop m dest2 val i n =
     (if i < n then memset_loop (m(dest2 + i := val)) dest2 val (i + 1) n else m)"
  by pat_completeness auto
termination
  by (relation "measure (\<lambda>(m, d, v, i, n). unat n - unat i)") (auto simp: unat_Suc_64 word_less_nat_alt)

declare memset_loop.simps [simp del]

definition memset :: "memory \<Rightarrow> u64 \<Rightarrow> u32 \<Rightarrow> u64 \<Rightarrow> u64 \<times> memory" where
  "memset m s c n = (let val = ucast (c AND 0xFF) in (s, memset_loop m s val 0 n))"

definition memmove :: "memory \<Rightarrow> u64 \<Rightarrow> u64 \<Rightarrow> u64 \<Rightarrow> u64 \<times> memory" where
  "memmove m dest src n =
     (if src > dest then (dest, copy_up m dest src 0 n)
      else if src < dest then (dest, copy_down m dest src n)
      else (dest, m))"

function memcmp_loop :: "memory \<Rightarrow> u64 \<Rightarrow> u64 \<Rightarrow> u64 \<Rightarrow> u64 \<Rightarrow> int" where
  "memcmp_loop m p1 p2 i n =
     (if i < n then
        if m (p1 + i) \<noteq> m (p2 + i) then (if m (p1 + i) < m (p2 + i) then -1 else 1)
        else memcmp_loop m p1 p2 (i + 1) n
      else 0)"
  by pat_completeness auto
termination
  by (relation "measure (\<lambda>(m, p, q, i, n). unat n - unat i)") (auto simp: unat_Suc_64 word_less_nat_alt)

declare memcmp_loop.simps [simp del]

definition memcmp :: "memory \<Rightarrow> u64 \<Rightarrow> u64 \<Rightarrow> u64 \<Rightarrow> int" where
  "memcmp m s1 s2 n = memcmp_loop m s1 s2 0 n"

section \<open>Block operations of the C library\<close>

definition libc_memcpy :: "memory \<Rightarrow> u64 \<Rightarrow> u64 \<Rightarrow> u64 \<Rightarrow> u64 \<times> memory" where
  "libc_memcpy m dstptr srcptr sz = (dstptr, copy_up m dstptr srcptr 0 sz)"

definition libc_memset :: "memory \<Rightarrow> u64 \<Rightarrow> u32 \<Rightarrow> u64 \<Rightarrow> u64 \<times> memory" where
  "libc_memset m bufptr value sz = (bufptr, memset_loop m bufptr (ucast value) 0 sz)"

definition libc_memmove :: "memory \<Rightarrow> u64 \<Rightarrow> u64 \<Rightarrow> u64 \<Rightarrow> u64 \<times> memory" where
  "libc_memmove m dstptr srcptr sz =
     (if dstptr < srcptr then (dstptr, copy_up m dstptr srcptr 0 sz)
      else (dstptr, copy_down m dstptr srcptr sz))"

function libc_memcmp_loop :: "memory \<Rightarrow> u64 \<Rightarrow> u64 \<Rightarrow> u64 \<Rightarrow> u64 \<Rightarrow> int" where
  "libc_memcmp_loop m a b i sz =
     (if i < sz then
        if m (a + i) < m (b + i) then -1
        else if m (b + i) < m (a + i) then 1
        else libc_memcmp_loop m a b (i + 1) sz
      else 0)"
  by pat_completeness auto
termination
  by (relation "measure (\<lambda>(m, p, q, i, n). unat n - unat i)") (auto simp: unat_Suc_64 word_less_nat_alt)

declare libc_memcmp_loop.simps [simp del]

definition libc_memcmp :: "memory \<Rightarrow> u64 \<Rightarrow> u64 \<Rightarrow> u64 \<Rightarrow> int" where
  "libc_memcmp m aptr bptr sz = libc_memcmp_loop m aptr bptr 0 sz"

section \<open>What the block operations compute\<close>

text \<open>
  The reference results: \<open>copied\<close> moves all bytes of a range at once, read from the old memory, and
  \<open>filled\<close> overwrites a range with one byte.
\<close>

definition copied :: "memory \<Rightarrow> u64 \<Rightarrow> u64 \<Rightarrow> nat \<Rightarrow> memory" where
  "copied m d s n = (\<lambda>x. if unat (x - d) < n then m (s + (x - d)) else m x)"

definition filled :: "memory \<Rightarrow> u64 \<Rightarrow> u8 \<Rightarrow> nat \<Rightarrow> memory" where
  "filled m a v n = (\<lambda>x. if unat (x - a) < n then v else m x)"

lemma less_Suc_unat_64: "(i :: u64) < n \<Longrightarrow> unat (y - d) < unat (i + 1) \<longleftrightarrow> unat (y - d) < unat i \<or> y = d + i"
proof -
  assume lt: "i < n"
  have "unat (y - d) = unat i \<longleftrightarrow> y = d + i"
    by (metis add_diff_cancel_left' diff_add_cancel add.commute word_unat_eq_iff)
  then show ?thesis
    unfolding unat_Suc_64 [OF lt] by (metis Suc_eq_plus1 less_Suc_eq)
qed

lemma copied_step:
  assumes "(i :: u64) < n" "\<not> unat (s + i - d) < unat i"
  shows "(copied m d s (unat i)) (d + i := copied m d s (unat i) (s + i)) = copied m d s (unat (i + 1))"
  using assms by (auto simp: copied_def fun_eq_iff less_Suc_unat_64)

lemma copy_up_from:
  assumes "\<And>j. j < n \<Longrightarrow> \<not> unat (s + j - d) < unat j"
  shows "copy_up (copied m d s (unat i)) d s i n = copied m d s (unat (max i n))"
proof (induction "unat n - unat i" arbitrary: i)
  case 0
  then have "\<not> i < n" by (simp add: word_less_nat_alt)
  then show ?case by (subst copy_up.simps) (simp add: max_def)
next
  case (Suc k)
  then have lt: "i < n" by (simp add: word_less_nat_alt)
  have "k = unat n - unat (i + 1)"
    using Suc.hyps(2) lt by (simp add: unat_Suc_64)
  from Suc.hyps(1) [OF this] lt
  have IH: "copy_up (copied m d s (unat (i + 1))) d s (i + 1) n = copied m d s (unat n)"
    by (simp add: max_def inc_le word_less_nat_alt unat_Suc_64)
  show ?case
    using lt by (subst copy_up.simps) (simp add: copied_step [OF lt assms [OF lt]] IH max_def less_imp_le)
qed

lemma copied_0 [simp]: "copied m d s 0 = m"
  by (simp add: copied_def)

lemma copy_up_copied:
  assumes "\<And>j. j < n \<Longrightarrow> \<not> unat (s + j - d) < unat j"
  shows "copy_up m d s 0 n = copied m d s (unat n)"
  using copy_up_from [of n s d m 0, OF assms] by simp

text \<open>The descending loop has already moved the bytes from \<open>i\<close> on: \<open>moved_tail\<close>.\<close>

definition moved_tail :: "memory \<Rightarrow> u64 \<Rightarrow> u64 \<Rightarrow> u64 \<Rightarrow> nat \<Rightarrow> memory" where
  "moved_tail m d s i n =
     (\<lambda>x. if unat i \<le> unat (x - d) \<and> unat (x - d) < n then m (s + (x - d)) else m x)"

lemma moved_tail_step:
  assumes "(i :: u64) \<noteq> 0" "unat i \<le> n" "\<not> (unat i \<le> unat (s + (i - 1) - d) \<and> unat (s + (i - 1) - d) < n)"
  shows "(moved_tail m d s i n) (d + (i - 1) := moved_tail m d s i n (s + (i - 1)))
    = moved_tail m d s (i - 1) n"
proof -
  have pred: "unat (i - 1) \<le> unat (y - d) \<longleftrightarrow> y = d + (i - 1) \<or> unat i \<le> unat (y - d)" for y
  proof -
    have "unat (i - 1) = unat (y - d) \<longleftrightarrow> y = d + (i - 1)"
      by (auto simp: word_unat_eq_iff [symmetric] algebra_simps)
    then show ?thesis
      using assms(1) by (auto simp: unat_pred_64)
  qed
  have "unat (i - 1) < n"
    using assms(1,2) unat_gt_0 [of i] by (simp add: unat_pred_64)
  then show ?thesis
    using assms(3) by (auto simp: moved_tail_def fun_eq_iff pred)
qed

lemma copy_down_from:
  assumes "\<And>j. j \<noteq> 0 \<Longrightarrow> unat j \<le> n \<Longrightarrow>
      \<not> (unat j \<le> unat (s + (j - 1) - d) \<and> unat (s + (j - 1) - d) < n)"
    and "unat i \<le> n"
  shows "copy_down (moved_tail m d s i n) d s i = moved_tail m d s 0 n"
  using assms(2)
proof (induction "unat i" arbitrary: i)
  case 0
  then have "i = 0" by (simp add: unat_eq_0)
  then show ?case by (subst copy_down.simps) simp
next
  case (Suc k)
  then have i0: "i \<noteq> 0" by auto
  have "k = unat (i - 1)" "unat (i - 1) \<le> n"
    using Suc i0 by (simp_all add: unat_pred_64)
  from Suc.hyps(1) [OF this] show ?case
    using i0 Suc.prems by (subst copy_down.simps)
      (simp add: moved_tail_step [OF i0 Suc.prems assms(1) [OF i0 Suc.prems]] word_gt_0)
qed

lemma copy_down_copied:
  assumes "\<And>j. j \<noteq> 0 \<Longrightarrow> unat j \<le> unat n \<Longrightarrow>
      \<not> (unat j \<le> unat (s + (j - 1) - d) \<and> unat (s + (j - 1) - d) < unat n)"
  shows "copy_down m d s n = copied m d s (unat n)"
proof -
  have "moved_tail m d s n (unat n) = m" "moved_tail m d s 0 (unat n) = copied m d s (unat n)"
    by (auto simp: moved_tail_def copied_def fun_eq_iff)
  then show ?thesis
    using copy_down_from [of "unat n" s d n m, OF assms] by simp
qed

text \<open>When each loop moves the bytes intact.\<close>

lemma copy_up_lower:
  assumes "d \<le> s" "unat s + unat n \<le> 18446744073709551616"
  shows "copy_up m d s 0 n = copied m d s (unat n)"
proof (rule copy_up_copied)
  fix j assume "j < n"
  then have "unat j < unat n" by (simp add: word_less_nat_alt)
  then have "unat (s + j) = unat s + unat j" using assms(2) by (intro unat_add_64) simp
  then have "unat (s + j - d) = unat s + unat j - unat d"
    using assms(1) by (simp add: unat_diff_if_64 word_le_nat_alt)
  then show "\<not> unat (s + j - d) < unat j"
    using assms(1) by (simp add: word_le_nat_alt)
qed

lemma copy_up_sep:
  assumes "sep d (unat n) s (unat n)"
  shows "copy_up m d s 0 n = copied m d s (unat n)"
proof (rule copy_up_copied)
  fix j assume "j < n"
  then have "unat (s + j - s) < unat n" by (simp add: word_less_nat_alt)
  then have "\<not> unat (s + j - d) < unat n"
    using sep_apart [of d "unat n" s "unat n" "s + j"] assms by blast
  with \<open>j < n\<close> show "\<not> unat (s + j - d) < unat j" by (simp add: word_less_nat_alt)
qed

lemma copy_down_higher:
  assumes "s \<le> d" "unat d + unat n \<le> 18446744073709551616"
  shows "copy_down m d s n = copied m d s (unat n)"
proof (rule copy_down_copied)
  fix j :: u64 assume j: "j \<noteq> 0" "unat j \<le> unat n"
  define k where "k = unat (j - 1)"
  have k: "k < unat n" "unat j = Suc k"
    using j unat_gt_0 [of j] by (simp_all add: k_def unat_pred_64)
  have "unat (s + (j - 1)) = unat s + k"
    using k assms unfolding k_def by (intro unat_add_64) (simp add: word_le_nat_alt)
  then have "unat (s + (j - 1) - d) = (if unat d \<le> unat s + k then unat s + k - unat d
      else unat s + k + 18446744073709551616 - unat d)"
    by (simp add: unat_diff_if_64)
  then show "\<not> (unat j \<le> unat (s + (j - 1) - d) \<and> unat (s + (j - 1) - d) < unat n)"
    using assms k by (auto simp: word_le_nat_alt split: if_splits)
qed

lemma memset_loop_from:
  "memset_loop (filled m a v (unat i)) a v i n = filled m a v (unat (max i n))"
proof (induction "unat n - unat i" arbitrary: i)
  case 0
  then have "\<not> i < n" by (simp add: word_less_nat_alt)
  then show ?case by (subst memset_loop.simps) (simp add: max_def)
next
  case (Suc k)
  then have lt: "i < n" by (simp add: word_less_nat_alt)
  have "k = unat n - unat (i + 1)"
    using Suc.hyps(2) lt by (simp add: unat_Suc_64)
  from Suc.hyps(1) [OF this] lt
  have IH: "memset_loop (filled m a v (unat (i + 1))) a v (i + 1) n = filled m a v (unat n)"
    by (simp add: max_def inc_le word_less_nat_alt unat_Suc_64)
  have "(filled m a v (unat i))(a + i := v) = filled m a v (unat (i + 1))"
    using lt by (auto simp: filled_def fun_eq_iff less_Suc_unat_64)
  then show ?case
    using lt by (subst memset_loop.simps) (simp add: IH max_def less_imp_le)
qed

lemma memset_loop_filled: "memset_loop m a v 0 n = filled m a v (unat n)"
  using memset_loop_from [of m a v 0 n] by (simp add: filled_def)

section \<open>The contract of a block copy\<close>

text \<open>
  A block copy delivers, in its precondition, exactly the parallel copy. Four functions of the
  repository provide it: the two \<open>memcpy\<close> where the ranges are apart, and the two \<open>memmove\<close>
  where neither range runs over the top of the address space, however they overlap.
\<close>

locale block_copy =
  fixes cp :: "memory \<Rightarrow> u64 \<Rightarrow> u64 \<Rightarrow> u64 \<Rightarrow> u64 \<times> memory"
    and ok :: "u64 \<Rightarrow> u64 \<Rightarrow> u64 \<Rightarrow> bool"
  assumes cp_copied: "ok d s n \<Longrightarrow> cp m d s n = (d, copied m d s (unat n))"
begin

lemma copied_byte:
  assumes "ok d s n" "i < n"
  shows "snd (cp m d s n) (d + i) = m (s + i)"
  using assms by (simp add: cp_copied copied_def word_less_nat_alt)

lemma outside_kept:
  assumes "ok d s n" "\<not> unat (x - d) < unat n"
  shows "snd (cp m d s n) x = m x"
  using assms by (simp add: cp_copied copied_def)

lemma load_moved:
  assumes "ok d s n" "unat o' + k \<le> unat n" "k \<le> 8"
  shows "load k (snd (cp m d s n)) (d + o') = load k m (s + o')"
proof (rule bit_word_eqI)
  fix b assume "b < LENGTH(64)"
  have "(snd (cp m d s n)) (d + o' + of_nat (b div 8)) = m (s + o' + of_nat (b div 8))" if "b < 8 * k"
  proof -
    have "b div 8 < k" using that by simp
    moreover have "unat (of_nat (b div 8) :: u64) = b div 8"
      using \<open>b < LENGTH(64)\<close> by (intro unat_of_nat_64) simp
    ultimately have "o' + of_nat (b div 8) < n"
      using assms(2) unat_lt_64 [of n] by (simp add: word_less_nat_alt unat_add_64)
    then show ?thesis
      using copied_byte [OF assms(1)] by (simp add: add.assoc)
  qed
  then show "bit (load k (snd (cp m d s n)) (d + o')) b = bit (load k m (s + o')) b"
    by (auto simp: bit_load)
qed

end

definition no_wrap :: "u64 \<Rightarrow> u64 \<Rightarrow> u64 \<Rightarrow> bool" where
  "no_wrap d s n \<longleftrightarrow> unat d + unat n \<le> 18446744073709551616 \<and> unat s + unat n \<le> 18446744073709551616"

interpretation kmemcpy: block_copy memcpy "\<lambda>d s n. sep d (unat n) s (unat n)"
  by unfold_locales (simp add: memcpy_def copy_up_sep)

interpretation lmemcpy: block_copy libc_memcpy "\<lambda>d s n. sep d (unat n) s (unat n)"
  by unfold_locales (simp add: libc_memcpy_def copy_up_sep)

interpretation kmemmove: block_copy memmove no_wrap
proof
  fix d s n m
  assume "no_wrap d s n"
  then show "memmove m d s n = (d, copied m d s (unat n))"
    by (auto simp: memmove_def no_wrap_def copy_up_lower copy_down_higher copied_def not_less)
qed

interpretation lmemmove: block_copy libc_memmove no_wrap
  by unfold_locales (auto simp: libc_memmove_def no_wrap_def copy_up_lower copy_down_higher not_less)

section \<open>Comparison and equivalence of the two libraries\<close>

lemma libc_memcmp_loop_eq: "libc_memcmp_loop m a b i n = memcmp_loop m a b i n"
  by (induction m a b i n rule: memcmp_loop.induct)
    (subst memcmp_loop.simps, subst libc_memcmp_loop.simps, auto)

lemma memcmp_loop_0:
  "memcmp_loop m p q i n = 0 \<longleftrightarrow> (\<forall>j. i \<le> j \<and> j < n \<longrightarrow> m (p + j) = m (q + j))"
proof (induction m p q i n rule: memcmp_loop.induct)
  case (1 m p q i n)
  show ?case
  proof (cases "i < n")
    case False
    then show ?thesis by (subst memcmp_loop.simps) auto
  next
    case True
    then have "i \<le> j \<longleftrightarrow> j = i \<or> i + 1 \<le> j" for j
      by (auto simp: word_le_nat_alt unat_Suc_64 word_unat_eq_iff)
    then show ?thesis
      using True 1 by (subst memcmp_loop.simps) auto
  qed
qed

section \<open>Properties\<close>

text \<open>C15. The kernel's \<open>memmove\<close> delivers the old source bytes at the destination and touches nothing
  else, for ranges that overlap in either direction, as long as neither range runs over the top of
  the address space; it returns the destination.\<close>
theorem memmove_correct:
  assumes "no_wrap dest src n"
  shows "fst (memmove m dest src n) = dest
    \<and> (\<forall>i. i < n \<longrightarrow> snd (memmove m dest src n) (dest + i) = m (src + i))
    \<and> (\<forall>x. \<not> unat (x - dest) < unat n \<longrightarrow> snd (memmove m dest src n) x = m x)"
  using assms kmemmove.copied_byte [OF assms] kmemmove.outside_kept [OF assms]
  by (simp add: kmemmove.cp_copied)

theorem memmove_correct_witness:
  "no_wrap 102 100 4 \<and> snd (memmove (\<lambda>x. ucast x) 102 100 4) (102 + 3) = 103
    \<and> snd (memmove (\<lambda>x. ucast x) 102 100 4) (102 + 0) = 100"
proof -
  have ok: "no_wrap 102 100 4" by (simp add: no_wrap_def)
  note c = memmove_correct [OF ok, of "\<lambda>x. ucast x", THEN conjunct2, THEN conjunct1, rule_format]
  show ?thesis
    using ok c [of 3] c [of 0] by simp
qed

lemma ucast_low_byte: "(ucast ((c :: u32) AND 0xFF) :: u8) = ucast c"
proof -
  have "(0xFF :: u32) = mask 8" by (simp add: mask_eq_exp_minus_1)
  then show ?thesis unfolding \<open>0xFF = mask 8\<close> by (intro bit_word_eqI) (simp add: bit_simps)
qed

text \<open>C33. The block copies and comparisons of the kernel and of the C library are the same functions
  wherever their contracts apply: \<open>memcmp\<close> always, \<open>memmove\<close> on ranges that do not wrap, and a zero
  \<open>memcmp\<close> means that all compared bytes are equal.\<close>
theorem libc_kernel_agree:
  "libc_memcmp m p q n = memcmp m p q n
   \<and> (memcmp m p q n = 0 \<longleftrightarrow> (\<forall>j. j < n \<longrightarrow> m (p + j) = m (q + j)))
   \<and> libc_memcpy m p q n = memcpy m p q n
   \<and> libc_memset m p c n = memset m p c n
   \<and> (no_wrap p q n \<longrightarrow> libc_memmove m p q n = memmove m p q n)"
  by (simp add: libc_memcmp_def memcmp_def libc_memcmp_loop_eq memcmp_loop_0 libc_memcpy_def memcpy_def
      libc_memset_def memset_def ucast_low_byte lmemmove.cp_copied kmemmove.cp_copied)

theorem libc_kernel_agree_witness:
  "no_wrap 102 100 4 \<and> libc_memmove (\<lambda>x. ucast x) 102 100 4 = memmove (\<lambda>x. ucast x) 102 100 4"
proof -
  have ok: "no_wrap 102 100 4" by (simp add: no_wrap_def)
  then show ?thesis
    using libc_kernel_agree [of "\<lambda>x. ucast x" 102 100 4 0] by simp
qed

text \<open>The fill in the form the page-table and heap code uses it.\<close>

lemma memset_filled: "memset m s c n = (s, filled m s (ucast (c AND 0xFF)) (unat n))"
  by (simp add: memset_def memset_loop_filled)

lemma load64_filled_0 [mem_simps]:
  assumes "unat (a - b) + 8 \<le> n"
  shows "load64 (filled m b 0 n) a = 0"
proof -
  have "load64 (filled m b 0 n) a = load64 (\<lambda>_. 0) a"
  proof (rule c64.get_local)
    fix x assume "unat (x - a) < 8"
    then have "unat (x - b) < n"
      using assms unat_add_64 [of "x - a" "a - b"] unat_word_ariths(1) [of "x - a" "a - b"]
      by (simp add: mod_less_eq_dividend le_less_trans)
    then show "filled m b 0 n x = 0" by (simp add: filled_def)
  qed
  also have "\<dots> = 0"
    by (rule bit_word_eqI) (simp add: load64_def bit_load)
  finally show ?thesis .
qed

lemma load64_filled_other [mem_simps]: "sep a 8 b n \<Longrightarrow> load64 (filled m b v n) a = load64 m a"
  by (rule c64.get_apart) (auto simp: filled_def)

lemma load32_filled_other [mem_simps]: "sep a 4 b n \<Longrightarrow> load32 (filled m b v n) a = load32 m a"
  by (rule c32.get_apart) (auto simp: filled_def)

end
