(* ===== verification/Digits.thy ===== *)
theory Digits
  imports Memory "HOL-Library.Signed_Division" "HOL-Library.Monad_Syntax"
begin

text \<open>
  Number formatting: \<open>ultoa\<close>, \<open>uitoa\<close>, \<open>iltoa\<close>, \<open>utoa\<close>, \<open>itoa\<close> and \<open>atoi\<close> of
  \<^verbatim>\<open>kernel/src/klibc/string\<close>, each on the caller's buffer in the byte memory, and the
  positional notation they are compared with (\<open>to_base\<close>, \<open>parse_base\<close>).
\<close>

section \<open>Byte strings\<close>

definition cbytes :: "string \<Rightarrow> u8 list" where
  "cbytes s = map of_char s"

text \<open>\<open>cstr_at m a s\<close>: the C string at \<open>a\<close> is \<open>s\<close>, ended by a zero byte.\<close>

fun cstr_at :: "memory \<Rightarrow> u64 \<Rightarrow> u8 list \<Rightarrow> bool" where
  "cstr_at m a [] \<longleftrightarrow> m a = 0"
| "cstr_at m a (c # s) \<longleftrightarrow> c \<noteq> 0 \<and> m a = c \<and> cstr_at m (a + 1) s"

definition write_bytes :: "memory \<Rightarrow> u64 \<Rightarrow> u8 list \<Rightarrow> memory" where
  "write_bytes m p bs = (\<lambda>x. if unat (x - p) < length bs then bs ! unat (x - p) else m x)"

lemma write_bytes_Nil [simp]: "write_bytes m p [] = m"
  by (simp add: write_bytes_def)

lemma write_bytes_Cons:
  assumes "length bs < 18446744073709551616"
  shows "write_bytes m p (b # bs) = write_bytes (m(p := b)) (p + 1) bs"
proof
  fix x
  show "write_bytes m p (b # bs) x = write_bytes (m(p := b)) (p + 1) bs x"
  proof (cases "x = p")
    case True
    have "unat (- 1 :: u64) = 18446744073709551615" by simp
    with True assms show ?thesis by (simp add: write_bytes_def)
  next
    case False
    then have ne: "x - p \<noteq> 0" by simp
    have "unat (x - p) = Suc (unat (x - (p + 1)))"
      using unat_pred_64 [OF ne] unat_gt_0 [of "x - p"] ne by (simp add: diff_diff_add)
    with False show ?thesis by (simp add: write_bytes_def)
  qed
qed

lemma write_bytes_snoc:
  assumes "length bs < 18446744073709551616"
  shows "write_bytes m p (bs @ [b]) = (write_bytes m p bs)(p + of_nat (length bs) := b)"
proof
  fix x
  have "unat (x - p) = length bs \<longleftrightarrow> x = p + of_nat (length bs)"
    using unat_of_nat_64 [OF assms]
    by (metis add.commute add_diff_cancel_left' diff_add_cancel word_unat_eq_iff)
  then show "write_bytes m p (bs @ [b]) x = ((write_bytes m p bs)(p + of_nat (length bs) := b)) x"
    by (auto simp: write_bytes_def nth_append less_Suc_eq)
qed

lemma cstr_at_write:
  assumes "length s < 18446744073709551615" "0 \<notin> set s"
  shows "cstr_at (write_bytes m p (s @ [0])) p s"
proof -
  have "cstr_at M a s" if "\<And>i. i < length s \<Longrightarrow> M (a + of_nat i) = s ! i"
    "M (a + of_nat (length s)) = 0" "0 \<notin> set s" for M a s
    using that
  proof (induction s arbitrary: a)
    case Nil
    then show ?case by simp
  next
    case (Cons c s)
    have "M (a + 1 + of_nat i) = s ! i" if "i < length s" for i
      using Cons.prems(1) [of "Suc i"] that by (simp add: algebra_simps)
    then show ?case
      using Cons.prems Cons.prems(1) [of 0] by (auto intro!: Cons.IH simp: algebra_simps)
  qed
  then show ?thesis
    using assms by (auto simp: write_bytes_def unat_of_nat_64 nth_append)
qed

section \<open>Positional notation\<close>

fun to_base :: "nat \<Rightarrow> nat \<Rightarrow> nat list" where
  "to_base b n = (if n < b \<or> b < 2 then [n] else to_base b (n div b) @ [n mod b])"

declare to_base.simps [simp del]

text \<open>The value of a digit character, and of a digit string, read back.\<close>

definition digit_val :: "u8 \<Rightarrow> nat" where
  "digit_val c = (if c < 97 then unat c - 48 else unat c - 87)"

definition parse_base :: "nat \<Rightarrow> u8 list \<Rightarrow> nat" where
  "parse_base b s = foldl (\<lambda>v c. v * b + digit_val c) 0 s"

lemma to_base_ne: "to_base b n \<noteq> []"
  by (subst to_base.simps) simp

lemma to_base_small: "n < b \<Longrightarrow> to_base b n = [n]"
  by (subst to_base.simps) simp

lemma to_base_big: "b \<le> n \<Longrightarrow> 2 \<le> b \<Longrightarrow> to_base b n = to_base b (n div b) @ [n mod b]"
  by (subst to_base.simps) simp

lemma to_base_digits: "2 \<le> b \<Longrightarrow> d \<in> set (to_base b n) \<Longrightarrow> d < b"
proof (induction b n rule: to_base.induct)
  case (1 b n)
  then show ?case
    by (cases "n < b") (auto simp: to_base_small to_base_big)
qed

lemma to_base_value: "2 \<le> b \<Longrightarrow> foldl (\<lambda>v d. v * b + d) 0 (to_base b n) = n"
  by (induction b n rule: to_base.induct) (subst to_base.simps, auto)

text \<open>A number below \<open>b ^ k\<close> has at most \<open>k\<close> digits.\<close>

lemma length_to_base: "2 \<le> b \<Longrightarrow> n < b ^ k \<Longrightarrow> 0 < k \<Longrightarrow> length (to_base b n) \<le> k"
proof (induction k arbitrary: n)
  case 0
  then show ?case by simp
next
  case (Suc k)
  show ?case
  proof (cases "n < b")
    case True
    then show ?thesis by (simp add: to_base_small)
  next
    case False
    have lt: "n div b < b ^ k"
      using Suc.prems by (simp add: less_mult_imp_div_less mult.commute)
    have "0 < k"
      using False Suc.prems(2) by (cases k) auto
    with Suc.IH [OF Suc.prems(1) lt] False Suc.prems(1) show ?thesis
      by (simp add: to_base_big)
  qed
qed

section \<open>ultoa, uitoa and iltoa\<close>

definition digit_table :: "u8 list" where
  "digit_table = cbytes ''zyxwvutsrqponmlkjihgfedcba9876543210123456789abcdefghijklmnopqrstuvwxyz''"

text \<open>
  The digit loop \<open>do { tmp_value = value; value /= base; *ptr++ = table[35 + (tmp_value - value * base)]; }
  while (value)\<close>, at the width of \<open>value\<close>. It returns the memory, \<open>ptr\<close> and the last \<open>tmp_value\<close>;
  \<^term>\<open>None\<close> would be a loop that does not end.
\<close>

partial_function (option) emit_digits ::
    "memory \<Rightarrow> 'a::len word \<Rightarrow> u64 \<Rightarrow> 'a word \<Rightarrow> (memory \<times> u64 \<times> 'a word) option" where
  "emit_digits m value ptr base =
     (let tmp_value = value;
          value' = tmp_value div base;
          m' = m(ptr := digit_table ! unat (35 + (tmp_value - value' * base)))
      in if value' \<noteq> 0 then emit_digits m' value' (ptr + 1) base else Some (m', ptr + 1, tmp_value))"

text \<open>The swap loop \<open>while (ptr1 < ptr)\<close> that puts the digits in reading order.\<close>

function reverse_loop :: "memory \<Rightarrow> u64 \<Rightarrow> u64 \<Rightarrow> memory" where
  "reverse_loop m ptr1 ptr =
     (if ptr1 < ptr
      then (let tmp_char = m ptr in reverse_loop (m(ptr := m ptr1, ptr1 := tmp_char)) (ptr1 + 1) (ptr - 1))
      else m)"
  by pat_completeness auto
termination
proof (relation "measure (\<lambda>(m, a, b). unat b - unat a)", simp, clarify)
  fix m :: memory and ptr1 ptr :: u64
  assume lt: "ptr1 < ptr"
  then have "ptr \<noteq> 0" by auto
  with lt show "((m(ptr := m ptr1, ptr1 := m ptr), ptr1 + 1, ptr - 1), m, ptr1, ptr)
      \<in> measure (\<lambda>(m, a, b). unat b - unat a)"
    by (simp add: unat_Suc_64 [OF lt] unat_pred_64 word_less_nat_alt)
qed

declare reverse_loop.simps [simp del]

definition ultoa :: "memory \<Rightarrow> u64 \<Rightarrow> u64 \<Rightarrow> int \<Rightarrow> (u64 \<times> memory) option" where
  "ultoa m value result base =
     (if base < 2 \<or> base > 36 then Some (result, m(result := 0))
      else do {
        (m, ptr, tmp_value) \<leftarrow> emit_digits m value result (word_of_int base);
        Some (result, reverse_loop (m(ptr := 0)) result (ptr - 1))
      })"


text \<open>In \<open>iltoa\<close> the value is unsigned, so that its test \<open>tmp_value < 0\<close> never holds.\<close>

definition iltoa :: "memory \<Rightarrow> u64 \<Rightarrow> u64 \<Rightarrow> int \<Rightarrow> (u64 \<times> memory) option" where
  "iltoa m value result base =
     (if base < 2 \<or> base > 36 then Some (result, m(result := 0))
      else do {
        (m, ptr, tmp_value) \<leftarrow> emit_digits m value result (word_of_int base);
        let (m, ptr) = (if tmp_value < 0 then (m(ptr := of_char (CHR ''-'')), ptr + 1) else (m, ptr));
        Some (result, reverse_loop (m(ptr := 0)) result (ptr - 1))
      })"

section \<open>utoa, itoa and atoi\<close>

definition BASE_MAX_DIGIT_MAP :: "u8 list" where
  "BASE_MAX_DIGIT_MAP = [0, 0, 64, 41, 32, 28, 25, 23, 22, 21, 20, 19, 18, 18, 17, 17, 16]"

definition hex_table :: "u8 list" where
  "hex_table = cbytes ''0123456789abcdef''"

text \<open>\<open>for (; i > 0; i--) { tmp /= base; if (tmp == 0) break; }\<close>, on the unsigned value.\<close>

function utoa_count :: "u8 \<Rightarrow> u64 \<Rightarrow> u64 \<Rightarrow> u8" where
  "utoa_count i tmp base =
     (if i > 0 then
        let tmp' = tmp div base in if tmp' = 0 then i else utoa_count (i - 1) tmp' base
      else i)"
  by pat_completeness auto
termination
  by (relation "measure (\<lambda>(i, t, b). unat i)") (auto simp: unat_gt_0 measure_unat word_gt_0)

declare utoa_count.simps [simp del]

text \<open>\<open>for (; i >= 0; i--)\<close> with an unsigned \<open>i\<close>: only the test \<open>tmp == 0\<close> ends it.\<close>

partial_function (option) utoa_write :: "memory \<Rightarrow> u64 \<Rightarrow> u8 \<Rightarrow> u64 \<Rightarrow> u64 \<Rightarrow> memory option" where
  "utoa_write m str i tmp base =
     (let character = hex_table ! unat (tmp mod base);
          tmp' = tmp div base;
          m' = m(str + ucast i := character)
      in if tmp' = 0 then Some m' else utoa_write m' str (i - 1) tmp' base)"

definition utoa :: "memory \<Rightarrow> u64 \<Rightarrow> u64 \<Rightarrow> u8 \<Rightarrow> (u64 \<times> memory) option" where
  "utoa m value str base =
     (if base < 2 \<or> base > 16 then Some (0, m)
      else
        let base_max_digits = BASE_MAX_DIGIT_MAP ! unat base;
            m = snd (memset m str 0 (ucast base_max_digits + 1))
        in if value = 0 then Some (str, m(str := of_char (CHR ''0'')))
           else
             let offset = utoa_count base_max_digits value (ucast base)
             in do {
               m \<leftarrow> utoa_write m str (base_max_digits - offset) value (ucast base);
               Some (str, m)
             })"

text \<open>
  \<open>itoa\<close> works on a signed \<open>tmp\<close>: its loops are on \<^typ>\<open>int\<close>, with C's division, which rounds
  towards zero. A negative index into the digit string, which only the smallest value produces, is
  outside of the string: \<^term>\<open>None\<close>.
\<close>

function itoa_count :: "u8 \<Rightarrow> int \<Rightarrow> int \<Rightarrow> u8" where
  "itoa_count i tmp base =
     (if i > 0 then
        let tmp' = tmp sdiv base in if tmp' = 0 then i else itoa_count (i - 1) tmp' base
      else i)"
  by pat_completeness auto
termination
  by (relation "measure (\<lambda>(i, t, b). unat i)") (auto simp: unat_gt_0 measure_unat word_gt_0)

declare itoa_count.simps [simp del]

partial_function (option) itoa_write :: "bool \<Rightarrow> memory \<Rightarrow> u64 \<Rightarrow> u8 \<Rightarrow> int \<Rightarrow> int \<Rightarrow> memory option" where
  "itoa_write negative m str i tmp base =
     (if negative \<and> \<not> i \<ge> 1 then Some m
      else if tmp smod base < 0 then None
      else
        let character = hex_table ! nat (tmp smod base);
            tmp' = tmp sdiv base;
            m' = m(str + ucast i := character)
        in if tmp' = 0 then Some m' else itoa_write negative m' str (i - 1) tmp' base)"

definition itoa :: "memory \<Rightarrow> u64 \<Rightarrow> u64 \<Rightarrow> u8 \<Rightarrow> (u64 \<times> memory) option" where
  "itoa m value str base =
     (if base < 2 \<or> base > 16 then Some (0, m)
      else
        let base_max_digits = BASE_MAX_DIGIT_MAP ! unat base;
            m = snd (memset m str 0 (ucast base_max_digits + 1))
        in if value = 0 then Some (str, m(str := of_char (CHR ''0'')))
           else
             let i = base_max_digits;
                 negative = sint value < 0;
                 value = (if negative then - value else value);
                 base_max_digits = (if negative then base_max_digits + 1 else base_max_digits);
                 offset = itoa_count i (sint value) (uint base)
             in do {
               m \<leftarrow> itoa_write negative m str (base_max_digits - offset) (sint value) (uint base);
               let m = (if negative then m(str := of_char (CHR ''-'')) else m);
               Some (str, m)
             })"

text \<open>\<open>atoi\<close> skips blanks and reads a sign; the conversion itself is not written yet: it returns 0.\<close>

partial_function (option) atoi_skip :: "memory \<Rightarrow> u64 \<Rightarrow> u32 \<Rightarrow> u32 option" where
  "atoi_skip m str i = (if m (str + scast i) = of_char (CHR '' '') then atoi_skip m str (i + 1) else Some i)"

definition atoi :: "memory \<Rightarrow> u64 \<Rightarrow> int option" where
  "atoi m str = do {
     i \<leftarrow> atoi_skip m str 0;
     let c = m (str + scast i);
     let sign = (if c = of_char (CHR ''-'') \<or> c = of_char (CHR ''+'')
                 then 1 - 2 * (if c = of_char (CHR ''-'') then 1 else 0) else (1 :: int));
     Some 0
   }"

section \<open>The digit loops\<close>

definition digit_char :: "nat \<Rightarrow> u8" where
  "digit_char d = digit_table ! (35 + d)"

lemma digit_char_all:
  "\<forall>d \<in> set [0..<36]. digit_val (digit_char d) = d \<and> digit_char d \<noteq> 0"
  by (simp add: upt_rec digit_val_def digit_char_def digit_table_def cbytes_def)

lemma digit_val_char: "d < 36 \<Longrightarrow> digit_val (digit_char d) = d"
  using digit_char_all by simp

lemma digit_char_nonzero: "d < 36 \<Longrightarrow> digit_char d \<noteq> 0"
  using digit_char_all by simp

lemma hex_table_all: "\<forall>d \<in> set [0..<16]. hex_table ! d = digit_char d"
  by (simp add: upt_rec hex_table_def digit_char_def digit_table_def cbytes_def)

lemma hex_table_char: "d < 16 \<Longrightarrow> hex_table ! d = digit_char d"
  using hex_table_all by simp

text \<open>The reference rendering: the digits in reading order, most significant first.\<close>

definition render :: "nat \<Rightarrow> nat \<Rightarrow> u8 list" where
  "render b n = map digit_char (to_base b n)"

lemma render_nonzero: "2 \<le> b \<Longrightarrow> b \<le> 36 \<Longrightarrow> 0 \<notin> set (render b n)"
proof
  assume b: "2 \<le> b" "b \<le> 36" and "0 \<in> set (render b n)"
  then obtain d where "d \<in> set (to_base b n)" "digit_char d = 0"
    by (auto simp: render_def)
  with to_base_digits [OF b(1)] b(2) digit_char_nonzero show False
    by (metis less_le_trans)
qed

lemma parse_render: "2 \<le> b \<Longrightarrow> b \<le> 36 \<Longrightarrow> parse_base b (render b n) = n"
proof -
  assume b: "2 \<le> b" "b \<le> 36"
  have "foldl (\<lambda>v c. v * b + digit_val c) a (map digit_char ds) = foldl (\<lambda>v d. v * b + d) a ds"
    if "\<And>d. d \<in> set ds \<Longrightarrow> d < b" for a and ds :: "nat list"
    using that
  proof (induction ds arbitrary: a)
    case Nil
    then show ?case by simp
  next
    case (Cons d ds)
    have "d < 36" using Cons.prems [of d] b(2) by simp
    with Cons show ?case by (simp add: digit_val_char)
  qed
  from this [OF to_base_digits [OF b(1)]] show ?thesis
    by (simp add: parse_base_def render_def to_base_value [OF b(1)])
qed

lemma render_ne: "render b n \<noteq> []"
  by (simp add: render_def to_base_ne)

lemma emit_digits_correct:
  fixes val base :: "'a::len word"
  assumes base: "2 \<le> unat base" "unat base \<le> 36" and w: "7 \<le> LENGTH('a)"
    and len: "length (render (unat base) (unat val)) < 18446744073709551616"
  shows "\<exists>t. emit_digits m val ptr base =
    Some (write_bytes m ptr (rev (render (unat base) (unat val))),
          ptr + of_nat (length (render (unat base) (unat val))), t)"
  using len
proof (induction "unat val" arbitrary: m val ptr rule: less_induct)
  case less
  let ?v' = "val div base"
  have idx: "unat (35 + (val - ?v' * base)) = 35 + unat val mod unat base"
  proof -
    have "(2 :: nat) ^ 7 \<le> 2 ^ LENGTH('a)" using w by (rule power_increasing) simp
    moreover have "unat val mod unat base < 36"
      using base mod_less_divisor [of "unat base" "unat val"] by linarith
    moreover have "unat (35 :: 'a word) = 35"
      using \<open>2 ^ 7 \<le> 2 ^ LENGTH('a)\<close> by (simp add: unsigned_numeral take_bit_eq_mod)
    ultimately show ?thesis
      by (simp add: minus_div_mult_eq_mod unat_word_ariths unat_mod)
  qed
  show ?case
  proof (cases "?v' = 0")
    case True
    then have small: "unat val < unat base"
      using base by (metis div_eq_0_iff unat_div unat_0 not_numeral_le_zero)
    then show ?thesis
      using True idx by (subst emit_digits.simps)
        (simp add: write_bytes_Cons render_def to_base_small digit_char_def)
  next
    case False
    then have big: "unat base \<le> unat val"
      by (metis unat_div div_less linorder_not_less unat_eq_zero)
    have dv: "unat ?v' = unat val div unat base" by (simp add: unat_div)
    have "unat ?v' < unat val"
      using base big unfolding dv by (intro div_less_dividend) auto
    moreover have "length (render (unat base) (unat ?v')) < 18446744073709551616"
      using less.prems base big by (simp add: render_def dv to_base_big)
    ultimately obtain t where "emit_digits (m(ptr := digit_char (unat val mod unat base))) ?v' (ptr + 1) base =
      Some (write_bytes (m(ptr := digit_char (unat val mod unat base))) (ptr + 1)
          (rev (render (unat base) (unat ?v'))),
        ptr + 1 + of_nat (length (render (unat base) (unat ?v'))), t)"
      using less.hyps by blast
    then show ?thesis
      using False idx base big less.prems by (subst emit_digits.simps)
        (simp add: dv render_def to_base_big digit_char_def write_bytes_Cons)
  qed
qed

text \<open>The swap loop mirrors the range between its two pointers.\<close>

lemma reverse_loop_mirror:
  "reverse_loop m a b = (if a \<le> b then (\<lambda>x. if a \<le> x \<and> x \<le> b then m (a + b - x) else m x) else m)"
proof (induction m a b rule: reverse_loop.induct)
  case (1 m a b)
  show ?case
  proof (cases "a < b")
    case False
    then show ?thesis
      by (subst reverse_loop.simps) (auto simp: fun_eq_iff)
  next
    case True
    then have b0: "b \<noteq> 0" by auto
    have ua: "unat (a + 1) = unat a + 1" and ub: "unat (b - 1) = unat b - 1"
      using True b0 by (simp_all add: unat_Suc_64 [OF True] unat_pred_64)
    let ?m = "m(b := m a, a := m b)"
    have IH: "reverse_loop ?m (a + 1) (b - 1) =
      (if a + 1 \<le> b - 1 then (\<lambda>x. if a + 1 \<le> x \<and> x \<le> b - 1 then ?m (a + b - x) else ?m x) else ?m)"
    proof -
      have "a + 1 + (b - 1) = a + b" by simp
      with 1 [OF True refl] show ?thesis by (simp only:)
    qed
    have inner1: "a + 1 \<le> x \<longleftrightarrow> a \<le> x \<and> x \<noteq> a" for x
      unfolding word_le_nat_alt ua word_unat_eq_iff by linarith
    have "0 < unat b" using b0 by (simp add: unat_gt_0)
    then have inner2: "x \<le> b - 1 \<longleftrightarrow> x \<le> b \<and> x \<noteq> b" for x
      unfolding word_le_nat_alt ub word_unat_eq_iff by linarith
    have narrow: "x = a \<or> x = b" if "a \<le> x" "x \<le> b" "\<not> a + 1 \<le> b - 1" for x
      using that inner1 [of x] inner2 [of x] by (meson order_trans)
    have ends: "a + b - x = a \<longleftrightarrow> x = b" "a + b - x = b \<longleftrightarrow> x = a" for x
      by (auto simp: algebra_simps)
    have "reverse_loop ?m (a + 1) (b - 1) x = (if a \<le> x \<and> x \<le> b then m (a + b - x) else m x)" for x
      using True narrow [of x]
      by (cases "a + 1 \<le> b - 1") (auto simp: IH ends inner1 inner2 simp del: fun_upd_apply intro: fun_upd_other, auto)
    then show ?thesis
      using True by (subst reverse_loop.simps) (auto simp: fun_eq_iff)
  qed
qed

lemma reverse_written:
  assumes "s \<noteq> []" "unat r + length s < 18446744073709551616"
  shows "reverse_loop (write_bytes m r (rev s @ [0])) r (r + of_nat (length s) - 1) = write_bytes m r (s @ [0])"
proof -
  define n where "n = length s"
  have n: "0 < n" "unat r + n < 18446744073709551616"
    using assms by (simp_all add: n_def)
  have un: "unat (of_nat n :: u64) = n" using n by (intro unat_of_nat_64) simp
  have nn: "(of_nat n :: u64) \<noteq> 0" using un n by auto
  have last: "unat (r + of_nat n - 1) = unat r + n - 1"
  proof -
    have "unat (of_nat n - 1 :: u64) = n - 1"
      using unat_pred_64 [OF nn] un by simp
    then have "unat (r + (of_nat n - 1)) = unat r + (n - 1)"
      using n by (subst unat_add_64) simp_all
    then show ?thesis using n by (simp add: add_diff_eq)
  qed
  have inside: "r \<le> x \<and> x \<le> r + of_nat n - 1 \<longleftrightarrow> unat (x - r) < n" for x
    unfolding word_le_nat_alt last using n unat_lt_64 [of x] unat_diff_if_64 [of x r] by (auto split: if_splits)
  show ?thesis
  proof
    fix x
    have le: "r \<le> r + of_nat n - 1" using n by (simp add: word_le_nat_alt last)
    show "reverse_loop (write_bytes m r (rev s @ [0])) r (r + of_nat (length s) - 1) x
      = write_bytes m r (s @ [0]) x"
    proof (cases "unat (x - r) < n")
      case True
      have "unat (of_nat n - 1 - (x - r)) = n - 1 - unat (x - r)"
        using True unat_pred_64 [OF nn] un by (subst unat_diff_64) (auto simp: word_le_nat_alt)
      moreover have "r + (r + of_nat n - 1) - x - r = of_nat n - 1 - (x - r)" by simp
      ultimately have "unat (r + (r + of_nat n - 1) - x - r) = n - 1 - unat (x - r)" by (simp only:)
      with True le inside [of x] show ?thesis
        by (simp add: reverse_loop_mirror n_def [symmetric] write_bytes_def nth_append rev_nth less_Suc_eq_le)
    next
      case False
      then have "\<not> (r \<le> x \<and> x \<le> r + of_nat n - 1)" using inside [of x] by blast
      then have "reverse_loop (write_bytes m r (rev s @ [0])) r (r + of_nat n - 1) x = write_bytes m r (rev s @ [0]) x"
        unfolding reverse_loop_mirror by (simp only: if_False if_cancel le if_True)
      with False show ?thesis
        by (simp add: n_def [symmetric] write_bytes_def nth_append)
    qed
  qed
qed

section \<open>The contract of a number formatter\<close>

text \<open>
  A formatter returns its buffer holding the digits of the value, most significant first, as a
  terminated string, and writes no more than \<open>k + 1\<close> bytes where \<open>k\<close> digits are enough for every
  value of its width. What a caller relies on follows once, for all formatters.
\<close>

locale formatter =
  fixes fmt :: "memory \<Rightarrow> 'a::len word \<Rightarrow> u64 \<Rightarrow> 'b \<Rightarrow> (u64 \<times> memory) option"
    and radix :: "'b \<Rightarrow> nat"
    and ok :: "u64 \<Rightarrow> 'b \<Rightarrow> bool"
  assumes radix_ok: "ok r b \<Longrightarrow> 2 \<le> radix b \<and> radix b \<le> 36"
    and fmt_writes: "ok r b \<Longrightarrow> \<exists>m'. fmt m v r b = Some (r, m') \<and> cstr_at m' r (render (radix b) (unat v))
      \<and> (\<forall>k x. 2 ^ LENGTH('a) \<le> radix b ^ k \<and> 0 < k \<and> \<not> unat (x - r) \<le> k \<longrightarrow> m' x = m x)"
begin

lemma fmt_round_trip:
  assumes "ok r b" "2 ^ LENGTH('a) \<le> radix b ^ k" "0 < k"
  shows "\<exists>s m'. fmt m v r b = Some (r, m') \<and> cstr_at m' r s \<and> parse_base (radix b) s = unat v
    \<and> length s \<le> k \<and> (\<forall>x. \<not> unat (x - r) \<le> k \<longrightarrow> m' x = m x)"
proof -
  have b: "2 \<le> radix b" "radix b \<le> 36" using radix_ok [OF assms(1)] by auto
  have "unat v < radix b ^ k"
    using unsigned_less [of v] assms(2) by (rule less_le_trans)
  then have "length (render (radix b) (unat v)) \<le> k"
    using length_to_base [OF b(1)] assms(3) by (simp add: render_def)
  then show ?thesis
    using fmt_writes [OF assms(1), of m v] parse_render [OF b] assms(2,3) by blast
qed

end

lemma written_string:
  assumes "2 \<le> b" "b \<le> 36" "length (render b n) \<le> 64"
  shows "cstr_at (write_bytes m r (render b n @ [0])) r (render b n)"
  using assms by (intro cstr_at_write render_nonzero) auto

lemma written_frame:
  assumes "2 \<le> b" "n < b ^ k" "0 < k" "\<not> unat (x - r) \<le> k"
  shows "write_bytes m r (render b n @ [0]) x = m x"
  using length_to_base [OF assms(1-3)] assms(4) by (simp add: write_bytes_def render_def)

definition fits :: "u64 \<Rightarrow> int \<Rightarrow> bool" where
  "fits r base \<longleftrightarrow> 2 \<le> base \<and> base \<le> 36 \<and> unat r + 65 \<le> 18446744073709551616"

lemma unat_word_of_base:
  assumes "fits r base" "7 \<le> LENGTH('a)"
  shows "unat (word_of_int base :: 'a::len word) = nat base"
proof -
  have "(2 :: int) ^ 7 \<le> 2 ^ LENGTH('a)" using assms(2) by (rule power_increasing) simp
  then show ?thesis
    using assms(1) by (simp add: fits_def unsigned_of_int take_bit_eq_mod nat_mod_distrib)
qed

lemma length_render_le:
  fixes val :: "'a::len word"
  assumes "fits r base" "LENGTH('a) \<le> 64"
  shows "length (render (nat base) (unat val)) \<le> 64"
proof -
  have b: "2 \<le> nat base" using assms(1) by (auto simp: fits_def)
  have "unat val < 2 ^ LENGTH('a)" by (rule unsigned_less)
  also have "(2 :: nat) ^ LENGTH('a) \<le> 2 ^ 64" using assms(2) by (rule power_increasing) simp
  also have "(2 :: nat) ^ 64 \<le> nat base ^ 64" using b by (rule power_mono) simp
  finally show ?thesis
    using length_to_base [OF b, of "unat val" 64] by (simp add: render_def)
qed

lemma emit_reverse:
  fixes val :: "'a::len word"
  assumes ok: "fits r base" and w: "7 \<le> LENGTH('a)" "LENGTH('a) \<le> 64"
  shows "\<exists>m1 ptr t. emit_digits m val r (word_of_int base) = Some (m1, ptr, t)
    \<and> reverse_loop (m1(ptr := 0)) r (ptr - 1) = write_bytes m r (render (nat base) (unat val) @ [0])"
proof -
  let ?s = "render (nat base) (unat val)"
  have b: "2 \<le> nat base" "nat base \<le> 36" using ok by (auto simp: fits_def)
  have len: "length ?s \<le> 64" by (rule length_render_le [OF ok w(2)])
  obtain t where "emit_digits m val r (word_of_int base) =
      Some (write_bytes m r (rev ?s), r + of_nat (length ?s), t)"
    using emit_digits_correct [of "word_of_int base :: 'a word" val m r] b len w
    by (auto simp: unat_word_of_base [OF ok w(1)])
  moreover have "(write_bytes m r (rev ?s))(r + of_nat (length ?s) := 0) = write_bytes m r (rev ?s @ [0])"
    using write_bytes_snoc [of "rev ?s" m r 0] len by simp
  ultimately show ?thesis
    using reverse_written [OF render_ne, of r "nat base" "unat val" m] len ok by (auto simp: fits_def)
qed

lemma emit_formats:
  fixes val :: "'a::len word"
  assumes ok: "fits r base" and w: "7 \<le> LENGTH('a)" "LENGTH('a) \<le> 64"
    and f: "f = Some (r, write_bytes m r (render (nat base) (unat val) @ [0]))"
  shows "\<exists>m'. f = Some (r, m') \<and> cstr_at m' r (render (nat base) (unat val))
    \<and> (\<forall>k x. 2 ^ LENGTH('a) \<le> nat base ^ k \<and> 0 < k \<and> \<not> unat (x - r) \<le> k \<longrightarrow> m' x = m x)"
proof -
  have b: "2 \<le> nat base" "nat base \<le> 36" using ok by (auto simp: fits_def)
  show ?thesis
    using written_string [OF b length_render_le [OF ok w(2)]] written_frame [OF b(1)]
      less_le_trans [OF unsigned_less [of val]] f by blast
qed

interpretation ultoa_fmt: formatter ultoa nat fits
proof
  fix r base m and v :: u64
  assume ok: "fits r base"
  have "ultoa m v r base = Some (r, write_bytes m r (render (nat base) (unat v) @ [0]))"
    using emit_reverse [OF ok, where val = v and m = m] ok by (auto simp: ultoa_def fits_def)
  from emit_formats [OF ok _ _ this]
  show "\<exists>m'. ultoa m v r base = Some (r, m') \<and> cstr_at m' r (render (nat base) (unat v))
    \<and> (\<forall>k x. 2 ^ LENGTH(64) \<le> nat base ^ k \<and> 0 < k \<and> \<not> unat (x - r) \<le> k \<longrightarrow> m' x = m x)" by simp
qed (auto simp: fits_def)


text \<open>\<open>iltoa\<close> is \<open>ultoa\<close>: the branch that would write a sign is dead.\<close>

lemma iltoa_ultoa: "iltoa = ultoa"
  by (auto simp: iltoa_def ultoa_def fun_eq_iff intro!: Option.bind_cong)

interpretation iltoa_fmt: formatter iltoa nat fits
  unfolding iltoa_ultoa by (rule ultoa_fmt.formatter_axioms)

section \<open>The fixed-width formatters utoa and itoa\<close>

text \<open>The digit table is exact: the width it gives is enough for 64 bits and one less is not.\<close>

lemma base_cases:
  fixes base :: u8
  assumes "2 \<le> base" "base \<le> 16"
  shows "base \<in> {2, 3, 4, 5, 6, 7, 8, 9, 10, 11, 12, 13, 14, 15, 16}"
proof -
  have "2 \<le> unat base" "unat base \<le> 16" using assms by (simp_all add: word_le_nat_alt)
  then have "unat base \<in> {2, 3, 4, 5, 6, 7, 8, 9, 10, 11, 12, 13, 14, 15, 16}"
    unfolding insert_iff empty_iff by arith
  then show ?thesis by (simp add: word_unat_eq_iff)
qed

lemma max_digits_exact:
  fixes base :: u8
  assumes "2 \<le> base" "base \<le> 16"
  shows "2 ^ 64 \<le> unat base ^ unat (BASE_MAX_DIGIT_MAP ! unat base)
    \<and> unat base ^ (unat (BASE_MAX_DIGIT_MAP ! unat base) - 1) < 2 ^ 64
    \<and> 1 < unat (BASE_MAX_DIGIT_MAP ! unat base) \<and> unat (BASE_MAX_DIGIT_MAP ! unat base) \<le> 64"
  using base_cases [OF assms] by (elim insertE emptyE) (simp_all add: BASE_MAX_DIGIT_MAP_def)

lemma max_digits_least:
  assumes "2 \<le> base" "base \<le> 16" "2 ^ 64 \<le> unat (base :: u8) ^ k"
  shows "unat (BASE_MAX_DIGIT_MAP ! unat base) \<le> k"
proof (rule ccontr)
  assume "\<not> ?thesis"
  then have "unat base ^ k \<le> unat base ^ (unat (BASE_MAX_DIGIT_MAP ! unat base) - 1)"
    using assms by (intro power_increasing) (auto simp: word_le_nat_alt)
  with max_digits_exact [OF assms(1,2)] assms(3) show False by linarith
qed

lemma word_div_nonzero:
  fixes tmp base :: u64
  assumes "2 \<le> unat base" "tmp div base \<noteq> 0"
  shows "unat base \<le> unat tmp" "unat (tmp div base) = unat tmp div unat base"
    "unat (tmp div base) < unat tmp"
proof -
  show d: "unat (tmp div base) = unat tmp div unat base" by (simp add: unat_div)
  show le: "unat base \<le> unat tmp"
    using assms(2) d by (metis div_less linorder_not_less unat_eq_zero)
  show "unat (tmp div base) < unat tmp"
    using assms(1) le unfolding d by (intro div_less_dividend) auto
qed

lemma word_div_zero:
  fixes tmp base :: u64
  assumes "2 \<le> unat base" "tmp div base = 0"
  shows "unat tmp < unat base"
  using assms by (metis div_eq_0_iff unat_div unat_0 not_numeral_le_zero)

lemma utoa_count_correct:
  assumes "2 \<le> unat base" "length (render (unat base) (unat tmp)) \<le> unat i"
  shows "unat (utoa_count i tmp base) = unat i - (length (render (unat base) (unat tmp)) - 1)"
  using assms(2)
proof (induction "unat tmp" arbitrary: i tmp rule: less_induct)
  case less
  have "0 < length (render (unat base) (unat tmp))" using render_ne by simp
  then have "0 < unat i" using less.prems by linarith
  then have i0: "i > 0" by (simp add: word_less_nat_alt)
  show ?case
  proof (cases "tmp div base = 0")
    case True
    then show ?thesis
      using i0 word_div_zero [OF assms(1) True]
      by (subst utoa_count.simps) (simp add: render_def to_base_small)
  next
    case False
    note dv = word_div_nonzero [OF assms(1) False]
    have len: "length (render (unat base) (unat tmp)) = Suc (length (render (unat base) (unat (tmp div base))))"
      using dv assms(1) by (simp add: render_def to_base_big)
    have ui: "unat (i - 1) = unat i - 1"
      using i0 by (simp add: unat_sub word_le_nat_alt word_less_nat_alt Suc_leI)
    have "unat (utoa_count (i - 1) (tmp div base) base)
      = unat (i - 1) - (length (render (unat base) (unat (tmp div base))) - 1)"
      using less.prems len ui by (intro less.hyps [OF dv(3)]) simp
    moreover have "0 < length (render (unat base) (unat (tmp div base)))" using render_ne by simp
    ultimately show ?thesis
      using i0 False len ui less.prems by (subst utoa_count.simps) simp
  qed
qed

lemma write_bytes_upd_end:
  assumes "length s < 18446744073709551616"
  shows "write_bytes (m(p + of_nat (length s) := c)) p s = write_bytes m p (s @ [c])"
proof -
  have "\<not> unat (p + of_nat (length s) - p) < length s"
    using assms by (simp add: unat_of_nat_64)
  then have "write_bytes (m(p + of_nat (length s) := c)) p s
    = (write_bytes m p s)(p + of_nat (length s) := c)"
    by (auto simp: write_bytes_def fun_eq_iff)
  with write_bytes_snoc [OF assms] show ?thesis by simp
qed

text \<open>The writing loop lays the digits out backwards, ending \<open>d - 1\<close> places below where it starts.\<close>

lemma utoa_write_correct:
  assumes b: "2 \<le> unat base" "unat base \<le> 16"
    and "str + ucast i = p + of_nat (length (render (unat base) (unat tmp)) - 1)"
    and "length (render (unat base) (unat tmp)) \<le> Suc (unat i)"
  shows "utoa_write m str i tmp base = Some (write_bytes m p (render (unat base) (unat tmp)))"
  using assms(3,4)
proof (induction "unat tmp" arbitrary: m i tmp rule: less_induct)
  case less
  have "unat tmp mod unat base < 16"
    using b mod_less_divisor [of "unat base" "unat tmp"] by linarith
  then have hex: "hex_table ! unat (tmp mod base) = digit_char (unat tmp mod unat base)"
    by (simp add: unat_mod hex_table_char)
  show ?case
  proof (cases "tmp div base = 0")
    case True
    then show ?thesis
      using hex less.prems word_div_zero [OF b(1) True]
      by (subst utoa_write.simps) (simp add: render_def to_base_small write_bytes_Cons)
  next
    case False
    note dv = word_div_nonzero [OF b(1) False]
    let ?r = "render (unat base) (unat (tmp div base))"
    have ren: "render (unat base) (unat tmp) = ?r @ [digit_char (unat tmp mod unat base)]"
      using dv b by (simp add: render_def to_base_big)
    have r0: "0 < length ?r" using render_ne by simp
    then have "i \<noteq> 0" using less.prems(2) ren by auto
    then have ui: "unat (i - 1) = unat i - 1" "0 < unat i"
      by (simp_all add: unat_sub word_le_nat_alt Suc_leI unat_gt_0)
    have "(ucast (i - 1) :: u64) = ucast i - 1"
      using ui by (intro word_eq_unatI) (subst unat_pred_64, auto simp: unat_ucast_64 unat_eq_0 [symmetric])
    moreover have "(of_nat (length ?r - 1) :: u64) = of_nat (length ?r) - 1"
      using r0 by (metis One_nat_def Suc_leI of_nat_1 of_nat_diff)
    moreover have "str + ucast i = p + of_nat (length ?r)"
      using less.prems(1) ren by simp
    ultimately have "str + ucast (i - 1) = p + of_nat (length ?r - 1)"
      by (simp add: add_diff_eq)
    moreover have "length ?r < 18446744073709551616"
      using less.prems(2) ren unsigned_less [of i, where ?'a = nat] by simp
    ultimately show ?thesis
      using less.prems ren False hex ui dv(3)
      by (subst utoa_write.simps) (simp add: less.hyps [OF dv(3)] write_bytes_upd_end)
  qed
qed

text \<open>The signed loops on a nonnegative value are the unsigned ones.\<close>

lemma sdiv_nonneg: "0 \<le> a \<Longrightarrow> 0 < b \<Longrightarrow> (a :: int) sdiv b = a div b"
  by (simp add: signed_divide_int_def sgn_if)

lemma smod_nonneg: "0 \<le> a \<Longrightarrow> 0 < b \<Longrightarrow> (a :: int) smod b = a mod b"
  by (cases "a = 0") (simp_all add: signed_modulo_int_def)

lemma itoa_count_utoa:
  "0 < base \<Longrightarrow> itoa_count i (uint (tmp :: u64)) (uint base) = utoa_count i tmp base"
proof (induction i tmp base rule: utoa_count.induct)
  case (1 i tmp base)
  have dv: "uint tmp sdiv uint base = uint (tmp div base)"
    using 1(2) by (simp add: sdiv_nonneg uint_div word_less_def)
  then show ?case
    using 1 by (subst itoa_count.simps, subst utoa_count.simps) (simp add: Let_def unsigned_eq_0_iff)
qed

lemma itoa_write_utoa:
  assumes b: "2 \<le> unat base"
    and neg: "negative \<Longrightarrow> length (render (unat base) (unat tmp)) \<le> unat i"
  shows "itoa_write negative m str i (uint (tmp :: u64)) (uint base) = utoa_write m str i tmp base"
  using neg
proof (induction "unat tmp" arbitrary: m i tmp rule: less_induct)
  case less
  have b0: "0 < uint base" using b uint_nat [of base] by linarith
  have arith: "uint tmp sdiv uint base = uint (tmp div base)" "uint tmp smod uint base = uint (tmp mod base)"
    using b0 by (simp_all add: sdiv_nonneg smod_nonneg uint_div uint_mod)
  have idx: "nat (uint (tmp mod base)) = unat (tmp mod base)" by simp
  have go: "\<not> (negative \<and> \<not> 1 \<le> i)"
  proof
    assume "negative \<and> \<not> 1 \<le> i"
    then have "unat i = 0" "length (render (unat base) (unat tmp)) \<le> unat i"
      using less.prems by (simp_all add: word_le_nat_alt)
    with render_ne show False by (metis le_zero_eq length_0_conv)
  qed
  show ?case
  proof (cases "tmp div base = 0")
    case True
    then show ?thesis
      using go by (subst itoa_write.simps, subst utoa_write.simps) (auto simp: arith idx Let_def unsigned_eq_0_iff)
  next
    case False
    note dv = word_div_nonzero [OF b False]
    have "length (render (unat base) (unat (tmp div base))) \<le> unat (i - 1)" if "negative"
    proof -
      have "length (render (unat base) (unat tmp)) = Suc (length (render (unat base) (unat (tmp div base))))"
        using dv b by (simp add: render_def to_base_big)
      then show ?thesis
        using less.prems [OF that] go that by (simp add: unat_sub word_le_nat_alt)
    qed
    then show ?thesis
      using go False less.hyps [OF dv(3)]
      by (subst itoa_write.simps, subst utoa_write.simps) (auto simp: arith idx Let_def unsigned_eq_0_iff)
  qed
qed

text \<open>What \<open>utoa\<close> leaves in memory: the cleared field, then the digits.\<close>

lemma utoa_writes:
  assumes base: "2 \<le> base" "base \<le> 16"
  shows "utoa m val str base =
    Some (str, write_bytes (filled m str 0 (Suc (unat (BASE_MAX_DIGIT_MAP ! unat base)))) str
      (render (unat base) (unat val)))"
proof -
  let ?max = "BASE_MAX_DIGIT_MAP ! unat base"
  let ?b = "ucast base :: u64"
  note tab = max_digits_exact [OF base]
  have nb: "\<not> base < 2" "\<not> 16 < base" using base by (simp_all add: not_less)
  have ub: "unat ?b = unat base" by (simp add: unat_ucast_64)
  have b: "2 \<le> unat base" "unat base \<le> 16" using base by (simp_all add: word_le_nat_alt)
  have len: "length (render (unat base) (unat val)) \<le> unat ?max"
    using tab unat_lt_64 [of val] b by (simp add: render_def, intro length_to_base) auto
  have sz: "unat (ucast ?max + 1 :: u64) = Suc (unat ?max)"
    using tab by (simp add: unat_add_64 unat_ucast_64)
  have clear: "snd (memset m str 0 (ucast ?max + 1)) = filled m str 0 (Suc (unat ?max))"
    by (simp add: memset_filled sz)
  show ?thesis
  proof (cases "val = 0")
    case True
    have "render (unat base) 0 = [of_char (CHR ''0'')]"
      using b by (simp add: render_def to_base_small digit_char_def digit_table_def cbytes_def)
    then show ?thesis
      using True nb clear by (simp add: utoa_def Let_def write_bytes_Cons)
  next
    case False
    let ?off = "utoa_count ?max val ?b"
    have off: "unat ?off = unat ?max - (length (render (unat base) (unat val)) - 1)"
      using utoa_count_correct [of ?b val ?max] b len by (simp add: ub)
    have d: "unat (?max - ?off) = length (render (unat base) (unat val)) - 1"
      using off len by (subst unat_sub) (simp_all add: word_le_nat_alt)
    have "(ucast (?max - ?off) :: u64) = of_nat (length (render (unat base) (unat val)) - 1)"
      using d by (metis unat_ucast_64 of_nat_unat unat_of_nat_64 word_eq_unatI)
    then have "utoa_write (filled m str 0 (Suc (unat ?max))) str (?max - ?off) val ?b
      = Some (write_bytes (filled m str 0 (Suc (unat ?max))) str (render (unat base) (unat val)))"
      using utoa_write_correct [of ?b str "?max - ?off" str val] b d by (simp add: ub)
    then show ?thesis
      using False nb clear by (simp add: utoa_def Let_def)
  qed
qed

lemma cstr_at_filled:
  assumes "2 \<le> b" "b \<le> 36" "length (render b n) \<le> k" "k \<le> 64"
  shows "cstr_at (write_bytes (filled m r 0 (Suc k)) r (render b n)) r (render b n)"
proof -
  let ?s = "render b n"
  have len: "length ?s \<le> 64" using assms(3,4) by simp
  have "unat (of_nat (length ?s) :: u64) = length ?s"
    using len by (intro unat_of_nat_64) simp
  then have "write_bytes (filled m r 0 (Suc k)) r (?s @ [0]) = write_bytes (filled m r 0 (Suc k)) r ?s"
    using assms(3) len by (subst write_bytes_snoc) (auto simp: write_bytes_def filled_def fun_eq_iff)
  with written_string [OF assms(1,2) len] show ?thesis by metis
qed

interpretation utoa_fmt: formatter utoa unat "\<lambda>r base. 2 \<le> base \<and> base \<le> 16"
proof
  fix r base m and v :: u64
  assume base: "2 \<le> base \<and> (base :: u8) \<le> 16"
  let ?max = "unat (BASE_MAX_DIGIT_MAP ! unat base)"
  have b: "2 \<le> unat base" "unat base \<le> 36" using base by (simp_all add: word_le_nat_alt)
  have tab: "2 ^ 64 \<le> unat base ^ ?max" "0 < ?max" "?max \<le> 64"
    using max_digits_exact [of base] base by auto
  have len: "length (render (unat base) (unat v)) \<le> ?max"
    unfolding render_def length_map
    using tab unat_lt_64 [of v] b by (intro length_to_base) auto
  show "\<exists>m'. utoa m v r base = Some (r, m') \<and> cstr_at m' r (render (unat base) (unat v))
    \<and> (\<forall>k x. 2 ^ LENGTH(64) \<le> unat base ^ k \<and> 0 < k \<and> \<not> unat (x - r) \<le> k \<longrightarrow> m' x = m x)"
  proof (intro exI conjI)
    show "utoa m v r base = Some (r, write_bytes (filled m r 0 (Suc ?max)) r (render (unat base) (unat v)))"
      using base by (intro utoa_writes) auto
    show "cstr_at (write_bytes (filled m r 0 (Suc ?max)) r (render (unat base) (unat v))) r
        (render (unat base) (unat v))"
      using b len tab(3) by (rule cstr_at_filled)
    show "\<forall>k x. 2 ^ LENGTH(64) \<le> unat base ^ k \<and> 0 < k \<and> \<not> unat (x - r) \<le> k \<longrightarrow>
        write_bytes (filled m r 0 (Suc ?max)) r (render (unat base) (unat v)) x = m x"
      using max_digits_least [of base] base len by (fastforce simp: write_bytes_def filled_def)
  qed
next
  fix r :: u64 and b :: u8
  assume "2 \<le> b \<and> b \<le> 16"
  then show "2 \<le> unat b \<and> unat b \<le> 36" by (simp add: word_le_nat_alt)
qed

text \<open>\<open>itoa\<close>: on a nonnegative value it is \<open>utoa\<close>; a negative one is a minus sign and the digits of
  its absolute value, laid out from the second byte on.\<close>

lemma uint_lt_64: "uint (x :: u64) < 18446744073709551616"
  using uint_lt2p [of x] by simp

lemma sint_64:
  "sint (x :: u64) = (if uint x < 9223372036854775808 then uint x else uint x - 18446744073709551616)"
proof -
  have "bit (uint x) 63 \<longleftrightarrow> \<not> uint x < 9223372036854775808"
  proof -
    have "uint x div 9223372036854775808 \<in> {0, 1}"
      using uint_lt_64 [of x] by auto
    then show ?thesis
      by (auto simp: bit_iff_odd)
  qed
  moreover have "take_bit 64 (uint x) = uint x"
    using uint_lt_64 [of x] by (simp add: take_bit_eq_mod)
  ultimately show ?thesis
    by (simp add: sint_uint signed_take_bit_eq_take_bit_minus)
qed

lemma itoa_nonneg:
  assumes "0 \<le> sint val"
  shows "itoa m val str base = utoa m val str base"
proof (cases "base < 2 \<or> base > 16")
  case True
  then show ?thesis by (simp add: itoa_def utoa_def)
next
  case False
  then have b: "2 \<le> unat (ucast base :: u64)" by (simp add: unat_ucast_64 word_le_nat_alt not_less)
  then have b0: "0 < (ucast base :: u64)" by (simp add: word_less_nat_alt)
  have s: "sint val = uint val" using assms uint_lt_64 [of val] by (simp add: sint_64 split: if_splits)
  have ub: "uint base = uint (ucast base :: u64)"
    using uint_nat [of base] uint_nat [of "ucast base :: u64"] unat_ucast_64 [of base] by simp
  show ?thesis
    using False assms itoa_write_utoa [OF b, of False] itoa_count_utoa [OF b0]
    by (simp add: itoa_def utoa_def Let_def s ub)
qed

lemma sint_negate_64:
  assumes "sint (val :: u64) < 0" "val \<noteq> 0x8000000000000000"
  shows "sint (- val) = uint (- val)" "int (unat (- val)) = - sint val"
proof -
  have v: "9223372036854775808 \<le> uint val" "sint val = uint val - 18446744073709551616"
    using assms(1) uint_lt_64 [of val] by (auto simp: sint_64 split: if_splits)
  then have "val \<noteq> 0" by auto
  then have n: "uint (- val) = 18446744073709551616 - uint val"
    using unat_neg_64 [of val] uint_lt_64 [of val] uint_nat [of val] uint_nat [of "- val"] by linarith
  have "uint val \<noteq> uint (0x8000000000000000 :: u64)"
    using assms(2) by (simp add: word_uint_eq_iff)
  then show "sint (- val) = uint (- val)"
    using n v by (simp add: sint_64)
  show "int (unat (- val)) = - sint val"
    using n v uint_nat [of "- val"] by linarith
qed

lemma itoa_negative:
  assumes base: "2 \<le> base" "base \<le> 16" and val: "sint val < 0" "val \<noteq> 0x8000000000000000"
  shows "itoa m val str base =
    Some (str, write_bytes (filled m str 0 (Suc (unat (BASE_MAX_DIGIT_MAP ! unat base)))) str
      (of_char (CHR ''-'') # render (unat base) (unat (- val))))"
proof -
  let ?max = "BASE_MAX_DIGIT_MAP ! unat base"
  let ?b = "ucast base :: u64"
  let ?r = "render (unat base) (unat (- val))"
  note tab = max_digits_exact [OF base]
  have nb: "\<not> base < 2" "\<not> 16 < base" using base by (simp_all add: not_less)
  have ub: "unat ?b = unat base" by (simp add: unat_ucast_64)
  have b: "2 \<le> unat base" "unat base \<le> 16" using base by (simp_all add: word_le_nat_alt)
  have b0: "0 < ?b" using b ub by (simp add: word_less_nat_alt)
  have len: "length ?r \<le> unat ?max"
    unfolding render_def length_map
    using tab unat_lt_64 [of "- val"] b by (intro length_to_base) auto
  have r0: "0 < length ?r" using render_ne by simp
  have sz: "unat (ucast ?max + 1 :: u64) = Suc (unat ?max)"
    using tab by (simp add: unat_add_64 unat_ucast_64)
  have clear: "snd (memset m str 0 (ucast ?max + 1)) = filled m str 0 (Suc (unat ?max))"
    by (simp add: memset_filled sz)
  have ib: "uint base = uint ?b" using uint_nat [of base] uint_nat [of ?b] ub by linarith
  let ?off = "utoa_count ?max (- val) ?b"
  have off: "unat ?off = unat ?max - (length ?r - 1)"
    using utoa_count_correct [of ?b "- val" ?max] b len by (simp add: ub)
  have m1: "unat (?max + 1) = Suc (unat ?max)"
    using tab by (simp add: unat_word_ariths)
  have d: "unat (?max + 1 - ?off) = length ?r"
    using off len m1 r0 by (subst unat_sub) (simp_all add: word_le_nat_alt)
  then have "(ucast (?max + 1 - ?off) :: u64) = 1 + of_nat (length ?r - 1)"
    using r0 of_nat_unat [of "?max + 1 - ?off", where ?'a = u64]
    by (metis Suc_diff_1 of_nat_Suc)
  then have "str + ucast (?max + 1 - ?off) = (str + 1) + of_nat (length ?r - 1)"
    by (simp add: add.assoc)
  then have "utoa_write (filled m str 0 (Suc (unat ?max))) str (?max + 1 - ?off) (- val) ?b
    = Some (write_bytes (filled m str 0 (Suc (unat ?max))) (str + 1) ?r)"
    using utoa_write_correct [of ?b str "?max + 1 - ?off" "str + 1" "- val"] b d by (simp add: ub)
  moreover have "(write_bytes (filled m str 0 (Suc (unat ?max))) (str + 1) ?r)(str := c)
    = write_bytes (filled m str 0 (Suc (unat ?max))) str (c # ?r)" for c
  proof -
    have "\<not> unat (str - (str + 1)) < length ?r"
      using len tab by simp
    then show ?thesis
      using len tab by (subst write_bytes_Cons) (auto simp: write_bytes_def fun_eq_iff)
  qed
  moreover have "val \<noteq> 0" using val(1) by auto
  ultimately show ?thesis
    using nb val clear itoa_write_utoa [of ?b True "- val" "?max + 1 - ?off"] itoa_count_utoa [OF b0] b d
    by (simp add: itoa_def Let_def ib ub sint_negate_64 [OF val])
qed

section \<open>Properties\<close>



text \<open>\<open>utoa\<close> returns for every value and every base from 2 to 16 and leaves a terminated string that reads
  back as the value. The field width it takes from \<open>BASE_MAX_DIGIT_MAP\<close> is exactly the number of digits
  that 64 bits need in that base, and nothing beyond the field and its terminator is written.\<close>
theorem utoa_round_trip:
  assumes "2 \<le> base" "base \<le> 16"
  shows "\<exists>s m'. utoa m val str base = Some (str, m') \<and> cstr_at m' str s \<and> parse_base (unat base) s = unat val
      \<and> length s \<le> unat (BASE_MAX_DIGIT_MAP ! unat base)
      \<and> (\<forall>x. \<not> unat (x - str) \<le> unat (BASE_MAX_DIGIT_MAP ! unat base) \<longrightarrow> m' x = m x)
    \<and> unat base ^ (unat (BASE_MAX_DIGIT_MAP ! unat base) - 1) < 2 ^ 64
    \<and> 2 ^ 64 \<le> unat base ^ unat (BASE_MAX_DIGIT_MAP ! unat base)"
  using utoa_fmt.fmt_round_trip [of base "unat (BASE_MAX_DIGIT_MAP ! unat base)" m val str]
    max_digits_exact [OF assms] assms by auto

theorem utoa_round_trip_witness:
  "\<exists>s m'. utoa (\<lambda>_. 7) 1234 0x7000 10 = Some (0x7000, m') \<and> cstr_at m' 0x7000 s \<and> parse_base 10 s = 1234
    \<and> length s \<le> 20"
  using utoa_round_trip [of 10 "\<lambda>_. 7" 1234 "0x7000"] by (auto simp: BASE_MAX_DIGIT_MAP_def)

text \<open>\<open>itoa\<close> on a negative value other than the smallest writes a minus sign and the digits of the
  absolute value, so that the digits read back as it; on the other values it does what \<open>utoa\<close> does.\<close>
theorem itoa_signed:
  assumes "2 \<le> base" "base \<le> 16" "val \<noteq> 0x8000000000000000"
  shows "if sint val < 0
    then \<exists>s. itoa m val str base = Some (str, write_bytes
            (filled m str 0 (Suc (unat (BASE_MAX_DIGIT_MAP ! unat base)))) str (of_char (CHR ''-'') # s))
          \<and> int (parse_base (unat base) s) = - sint val
    else itoa m val str base = utoa m val str base"
proof (cases "sint val < 0")
  case True
  have "2 \<le> unat base" "unat base \<le> 36" using assms by (simp_all add: word_le_nat_alt)
  from parse_render [OF this] show ?thesis
    using True itoa_negative [OF assms(1,2) True assms(3), of m str] sint_negate_64(2) [OF True assms(3)]
    by auto
next
  case False
  then show ?thesis by (simp add: itoa_nonneg)
qed

theorem itoa_signed_witness:
  "sint (- 255 :: u64) < 0 \<and> (\<exists>s. itoa (\<lambda>_. 7) (- 255) 0x7000 16 =
      Some (0x7000, write_bytes (filled (\<lambda>_. 7) 0x7000 0 17) 0x7000 (of_char (CHR ''-'') # s))
    \<and> int (parse_base 16 s) = 255)"
proof -
  have "sint (- 255 :: u64) = - 255" by simp
  then show ?thesis
    using itoa_signed [of 16 "- 255" "\<lambda>_. 7" "0x7000"] by (simp add: BASE_MAX_DIGIT_MAP_def)
qed

text \<open>Two gaps of \<open>itoa\<close>: the smallest 64-bit value cannot be negated, so that in base 10 its first digit
  is looked up at a negative index of the digit string; and in base 16 a negative value of sixteen digits
  fills the whole cleared field, so that the byte after the digits keeps what the buffer held.\<close>
theorem itoa_gaps:
  "itoa m 0x8000000000000000 str 10 = None
   \<and> (\<exists>m'. itoa m 0x8000000000000001 str 16 = Some (str, m') \<and> m' (str + 17) = m (str + 17)
        \<and> 0 \<notin> set (map (\<lambda>i. m' (str + of_nat i)) [0..<17]))"
proof (rule conjI)
  have "sint (0x8000000000000000 :: u64) = - 9223372036854775808" by simp
  moreover have "(- 9223372036854775808 :: int) smod 10 < 0" by (simp add: signed_modulo_int_def)
  moreover have "itoa_count 20 (- 9223372036854775808) 10 = 2"
    by (simp add: itoa_count.simps signed_divide_int_def)
  ultimately show "itoa m 0x8000000000000000 str 10 = None"
    by (simp add: itoa_def BASE_MAX_DIGIT_MAP_def Let_def itoa_write.simps)
next
  let ?v = "0x8000000000000001 :: u64"
  let ?s = "render 16 (unat (- ?v))"
  have "sint ?v < 0" by simp
  then have w: "itoa m ?v str 16 = Some (str, write_bytes (filled m str 0 17) str (of_char (CHR ''-'') # ?s))"
    using itoa_negative [of 16 ?v m str] by (simp add: BASE_MAX_DIGIT_MAP_def)
  have len: "length ?s = 16"
    by (simp add: render_def to_base.simps)
  have nz: "c \<noteq> 0" if "c \<in> set (of_char (CHR ''-'') # ?s)" for c
    using render_nonzero [of 16 "unat (- ?v)"] that by auto
  show "\<exists>m'. itoa m ?v str 16 = Some (str, m') \<and> m' (str + 17) = m (str + 17)
        \<and> 0 \<notin> set (map (\<lambda>i. m' (str + of_nat i)) [0..<17])"
  proof (intro exI conjI notI)
    assume "0 \<in> set (map (\<lambda>i. write_bytes (filled m str 0 17) str (of_char (CHR ''-'') # ?s) (str + of_nat i)) [0..<17])"
    then obtain i where "i < 17" and "write_bytes (filled m str 0 17) str (of_char (CHR ''-'') # ?s) (str + of_nat i) = 0"
      by auto
    moreover have "unat (of_nat i :: u64) = i" using \<open>i < 17\<close> by (intro unat_of_nat_64) simp
    ultimately show False
      using len nz [OF nth_mem, of i] by (simp add: write_bytes_def)
  qed (use w len in \<open>simp_all add: write_bytes_def filled_def\<close>)
qed

end
