(* ===== verification/Machine.thy ===== *)
theory Machine
  imports Digits
begin

text \<open>
  The state the kernel's memory management works on: the byte memory, the registers and global
  variables it uses, and the trace of what was sent to the output devices. The text devices are
  write-only for this code, so each call is one entry of the trace, with its arguments; the
  theories of the devices and of \<open>printf\<close> say what an entry puts out, and \<open>Output\<close> runs a trace on the
  serial device, where it may have to wait for ever.
\<close>

section \<open>Output\<close>

text \<open>An argument slot of a variadic call, and one call of an output routine.\<close>

datatype va = Va_int u64 | Va_str "u8 list"

datatype io =
    Serial "u8 list" \<comment> \<open>\<open>write_serial_string\<close>\<close>
  | Serial_printf string "va list"
  | Tty_printf string "va list"
  | Tty_println string "va list"
  | Tty_print "u8 list"
  | Tty_break

section \<open>The kernel state\<close>

text \<open>
  \<open>KHEAPSTART\<close> is the address of the linker symbol \<open>kEnd\<close>; \<open>vmm_frameAlloc\<close> is the only field of the
  static \<open>vmm\<close>; \<open>kheap_spinlock\<close> is the global lock word of \<^verbatim>\<open>heap.c\<close>.
\<close>

record machine =
  mem :: memory
  cr3 :: u64
  PHYSICAL_ADDRESS_OFFSET :: u64
  KHEAPSTART :: u64
  K_HEAP_END :: u64
  kheap_spinlock :: u32
  vmm_frameAlloc :: u64
  trace :: "io list"

definition say :: "io \<Rightarrow> machine \<Rightarrow> machine" where
  "say e s = s\<lparr>trace := trace s @ [e]\<rparr>"

abbreviation say_serial :: "string \<Rightarrow> machine \<Rightarrow> machine" where
  "say_serial t \<equiv> say (Serial (cbytes t))"

lemma say_fields [simp]:
  "mem (say e s) = mem s" "cr3 (say e s) = cr3 s"
  "PHYSICAL_ADDRESS_OFFSET (say e s) = PHYSICAL_ADDRESS_OFFSET s"
  "KHEAPSTART (say e s) = KHEAPSTART s" "K_HEAP_END (say e s) = K_HEAP_END s"
  "kheap_spinlock (say e s) = kheap_spinlock s" "vmm_frameAlloc (say e s) = vmm_frameAlloc s"
  "trace (say e s) = trace s @ [e]"
  by (simp_all add: say_def)

text \<open>A C string held by a local array of \<open>n\<close> bytes, and \<open>ultoa\<close> into such an array.\<close>

definition local_string :: "nat \<Rightarrow> memory \<Rightarrow> u64 \<Rightarrow> u8 list" where
  "local_string n m a = takeWhile (\<lambda>c. c \<noteq> 0) (map (\<lambda>i. m (a + of_nat i)) [0..<n])"

definition local_ultoa :: "nat \<Rightarrow> u64 \<Rightarrow> int \<Rightarrow> u8 list" where
  "local_ultoa n v base =
     (case ultoa (\<lambda>_. 0) v 0 base of None \<Rightarrow> [] | Some (r, m) \<Rightarrow> local_string n m r)"

lemma local_string_Suc:
  "local_string (Suc k) m a = (if m a = 0 then [] else m a # local_string k m (a + 1))"
proof -
  have "[0..<Suc k] = 0 # map Suc [0..<k]"
    by (simp add: upt_conv_Cons map_Suc_upt del: upt_Suc)
  then show ?thesis
    unfolding local_string_def by (simp add: comp_def add.assoc del: upt_Suc)
qed

lemma local_string_cstr:
  "cstr_at m a s \<Longrightarrow> length s < n \<Longrightarrow> local_string n m a = s"
proof (induction s arbitrary: a n)
  case Nil
  then show ?case
    by (cases n) (simp_all add: local_string_Suc)
next
  case (Cons c s)
  then show ?case
    by (cases n) (auto simp: local_string_Suc)
qed

text \<open>The digits of a 64-bit value in base 16 fit the 30-byte array of \<open>print_ptr_address\<close>.\<close>

lemma local_ultoa_hex: "local_ultoa 30 v 16 = render 16 (unat v)"
proof -
  obtain m' where "ultoa (\<lambda>_. 0) v 0 16 = Some (0, m')" "cstr_at m' 0 (render 16 (unat v))"
    using ultoa_fmt.fmt_writes [of 0 16 "\<lambda>_. 0" v] by (auto simp: fits_def)
  moreover have "length (render 16 (unat v)) \<le> 16"
    using length_to_base [of 16 "unat v" 16] unat_lt_64 [of v] by (simp add: render_def)
  ultimately show ?thesis
    by (simp add: local_ultoa_def local_string_cstr)
qed

end
