(* ===== verification/Framealloc.thy ===== *)
theory Framealloc
  imports Machine
begin

text \<open>
  The physical frame allocator of \<^verbatim>\<open>kernel/src/memory/framealloc.c\<close>: a \<open>FreeFrameList\<close> header of
  three words followed by a growing array of free frame addresses, used as a stack. The locale
  \<open>frame_stack\<close> is the contract its clients use.
\<close>

section \<open>The code\<close>

text \<open>Offsets of \<open>struct FreeFrameList { void *head; struct PhysFrame *nextFree; uint64_t numFrames; }\<close>.\<close>

definition ffl_head :: "memory \<Rightarrow> u64 \<Rightarrow> u64" where "ffl_head m l = load64 m l"
definition ffl_nextFree :: "memory \<Rightarrow> u64 \<Rightarrow> u64" where "ffl_nextFree m l = load64 m (l + 8)"
definition ffl_numFrames :: "memory \<Rightarrow> u64 \<Rightarrow> u64" where "ffl_numFrames m l = load64 m (l + 16)"

definition sizeof_FreeFrameList :: u64 where "sizeof_FreeFrameList = 24"
definition sizeof_PhysFrame :: u64 where "sizeof_PhysFrame = 8"

definition push_frame_list :: "memory \<Rightarrow> u64 \<Rightarrow> u64 \<Rightarrow> memory" where
  "push_frame_list m list physAddress =
     (let m = store64 m (list + 8) (ffl_head m list);
          m = store64 m (ffl_nextFree m list) physAddress;
          m = store64 m (list + 16) (ffl_numFrames m list + 1)
      in store64 m list (ffl_nextFree m list + sizeof_PhysFrame))"

definition pop_frame_list :: "memory \<Rightarrow> u64 \<Rightarrow> u64 \<times> memory" where
  "pop_frame_list m list =
     (if ffl_nextFree m list = 0 then (0, m)
      else
        let address = load64 m (ffl_nextFree m list);
            m = (if ffl_nextFree m list - sizeof_PhysFrame \<noteq> list
                 then store64 m (list + 8) (ffl_nextFree m list - sizeof_PhysFrame)
                 else store64 m (list + 8) 0);
            m = store64 m (list + 16) (ffl_numFrames m list - 1);
            m = store64 m list (ffl_head m list - sizeof_PhysFrame)
        in (address, m))"

text \<open>
  The fields of \<open>struct limine_memmap_entry\<close> that the kernel reads; the type is declared by the boot
  loader's header, which is not part of the repository.
\<close>

record limine_memmap_entry =
  mm_base :: u64
  mm_length :: u64
  mm_type :: u64

function add_frame_loop :: "memory \<Rightarrow> u64 \<Rightarrow> limine_memmap_entry \<Rightarrow> u64 \<Rightarrow> memory" where
  "add_frame_loop m list region x =
     (if x < mm_length region then
        let m = push_frame_list m list (mm_base region + x)
        in if ffl_numFrames m list > 100 then m
           else if x \<ge> 30000 - 1 then m
           else add_frame_loop m list region (x + 0x1000)
      else m)"
  by pat_completeness auto
termination
proof (relation "measure (\<lambda>(m, l, r, x). 30000 - unat x)", simp, clarify)
  fix m list region and x :: u64
  assume "\<not> 30000 - 1 \<le> x"
  then have "unat x < 29999" by (simp add: word_le_nat_alt)
  moreover then have "unat (x + 0x1000) = unat x + 4096" by (subst unat_add_64) simp_all
  ultimately show "((push_frame_list m list (mm_base region + x), list, region, x + 0x1000), m, list, region, x)
      \<in> measure (\<lambda>(m, l, r, x). 30000 - unat x)"
    by simp
qed

declare add_frame_loop.simps [simp del]

definition add_frame_region :: "memory \<Rightarrow> u64 \<Rightarrow> limine_memmap_entry \<Rightarrow> memory" where
  "add_frame_region m list region = add_frame_loop m list region 0"

definition init_frame_list :: "machine \<Rightarrow> u64 \<Rightarrow> limine_memmap_entry \<Rightarrow> u64 \<times> machine" where
  "init_frame_list s addr memmap_region =
     (let m = store64 (mem s) (addr + 8) 0;
          m = store64 m addr (addr + sizeof_FreeFrameList);
          m = store64 m (addr + 16) 0;
          s = say_serial ''frame list inialised'' (s\<lparr>mem := m\<rparr>)
      in (addr, s\<lparr>mem := add_frame_region (mem s) addr memmap_region\<rparr>))"

text \<open>\<open>init_frame_bitmap\<close> computes a size and returns the null pointer.\<close>

definition init_frame_bitmap :: "u64 \<Rightarrow> u64 \<Rightarrow> u64" where
  "init_frame_bitmap total_memory memmap = (let required_size = (total_memory div 4096) div 8 in 0)"

lemmas ffl_defs = ffl_head_def ffl_nextFree_def ffl_numFrames_def sizeof_FreeFrameList_def sizeof_PhysFrame_def

section \<open>The list as a stack\<close>

text \<open>
  \<open>frame_list cap m l xs\<close>: at \<open>l\<close> there is a free list with room for \<open>cap\<close> frames that holds the
  frames \<open>xs\<close>, last pushed first. An empty list has either never been used (\<open>nextFree\<close> is null) or
  has been drained, and then \<open>nextFree\<close> points into the header: see \<open>pop_drained\<close> below.
\<close>

definition frame_list :: "nat \<Rightarrow> memory \<Rightarrow> u64 \<Rightarrow> u64 list \<Rightarrow> bool" where
  "frame_list cap m l xs \<longleftrightarrow>
     l \<noteq> 0 \<and> unat l + 24 + 8 * cap < 18446744073709551616 \<and> length xs \<le> cap
     \<and> ffl_head m l = l + 24 + 8 * of_nat (length xs)
     \<and> ffl_numFrames m l = of_nat (length xs)
     \<and> (if xs = [] then ffl_nextFree m l = 0 \<or> ffl_nextFree m l = l + 16
        else ffl_nextFree m l = l + 16 + 8 * of_nat (length xs))
     \<and> (\<forall>i < length xs. load64 m (l + 24 + 8 * of_nat i) = rev xs ! i)"

text \<open>The cells of the list are apart from each other.\<close>

lemma slot_sep:
  assumes "unat l + 24 + 8 * cap < 18446744073709551616" "i < cap"
  shows "sep (l + 24 + 8 * of_nat i) 8 l 8" "sep (l + 24 + 8 * of_nat i) 8 (l + 8) 8"
    "sep (l + 24 + 8 * of_nat i) 8 (l + 16) 8"
    "j < cap \<Longrightarrow> i \<noteq> j \<Longrightarrow> sep (l + 24 + 8 * of_nat i) 8 (l + 24 + 8 * of_nat j) 8"
proof -
  have a: "unat (l + 24 + 8 * of_nat k) = unat l + 24 + 8 * k" if "k < cap" for k
  proof -
    have "unat (24 + 8 * of_nat k :: u64) = 24 + 8 * k"
      using unat_of_nat_64 [of "24 + 8 * k"] that assms(1) by simp
    then show ?thesis using that assms(1) unat_add_64 [of l "24 + 8 * of_nat k"] by (simp add: add.assoc)
  qed
  have b: "unat (l + 8) = unat l + 8" "unat (l + 16) = unat l + 16"
    using assms by (simp_all add: unat_add_64)
  show "sep (l + 24 + 8 * of_nat i) 8 l 8" "sep (l + 24 + 8 * of_nat i) 8 (l + 8) 8"
    "sep (l + 24 + 8 * of_nat i) 8 (l + 16) 8"
    using a [OF assms(2)] b assms by (subst sep_sym, intro sep_ordered; simp)+
  show "sep (l + 24 + 8 * of_nat i) 8 (l + 24 + 8 * of_nat j) 8" if "j < cap" "i \<noteq> j"
  proof (cases "i < j")
    case True
    then show ?thesis using a assms that by (intro sep_ordered) auto
  next
    case False
    then show ?thesis using a assms that by (subst sep_sym, intro sep_ordered) auto
  qed
qed

lemma header_sep:
  "sep l 8 (l + 8) 8" "sep l 8 (l + 16) 8" "sep (l + 8) 8 l 8" "sep (l + 8) 8 (l + 16) 8"
  "sep (l + 16) 8 l 8" "sep (l + 16) 8 (l + 8) 8"
  by (simp_all add: sep_simps)

lemma slot_addr: "l + 24 + 8 * of_nat n = (l + 16 + 8 * of_nat (Suc n) :: u64)"
  by (simp add: algebra_simps)

lemma push_frame_list_rep:
  assumes "frame_list cap m l xs" "length xs < cap"
  shows "frame_list cap (push_frame_list m l x) l (x # xs)"
proof -
  let ?n = "length xs"
  note fl = assms(1) [unfolded frame_list_def ffl_defs]
  have room: "unat l + 24 + 8 * cap < 18446744073709551616" using fl by simp
  note s = slot_sep [OF room assms(2)] slot_sep [OF room assms(2), THEN sep_sym [THEN iffD1]]
  have head: "load64 m l = l + 24 + 8 * of_nat ?n" using fl by simp
  have num: "load64 m (l + 16) = of_nat ?n" using fl by simp
  define m' where "m' = push_frame_list m l x"
  have "m' = store64 (store64 (store64 (store64 m (l + 8) (l + 24 + 8 * of_nat ?n))
      (l + 24 + 8 * of_nat ?n) x) (l + 16) (of_nat ?n + 1)) l (l + 24 + 8 * of_nat ?n + 8)"
    unfolding m'_def push_frame_list_def
    using head num s by (simp add: ffl_defs Let_def mem_simps header_sep)
  then have m': "load64 m' l = l + 24 + 8 * of_nat (Suc ?n)" "load64 m' (l + 8) = l + 24 + 8 * of_nat ?n"
      "load64 m' (l + 16) = of_nat (Suc ?n)" "load64 m' (l + 24 + 8 * of_nat ?n) = x"
    and old: "\<And>i. i < ?n \<Longrightarrow> load64 m' (l + 24 + 8 * of_nat i) = load64 m (l + 24 + 8 * of_nat i)"
    using s slot_sep [OF room] assms(2) by (simp_all add: mem_simps header_sep algebra_simps)
  have "load64 m' (l + 24 + 8 * of_nat i) = rev (x # xs) ! i" if "i < length (x # xs)" for i
    using that m'(4) old [of i] fl by (auto simp: nth_append less_Suc_eq)
  then show ?thesis
    using fl m' assms(2) unfolding frame_list_def m'_def [symmetric]
    by (simp add: ffl_defs algebra_simps)
qed

lemma slot_unat:
  fixes l :: u64
  assumes "unat l + 24 + 8 * cap < 18446744073709551616" "i \<le> cap"
  shows "unat (l + 16 + 8 * of_nat i) = unat l + 16 + 8 * i"
proof -
  have "unat (16 + 8 * of_nat i :: u64) = 16 + 8 * i"
    using unat_of_nat_64 [of "16 + 8 * i"] assms by simp
  then show ?thesis using assms unat_add_64 [of l "16 + 8 * of_nat i"] by (simp add: add.assoc)
qed

text \<open>What \<open>pop_frame_list\<close> does to the memory whenever \<open>nextFree\<close> is not null.\<close>

lemma pop_frame_list_nonempty:
  assumes "ffl_nextFree m l \<noteq> 0" "ffl_nextFree m l - 8 \<noteq> l"
  shows "pop_frame_list m l = (load64 m (ffl_nextFree m l),
    store64 (store64 (store64 m (l + 8) (ffl_nextFree m l - 8)) (l + 16) (ffl_numFrames m l - 1)) l (ffl_head m l - 8))"
  using assms by (simp add: pop_frame_list_def Let_def ffl_defs mem_simps header_sep)

lemma pop_frame_list_rep:
  assumes "frame_list cap m l (x # xs)"
  shows "fst (pop_frame_list m l) = x \<and> frame_list cap (snd (pop_frame_list m l)) l xs"
proof -
  let ?n = "length xs"
  note fl = assms [unfolded frame_list_def ffl_defs]
  have room: "unat l + 24 + 8 * cap < 18446744073709551616" "?n < cap" using fl by auto
  have nf: "ffl_nextFree m l = l + 24 + 8 * of_nat ?n"
    using fl by (simp add: ffl_defs algebra_simps)
  have u: "unat (l + 24 + 8 * of_nat ?n) = unat l + 24 + 8 * ?n"
    using slot_unat [OF room(1), of "Suc ?n"] room by (simp add: algebra_simps)
  then have "l + 24 + 8 * of_nat ?n \<noteq> 0" by auto
  moreover have "l + 24 + 8 * of_nat ?n - 8 = l + 16 + 8 * of_nat ?n" by simp
  moreover have "l + 16 + 8 * of_nat ?n \<noteq> l"
  proof
    assume "l + 16 + 8 * of_nat ?n = l"
    from arg_cong [OF this, of unat] show False using slot_unat [OF room(1), of ?n] room by simp
  qed
  ultimately have pop: "pop_frame_list m l = (load64 m (l + 24 + 8 * of_nat ?n),
    store64 (store64 (store64 m (l + 8) (l + 16 + 8 * of_nat ?n)) (l + 16) (ffl_numFrames m l - 1)) l (ffl_head m l - 8))"
    using pop_frame_list_nonempty [of m l] nf by metis
  define m' where "m' = snd (pop_frame_list m l)"
  have m': "load64 m' l = l + 24 + 8 * of_nat ?n" "load64 m' (l + 8) = l + 16 + 8 * of_nat ?n"
    "load64 m' (l + 16) = of_nat ?n"
    unfolding m'_def pop using fl by (simp_all add: mem_simps header_sep ffl_defs)
  have old: "load64 m' (l + 24 + 8 * of_nat i) = load64 m (l + 24 + 8 * of_nat i)" if "i < ?n" for i
    unfolding m'_def pop using slot_sep [OF room(1), of i] that room(2) by (simp add: mem_simps)
  have "load64 m (l + 24 + 8 * of_nat i) = rev (x # xs) ! i" if "i < Suc ?n" for i
    using fl that by simp
  then have "fst (pop_frame_list m l) = x" and "\<forall>i < ?n. load64 m' (l + 24 + 8 * of_nat i) = rev xs ! i"
    unfolding pop by (simp_all add: old nth_append)
  then show ?thesis
    using fl m' unfolding frame_list_def m'_def [symmetric] by (auto simp: ffl_defs)
qed

text \<open>An empty list hands out the null address: the caller sees the exhaustion.\<close>

lemma pop_frame_list_empty:
  assumes "frame_list cap m l []"
  shows "fst (pop_frame_list m l) = 0"
proof -
  have "load64 m (l + 16) = 0" "load64 m (l + 8) = 0 \<or> load64 m (l + 8) = l + 16"
    using assms by (auto simp: frame_list_def ffl_defs)
  then show ?thesis
    by (auto simp: pop_frame_list_def Let_def ffl_defs)
qed

lemma pop_frame_list_outside:
  assumes "\<not> unat (y - l) < 24"
  shows "snd (pop_frame_list m l) y = m y"
proof -
  have "\<not> unat (y - (l + 8)) < 8" "\<not> unat (y - (l + 16)) < 8" "\<not> unat (y - l) < 8"
    using assms unat_diff_if_64 [of "y - l" 8] unat_diff_if_64 [of "y - l" 16]
    by (auto simp: diff_diff_add split: if_splits)
  then show ?thesis
    by (simp add: pop_frame_list_def Let_def c64.put_local)
qed

lemma frame_list_room:
  assumes "frame_list cap m l xs" "i < cap"
  shows "unat (l + 24 + 8 * of_nat i - l) + 8 \<le> 24 + 8 * cap"
  using unat_of_nat_64 [of "24 + 8 * i"] assms by (simp add: frame_list_def)

lemma push_frame_list_outside:
  assumes "frame_list cap m l xs" "length xs < cap" "\<not> unat (y - l) < 24 + 8 * cap"
  shows "push_frame_list m l x y = m y"
proof -
  let ?n = "length xs"
  let ?p = "l + 24 + 8 * of_nat ?n"
  have h: "load64 m l = ?p" using assms(1) by (simp add: frame_list_def ffl_defs)
  have p: "unat (?p - l) = 24 + 8 * ?n"
    using unat_of_nat_64 [of "24 + 8 * ?n"] assms(1,2) by (simp add: frame_list_def)
  have "\<not> unat (y - (l + 8)) < 8" "\<not> unat (y - (l + 16)) < 8" "\<not> unat (y - l) < 8" "\<not> unat (y - ?p) < 8"
    using assms(2,3) p unat_diff_if_64 [of "y - l" 8] unat_diff_if_64 [of "y - l" 16]
      unat_diff_if_64 [of "y - l" "?p - l"]
    by (auto simp: diff_diff_add add.assoc split: if_splits)
  then show ?thesis
    using h by (simp add: push_frame_list_def Let_def c64.put_local c64.get_put ffl_defs)
qed

lemma load64_local_range:
  assumes "\<And>y. unat (y - l) < n \<Longrightarrow> m y = m' y" "unat (a - l) + 8 \<le> n"
  shows "load64 m a = load64 m' a"
proof (rule c64.get_local)
  fix x assume "unat (x - a) < 8"
  then have "unat (x - l) < n"
    using assms(2) unat_word_ariths(1) [of "x - a" "a - l"]
    by (simp add: mod_less_eq_dividend le_less_trans)
  then show "m x = m' x" by (rule assms(1))
qed

lemma frame_list_local:
  assumes "\<And>y. unat (y - l) < 24 + 8 * cap \<Longrightarrow> m y = m' y"
  shows "frame_list cap m l xs = frame_list cap m' l xs"
proof -
  have "load64 m l = load64 m' l" "load64 m (l + 8) = load64 m' (l + 8)"
      "load64 m (l + 16) = load64 m' (l + 16)"
    using load64_local_range [OF assms, of l] load64_local_range [OF assms, of "l + 8"]
      load64_local_range [OF assms, of "l + 16"] by simp_all
  moreover have "load64 m (l + 24 + 8 * of_nat i) = load64 m' (l + 24 + 8 * of_nat i)"
    if "i < cap" "unat l + 24 + 8 * cap < 18446744073709551616" for i
    using unat_of_nat_64 [of "24 + 8 * i"] that by (intro load64_local_range [OF assms]) auto
  ultimately show ?thesis
    by (auto simp: frame_list_def ffl_defs)
qed

section \<open>The contract of the frame allocator\<close>

text \<open>
  What the page-table code and the virtual memory manager rely on: a stack of frames with a bounded
  room, kept in one range of memory that no other operation touches.
\<close>

locale frame_stack =
  fixes push :: "memory \<Rightarrow> u64 \<Rightarrow> u64 \<Rightarrow> memory"
    and pop :: "memory \<Rightarrow> u64 \<Rightarrow> u64 \<times> memory"
    and rep :: "memory \<Rightarrow> u64 \<Rightarrow> u64 list \<Rightarrow> bool"
    and cap extent :: nat
  assumes push_rep: "rep m l xs \<Longrightarrow> length xs < cap \<Longrightarrow> rep (push m l x) l (x # xs)"
    and push_outside: "rep m l xs \<Longrightarrow> length xs < cap \<Longrightarrow> \<not> unat (y - l) < extent \<Longrightarrow> push m l x y = m y"
    and pop_rep: "rep m l (x # xs) \<Longrightarrow> fst (pop m l) = x \<and> rep (snd (pop m l)) l xs"
    and pop_empty: "rep m l [] \<Longrightarrow> fst (pop m l) = 0"
    and pop_outside: "\<not> unat (y - l) < extent \<Longrightarrow> snd (pop m l) y = m y"
    and rep_local: "(\<And>y. unat (y - l) < extent \<Longrightarrow> m y = m' y) \<Longrightarrow> rep m l xs = rep m' l xs"
begin

lemma pop_push:
  assumes "rep m l xs" "length xs < cap"
  shows "fst (pop (push m l x) l) = x \<and> rep (snd (pop (push m l x) l)) l xs"
  by (rule pop_rep [OF push_rep [OF assms]])

lemma push_all:
  assumes "rep m l xs" "length xs + length ys \<le> cap"
  shows "rep (fold (\<lambda>y m. push m l y) ys m) l (rev ys @ xs)"
  using assms
proof (induction ys arbitrary: m xs)
  case Nil
  then show ?case by simp
next
  case (Cons y ys)
  then show ?case using push_rep [of m l xs y] Cons.IH [of "push m l y" "y # xs"] by simp
qed

text \<open>Draining the list hands the frames out in reverse order of arrival.\<close>

lemma pop_all:
  assumes "rep m l (xs @ ys)"
  shows "\<exists>m'. foldl (\<lambda>(as, m) _. (as @ [fst (pop m l)], snd (pop m l))) ([], m) xs = (xs, m') \<and> rep m' l ys"
proof -
  have "\<exists>m'. foldl (\<lambda>(as, m) _. (as @ [fst (pop m l)], snd (pop m l))) (as, m) xs = (as @ xs, m') \<and> rep m' l ys"
    for as
    using assms
  proof (induction xs arbitrary: as m)
    case Nil
    then show ?case by simp
  next
    case (Cons x xs)
    have "fst (pop m l) = x" "rep (snd (pop m l)) l (xs @ ys)"
      using pop_rep [of m l x "xs @ ys"] Cons.prems by simp_all
    then show ?case using Cons.IH [of "snd (pop m l)" "as @ [x]"] by simp
  qed
  from this [of "[]"] show ?thesis by simp
qed

lemma rep_apart:
  assumes "rep m l xs" "sep a n l extent" "\<And>y. \<not> unat (y - a) < n \<Longrightarrow> m' y = m y"
  shows "rep m' l xs"
  using assms(1) rep_local [of l m m' xs] sep_apart [OF assms(2)] assms(3) by metis

end

interpretation ffl: frame_stack push_frame_list pop_frame_list "frame_list cap" cap "24 + 8 * cap" for cap
proof (unfold_locales, goal_cases)
  case 1 then show ?case by (rule push_frame_list_rep)
next
  case 2 then show ?case by (rule push_frame_list_outside)
next
  case 3 then show ?case by (rule pop_frame_list_rep)
next
  case 4 then show ?case by (rule pop_frame_list_empty)
next
  case 5 then show ?case by (intro pop_frame_list_outside) simp
next
  case 6 then show ?case by (rule frame_list_local)
qed

section \<open>Filling the list from a memory region\<close>

text \<open>The frames of a region in the order the loop pushes them, and how many of them it takes.\<close>

definition region_frames :: "limine_memmap_entry \<Rightarrow> nat \<Rightarrow> u64 list" where
  "region_frames region k = map (\<lambda>i. mm_base region + 0x1000 * of_nat i) [0..<k]"

definition frames_taken :: "limine_memmap_entry \<Rightarrow> nat" where
  "frames_taken region = min 9 ((unat (mm_length region) + 4095) div 4096)"

lemma unat_page_offset: "i \<le> 9 \<Longrightarrow> unat (0x1000 * of_nat i :: u64) = 4096 * i"
  using unat_of_nat_64 [of "4096 * i"] by simp

lemma push_region:
  assumes "frame_list cap m l (rev (region_frames region i))" "i < cap"
  shows "frame_list cap (push_frame_list m l (mm_base region + 0x1000 * of_nat i)) l
    (rev (region_frames region (Suc i)))"
  using push_frame_list_rep [OF assms(1), of "mm_base region + 0x1000 * of_nat i"] assms(2)
  by (simp add: region_frames_def)

lemma add_frame_loop_rep:
  assumes "frame_list cap m l (rev (region_frames region i))" "i \<le> frames_taken region" "i < 9" "9 \<le> cap"
  shows "frame_list cap (add_frame_loop m l region (0x1000 * of_nat i)) l
    (rev (region_frames region (frames_taken region)))"
  using assms(1-3)
proof (induction "8 - i" arbitrary: m i)
  case (0 i m)
  then have i8: "i = 8" by simp
  show ?case
  proof (cases "0x1000 * of_nat i < mm_length region")
    case False
    then have "frames_taken region = i"
      using 0 i8 unat_page_offset [of i] by (simp add: frames_taken_def word_less_nat_alt)
    then show ?thesis using False 0 by (subst add_frame_loop.simps) simp
  next
    case True
    then have ft: "frames_taken region = Suc i"
      using i8 unat_page_offset [of i] by (simp add: frames_taken_def word_less_nat_alt)
    let ?m = "push_frame_list m l (mm_base region + 0x1000 * of_nat i)"
    have "frame_list cap ?m l (rev (region_frames region (Suc i)))"
      using assms(4) i8 by (intro push_region 0(2)) simp
    then show ?thesis
      using True ft i8 by (subst add_frame_loop.simps) (simp add: Let_def)
  qed
next
  case (Suc n i m)
  then have i8: "i < 8" by simp
  show ?case
  proof (cases "0x1000 * of_nat i < mm_length region")
    case False
    then have "frames_taken region = i"
      using Suc.prems i8 unat_page_offset [of i] by (simp add: frames_taken_def word_less_nat_alt)
    then show ?thesis using False Suc.prems by (subst add_frame_loop.simps) simp
  next
    case True
    then have ft: "Suc i \<le> frames_taken region"
      using i8 unat_page_offset [of i] by (simp add: frames_taken_def word_less_nat_alt)
    let ?m = "push_frame_list m l (mm_base region + 0x1000 * of_nat i)"
    have fl: "frame_list cap ?m l (rev (region_frames region (Suc i)))"
      using assms(4) i8 by (intro push_region Suc.prems(1)) simp
    then have "ffl_numFrames ?m l = of_nat (Suc i)"
      by (simp add: frame_list_def region_frames_def)
    then have "\<not> ffl_numFrames ?m l > 100"
      using i8 unat_of_nat_64 [of "Suc i"] by (simp add: word_less_nat_alt)
    moreover have "\<not> 0x1000 * of_nat i \<ge> (30000 - 1 :: u64)"
      using i8 unat_page_offset [of i] by (simp add: word_le_nat_alt)
    moreover have "frame_list cap (add_frame_loop ?m l region (0x1000 * of_nat (Suc i))) l
        (rev (region_frames region (frames_taken region)))"
      using Suc.hyps(2) fl ft i8 by (intro Suc.hyps(1)) auto
    moreover have "(0x1000 * of_nat i + 0x1000 :: u64) = 0x1000 * of_nat (Suc i)"
      by (simp add: algebra_simps)
    ultimately show ?thesis
      using True by (subst add_frame_loop.simps) (simp add: Let_def add.commute)
  qed
qed

lemma init_header_empty:
  assumes "l \<noteq> 0" "unat l + 24 + 8 * cap < 18446744073709551616"
  shows "frame_list cap (store64 (store64 (store64 m (l + 8) 0) l (l + 24)) (l + 16) 0) l []"
  using assms by (simp add: frame_list_def ffl_defs mem_simps header_sep)

lemma init_frame_list_rep:
  assumes "addr \<noteq> 0" "unat addr + 24 + 8 * cap < 18446744073709551616" "9 \<le> cap"
  shows "frame_list cap (mem (snd (init_frame_list s addr region))) addr
        (rev (region_frames region (frames_taken region)))"
proof -
  let ?m = "store64 (store64 (store64 (mem s) (addr + 8) 0) addr (addr + 24)) (addr + 16) 0"
  have "frame_list cap ?m addr (rev (region_frames region 0))"
    using init_header_empty [OF assms(1,2)] by (simp add: region_frames_def)
  from add_frame_loop_rep [OF this] assms(3) show ?thesis
    by (simp add: init_frame_list_def Let_def add_frame_region_def sizeof_FreeFrameList_def)
qed

section \<open>Properties\<close>

text \<open>C13. The free-frame list is a stack: a frame that is pushed is the next one popped and popping it gives
  the former list back; a list with a frame hands out the last one pushed; an empty list hands out the null
  address; and neither operation writes outside the header and the room reserved for the entries.\<close>
theorem frame_list_is_stack:
  assumes "frame_list cap m l xs" "length xs < cap"
  shows "frame_list cap (push_frame_list m l x) l (x # xs)
    \<and> fst (pop_frame_list (push_frame_list m l x) l) = x
    \<and> frame_list cap (snd (pop_frame_list (push_frame_list m l x) l)) l xs
    \<and> (if xs = [] then fst (pop_frame_list m l) = 0
       else fst (pop_frame_list m l) = hd xs \<and> frame_list cap (snd (pop_frame_list m l)) l (tl xs))
    \<and> (\<forall>y. \<not> unat (y - l) < 24 + 8 * cap \<longrightarrow>
          push_frame_list m l x y = m y \<and> snd (pop_frame_list m l) y = m y)"
  using ffl.push_rep [OF assms] ffl.pop_push [OF assms] ffl.pop_empty [of cap m l] assms
    ffl.pop_rep [of cap m l "hd xs" "tl xs"] ffl.push_outside [OF assms] ffl.pop_outside [of _ l cap m]
  by auto

theorem frame_list_is_stack_witness:
  "frame_list 9 (store64 (store64 (store64 (\<lambda>_. 0) 0x5008 0) 0x5000 0x5018) 0x5010 0) 0x5000 []
   \<and> fst (pop_frame_list (push_frame_list
        (store64 (store64 (store64 (\<lambda>_. 0) 0x5008 0) 0x5000 0x5018) 0x5010 0) 0x5000 0xA000) 0x5000) = 0xA000"
proof -
  have "frame_list 9 (store64 (store64 (store64 (\<lambda>_. 0) 0x5008 0) 0x5000 0x5018) 0x5010 0) 0x5000 []"
    using init_header_empty [of "0x5000" 9 "\<lambda>_. 0"] by simp
  then show ?thesis
    using frame_list_is_stack [of 9 _ "0x5000" "[]" "0xA000"] by simp
qed

text \<open>C32. A list that \<open>init_frame_list\<close> sets up holds the first frames of the given region, in the order of
  their addresses, the highest one on top: all of them when the region has at most nine frames, and exactly
  nine when it has more, because the loop stops once the offset reaches 29999.\<close>
theorem init_frame_list_region:
  assumes "addr \<noteq> 0" "unat addr + 24 + 8 * cap < 18446744073709551616" "9 \<le> cap"
  shows "fst (init_frame_list s addr region) = addr
    \<and> frame_list cap (mem (snd (init_frame_list s addr region))) addr
        (rev (region_frames region (frames_taken region)))"
  using init_frame_list_rep [OF assms] by (simp add: init_frame_list_def Let_def)

definition boot_state :: machine where
  "boot_state = \<lparr>mem = (\<lambda>_. 0), cr3 = 0x1000, PHYSICAL_ADDRESS_OFFSET = 0xffff800000000000,
     KHEAPSTART = 0xffffffff80020000, K_HEAP_END = 0, kheap_spinlock = 0, vmm_frameAlloc = 0, trace = []\<rparr>"

theorem init_frame_list_region_witness:
  "frame_list 9 (mem (snd (init_frame_list boot_state 0x5000 \<lparr>mm_base = 0x100000, mm_length = 0x3000, mm_type = 0\<rparr>)))
     0x5000 [0x102000, 0x101000, 0x100000]"
  using init_frame_list_region [of "0x5000" 9 boot_state
      "\<lparr>mm_base = 0x100000, mm_length = 0x3000, mm_type = 0\<rparr>"]
  by (simp add: region_frames_def frames_taken_def upt_rec)

text \<open>The list does not notice that it is drained: the test for the last entry compares with the header's
  first word, but entries start after its third. Popping the only frame leaves \<open>nextFree\<close> on the header: the
  next pop answers null yet counts \<open>numFrames\<close> down below zero, and the one after it hands out an address
  inside the list header as a free frame.\<close>
theorem pop_drained:
  assumes "frame_list cap m l [x]"
  shows "let (a, m1) = pop_frame_list m l; (b, m2) = pop_frame_list m1 l; (c, m3) = pop_frame_list m2 l
    in a = x \<and> b = 0 \<and> ffl_numFrames m2 l = - 1 \<and> c = l + 8 \<and> ffl_nextFree m3 l = 0"
proof -
  obtain m1 where p1: "pop_frame_list m l = (x, m1)" and fl: "frame_list cap m1 l []"
    using pop_frame_list_rep [OF assms] by (metis prod.collapse)
  have room: "unat l + 24 < 18446744073709551616" "l \<noteq> 0" "ffl_nextFree m l = l + 24"
    using assms by (auto simp: frame_list_def)
  have l8: "unat (l + 8) = unat l + 8" "unat (l + 16) = unat l + 16" "unat (l + 24) = unat l + 24"
    using room by (simp_all add: unat_add_64)
  then have ne: "l + 8 \<noteq> 0" "l + 16 \<noteq> 0" "l + 24 \<noteq> 0" by (metis unat_0 add_is_0 zero_neq_numeral)+
  have m1: "m1 = store64 (store64 (store64 m (l + 8) (l + 16)) (l + 16) (ffl_numFrames m l - 1)) l (ffl_head m l - 8)"
  proof -
    have e: "l + 24 - 8 = l + 16" by simp
    have "l + 16 \<noteq> l" by simp
    then show ?thesis
      using p1 pop_frame_list_nonempty [of m l] ne(3) unfolding room(3) e by simp
  qed
  have n1: "ffl_nextFree m1 l = l + 16" "ffl_numFrames m1 l = 0"
    using fl by (simp_all add: m1 ffl_defs mem_simps header_sep frame_list_def)
  define m2 where "m2 = store64 (store64 (store64 m1 (l + 8) (l + 8)) (l + 16) (- 1)) l (ffl_head m1 l - 8)"
  have p2: "pop_frame_list m1 l = (0, m2)"
  proof -
    have e: "l + 16 - 8 = l + 8" by simp
    have "l + 8 \<noteq> l" by simp
    moreover have "load64 m1 (l + 16) = 0" using n1(2) by (simp add: ffl_defs)
    ultimately show ?thesis
      using pop_frame_list_nonempty [of m1 l] ne(2) unfolding n1 e by (simp add: m2_def)
  qed
  have n2: "ffl_nextFree m2 l = l + 8" "ffl_numFrames m2 l = - 1"
    by (simp_all add: m2_def ffl_defs mem_simps header_sep)
  then have "fst (pop_frame_list m2 l) = l + 8" "ffl_nextFree (snd (pop_frame_list m2 l)) l = 0"
    using ne by (simp_all add: pop_frame_list_def Let_def ffl_defs mem_simps header_sep)
  with p1 p2 n2 show ?thesis by (simp add: split_beta Let_def)
qed

theorem pop_drained_witness:
  "\<exists>m. frame_list 9 m 0x5000 [0xA000] \<and>
    (let (a, m1) = pop_frame_list m 0x5000; (b, m2) = pop_frame_list m1 0x5000; (c, m3) = pop_frame_list m2 0x5000
     in c = 0x5008)"
proof -
  let ?m = "push_frame_list (store64 (store64 (store64 (\<lambda>_. 0) 0x5008 0) 0x5000 0x5018) 0x5010 0) 0x5000 0xA000"
  have fl: "frame_list 9 ?m 0x5000 [0xA000]"
    using init_header_empty [of "0x5000" 9 "\<lambda>_. 0"] by (intro push_frame_list_rep) simp_all
  from pop_drained [OF this] show ?thesis
    by (intro exI [of _ ?m] conjI fl) (simp add: split_beta Let_def)
qed

end
