(* ===== verification/Paging.thy ===== *)
theory Paging
  imports Framealloc "HOL-Library.Multiset"
begin

text \<open>
  Four-level page tables, \<^verbatim>\<open>kernel/src/arch/paging/paging.c\<close> and \<^verbatim>\<open>paging.h\<close>: the table
  operations over the byte memory, through the higher-half offset at which the boot loader maps
  all physical memory. The specification is the table walk \<open>pt_walk\<close>; the invariant \<open>pt_ok\<close> says
  that the tables reachable from a root form a tree and that free frames are apart from it.
\<close>

section \<open>Constants and entries\<close>

definition PAGE_ADDR_MASK :: u64 where "PAGE_ADDR_MASK = 0x000FFFFFFFFFF000"
definition PAGE_SIZE :: u64 where "PAGE_SIZE = 4096"

definition PAGE_PRESENT :: u64 where "PAGE_PRESENT = push_bit 0 1"
definition PAGE_RW :: u64 where "PAGE_RW = push_bit 1 1"

record pt_indices_t =
  pgd :: u64
  pud :: u64
  pmd :: u64
  pt :: u64

definition init_paging :: "machine \<Rightarrow> u64 \<Rightarrow> machine" where
  "init_paging s offset = s\<lparr>PHYSICAL_ADDRESS_OFFSET := offset\<rparr>"

definition phys_to_virt_translation :: "machine \<Rightarrow> u64 \<Rightarrow> u64" where
  "phys_to_virt_translation s addr = addr + PHYSICAL_ADDRESS_OFFSET s"

definition is_page_table_present :: "u64 \<Rightarrow> bool" where
  "is_page_table_present pt_entry \<longleftrightarrow> pt_entry AND 0x1 \<noteq> 0"

definition page_table_phys_address :: "u64 \<Rightarrow> u64" where
  "page_table_phys_address pt_entry = pt_entry AND NOT (push_bit 12 1 - 1) AND (push_bit 51 1 - 1)"

definition active_pml4_table :: "machine \<Rightarrow> u64" where
  "active_pml4_table s = (cr3 s AND NOT 0xFFF) + PHYSICAL_ADDRESS_OFFSET s"

definition create_basic_page_attributes :: u64 where
  "create_basic_page_attributes = (0 OR PAGE_PRESENT) OR PAGE_RW"

definition print_ptr_address :: "machine \<Rightarrow> u64 \<Rightarrow> machine" where
  "print_ptr_address s addr =
     say_serial [CHR 0x0A] (say (Serial (local_ultoa 30 addr 16)) (say_serial ''0x'' s))"

definition calculate_pt_indices :: "u64 \<Rightarrow> pt_indices_t" where
  "calculate_pt_indices addr =
     \<lparr>pgd = drop_bit 39 addr AND 0x1ff, pud = drop_bit 30 addr AND 0x1ff,
      pmd = drop_bit 21 addr AND 0x1ff, pt = drop_bit 12 addr AND 0x1ff\<rparr>"

section \<open>Creating tables and mapping\<close>

definition create_new_page_table :: "machine \<Rightarrow> u64 \<Rightarrow> u64 \<times> machine" where
  "create_new_page_table s frameAlloc =
     (let (addr, m) = pop_frame_list (mem s) frameAlloc;
          s = s\<lparr>mem := m\<rparr>
      in if addr = 0 then (0, s)
         else
           let s = print_ptr_address s addr;
               virtAddr = phys_to_virt_translation s addr;
               s = say_serial (''created page table '' @ [CHR 0x0A]) s;
               s = print_ptr_address s virtAddr;
               m = snd (memset (mem s) virtAddr 0 4096);
               m = store64 m (virtAddr + 8 * 1) 0
           in (addr, s\<lparr>mem := m\<rparr>))"

text \<open>
  One level of \<open>map_to_page\<close>: find or create the table that entry \<open>index\<close> of the table at \<open>table\<close>
  points to. The source writes the same block three times, for the entries of the levels 4, 3 and 2,
  with its own message when no frame is left; \<^term>\<open>None\<close> is its \<open>return NULL\<close>.
\<close>

definition map_level :: "machine \<Rightarrow> u64 \<Rightarrow> u64 \<Rightarrow> u64 \<Rightarrow> string \<Rightarrow> u64 option \<times> machine" where
  "map_level s table index frameAlloc message =
     (let entry = load64 (mem s) (table + 8 * index)
      in if \<not> is_page_table_present entry then
           let (newPhysAddr, s) = create_new_page_table s frameAlloc
           in if newPhysAddr = 0 then (None, say_serial message s)
              else
                let s = s\<lparr>mem := store64 (mem s) (table + 8 * index)
                      ((newPhysAddr AND PAGE_ADDR_MASK) OR create_basic_page_attributes)\<rparr>
                in (Some (phys_to_virt_translation s newPhysAddr), s)
         else (Some (phys_to_virt_translation s (page_table_phys_address entry)), s))"

definition map_to_page :: "machine \<Rightarrow> u64 \<Rightarrow> u64 \<Rightarrow> u64 \<Rightarrow> u64 \<Rightarrow> u64 \<times> machine" where
  "map_to_page s address frame frameAlloc pml4VirtAddress =
     (let pgd = drop_bit 39 address AND 0x1ff;
          pud = drop_bit 30 address AND 0x1ff;
          pmd = drop_bit 21 address AND 0x1ff;
          pt = drop_bit 12 address AND 0x1ff;
          virtPgdAddress = (if pml4VirtAddress = 0 then phys_to_virt_translation s (cr3 s) else pml4VirtAddress)
      in if virtPgdAddress = 0 then (0, s)
         else case map_level s virtPgdAddress pgd frameAlloc ''Can't allocate new PUD page table'' of
           (None, s) \<Rightarrow> (0, s)
         | (Some virtPudAddress, s) \<Rightarrow>
           (case map_level s virtPudAddress pud frameAlloc ''Can't allocate new PMD page table'' of
             (None, s) \<Rightarrow> (0, s)
           | (Some virtPmdAddress, s) \<Rightarrow>
             (case map_level s virtPmdAddress pmd frameAlloc ''Couldn't Allocate new PT.'' of
               (None, s) \<Rightarrow> (0, s)
             | (Some virtPtAddress, s) \<Rightarrow>
                 (address, s\<lparr>mem := store64 (mem s) (virtPtAddress + 8 * pt)
                     ((frame AND PAGE_ADDR_MASK) OR create_basic_page_attributes)\<rparr>))))"

definition identity_map_page :: "machine \<Rightarrow> u64 \<Rightarrow> u64 \<Rightarrow> u64 \<Rightarrow> u64 \<times> machine" where
  "identity_map_page s frame frameAlloc pml4VirtAddress =
     map_to_page (say_serial (''identity map '' @ [CHR 0x0A]) s) frame frame frameAlloc pml4VirtAddress"

text \<open>\<open>for (i = 0x1000; i < lowMemoryEnd; i += PAGE_SIZE)\<close>, with the bound of two megabytes.\<close>

function identity_map_loop :: "machine \<Rightarrow> u64 \<Rightarrow> u64 \<Rightarrow> u64 \<Rightarrow> machine" where
  "identity_map_loop s i frameAlloc pml4 =
     (if i < (1024 * 1024) * 2
      then identity_map_loop (snd (identity_map_page s i frameAlloc pml4)) (i + PAGE_SIZE) frameAlloc pml4
      else s)"
  by pat_completeness auto
termination
proof (relation "measure (\<lambda>(s, i, f, p). 2097152 - unat i)", rule wf_measure)
  fix s frameAlloc pml4 and i :: u64
  assume "i < (1024 * 1024) * 2"
  then have "unat i < 2097152" by (simp add: word_less_nat_alt)
  moreover then have "unat (i + PAGE_SIZE) = unat i + 4096" by (simp add: PAGE_SIZE_def unat_add_64)
  ultimately show "((snd (identity_map_page s i frameAlloc pml4), i + PAGE_SIZE, frameAlloc, pml4), s, i, frameAlloc, pml4)
      \<in> measure (\<lambda>(s, i, f, p). 2097152 - unat i)"
    by simp
qed

declare identity_map_loop.simps [simp del]

definition create_kernel_page_tables :: "machine \<Rightarrow> u64 \<Rightarrow> u64 \<times> machine" where
  "create_kernel_page_tables s frameAlloc =
     (let (pml4PhysAddr, s) = create_new_page_table s frameAlloc;
          s = say_serial (''created pml4 '' @ [CHR 0x0A]) s;
          pml4 = phys_to_virt_translation s pml4PhysAddr;
          s = say_serial (''pml4 pointer '' @ [CHR 0x0A]) s
      in (pml4PhysAddr, identity_map_loop s 0x1000 frameAlloc pml4))"

section \<open>Lookup and unmapping\<close>

text \<open>
  The loop of \<open>fetch_page_table_entry\<close> over the four indices: the address of the last entry, or null
  as soon as an entry is not present.
\<close>

fun fetch_loop :: "machine \<Rightarrow> u64 \<Rightarrow> u64 list \<Rightarrow> u64" where
  "fetch_loop s table_address [] = 0"
| "fetch_loop s table_address (index # indices) =
     (let entry = table_address + 8 * index
      in if \<not> is_page_table_present (load64 (mem s) entry) then 0
         else if indices = [] then entry
         else fetch_loop s
           (phys_to_virt_translation s (page_table_phys_address (load64 (mem s) entry))) indices)"

definition fetch_page_table_entry :: "machine \<Rightarrow> u64 \<Rightarrow> u64" where
  "fetch_page_table_entry s addr =
     (let indices = calculate_pt_indices addr
      in fetch_loop s (active_pml4_table s) [pgd indices, pud indices, pmd indices, pt indices])"

definition unmap_page :: "machine \<Rightarrow> u64 \<Rightarrow> u64 \<times> machine" where
  "unmap_page s addr =
     (let entry = fetch_page_table_entry s addr
      in if entry = 0 then (0, s)
         else
           let frameAddr = page_table_phys_address (load64 (mem s) entry)
           in if frameAddr = 0 then (0, s)
              else (0, s\<lparr>mem := store64 (mem s) entry 0\<rparr>))"

definition get_pt_entry_frame :: "u64 \<Rightarrow> u64 \<Rightarrow> u64" where
  "get_pt_entry_frame address entry = 0"

section \<open>The walk and the tables\<close>

text \<open>
  The specification: the walk from the table at \<open>t\<close> along a list of indices gives the frame that the
  last entry names, and \<open>tables\<close> lists the tables below \<open>t\<close> over a number of levels.
\<close>

fun pt_walk :: "memory \<Rightarrow> u64 \<Rightarrow> u64 \<Rightarrow> u64 list \<Rightarrow> u64 option" where
  "pt_walk m off t [] = None"
| "pt_walk m off t (i # is) =
     (let e = load64 m (t + 8 * i)
      in if \<not> is_page_table_present e then None
         else if is = [] then Some (page_table_phys_address e)
         else pt_walk m off (page_table_phys_address e + off) is)"

definition page_path :: "u64 \<Rightarrow> u64 list" where
  "page_path a = (let x = calculate_pt_indices a in [pgd x, pud x, pmd x, pt x])"

primrec tables :: "memory \<Rightarrow> u64 \<Rightarrow> nat \<Rightarrow> u64 \<Rightarrow> u64 list" where
  "tables m off 0 t = []"
| "tables m off (Suc n) t = t # (if n = 0 then [] else concat (map (\<lambda>i.
     let e = load64 m (t + 8 * of_nat i)
     in if is_page_table_present e then tables m off n (page_table_phys_address e + off) else []) [0..<512]))"

text \<open>
  A frame the allocator may hand out as a table: not null, page aligned and below the bit that
  \<open>page_table_phys_address\<close> drops.
\<close>

definition frame_ok :: "u64 \<Rightarrow> bool" where
  "frame_ok f \<longleftrightarrow> f \<noteq> 0 \<and> f AND 0xFFF8000000000FFF = 0"

lemma bit_addr_mask: "bit PAGE_ADDR_MASK k \<longleftrightarrow> 12 \<le> k \<and> k < 52"
proof -
  have e: "PAGE_ADDR_MASK = push_bit 12 (mask 40)"
    by (simp add: PAGE_ADDR_MASK_def mask_eq_exp_minus_1)
  show ?thesis unfolding e by (auto simp: bit_push_bit_iff bit_mask_iff)
qed

lemma bit_phys_address: "bit (page_table_phys_address e) k \<longleftrightarrow> bit e k \<and> 12 \<le> k \<and> k < 51"
proof -
  have e: "(push_bit 12 1 - 1 :: u64) = mask 12" "(push_bit 51 1 - 1 :: u64) = mask 51"
    by (simp_all add: mask_eq_exp_minus_1)
  show ?thesis
    unfolding page_table_phys_address_def e
    by (auto simp: bit_and_iff bit_not_iff bit_mask_iff dest: bit_imp_le_length)
qed

lemma bit_basic_attributes: "bit create_basic_page_attributes k \<longleftrightarrow> k = 0 \<or> k = 1"
proof -
  have e: "create_basic_page_attributes = mask 2"
    by (simp add: create_basic_page_attributes_def PAGE_PRESENT_def PAGE_RW_def mask_eq_exp_minus_1)
  show ?thesis unfolding e by (auto simp: bit_mask_iff)
qed

lemma present_bit: "is_page_table_present e \<longleftrightarrow> bit e 0"
  by (simp add: is_page_table_present_def bit_iff_odd and_one_eq odd_iff_mod_2_eq_one)

lemma created_present: "is_page_table_present ((f AND PAGE_ADDR_MASK) OR create_basic_page_attributes)"
  by (simp add: present_bit bit_or_iff bit_basic_attributes)

lemma zero_not_present [simp]: "\<not> is_page_table_present 0"
  by (simp add: present_bit)

text \<open>What a created entry names: the frame without the bits that neither mask keeps.\<close>

lemma created_phys:
  "page_table_phys_address ((f AND PAGE_ADDR_MASK) OR create_basic_page_attributes) = page_table_phys_address f"
  by (rule bit_word_eqI) (auto simp: bit_phys_address bit_or_iff bit_and_iff bit_addr_mask bit_basic_attributes)

lemma frame_ok_bits:
  assumes "frame_ok f" "bit f k"
  shows "12 \<le> k \<and> k < 51"
proof -
  have e: "(0xFFF8000000000FFF :: u64) = NOT (push_bit 12 (mask 39))"
    by (simp add: mask_eq_exp_minus_1)
  have "\<not> bit (f AND 0xFFF8000000000FFF) k"
    using assms(1) by (simp add: frame_ok_def)
  then show ?thesis
    unfolding e using assms(2) bit_imp_le_length [OF assms(2)]
    by (auto simp: bit_and_iff bit_not_iff bit_push_bit_iff bit_mask_iff)
qed

lemma frame_ok_phys: "frame_ok f \<Longrightarrow> page_table_phys_address f = f"
  by (rule bit_word_eqI) (auto simp: bit_phys_address dest: frame_ok_bits)

section \<open>Ranges of tables\<close>

definition same_on :: "u64 set \<Rightarrow> memory \<Rightarrow> memory \<Rightarrow> bool" where
  "same_on T m m' \<longleftrightarrow> (\<forall>t\<in>T. \<forall>x. unat (x - t) < 4096 \<longrightarrow> m x = m' x)"

lemma same_on_mono: "same_on T m m' \<Longrightarrow> U \<subseteq> T \<Longrightarrow> same_on U m m'"
  by (auto simp: same_on_def)

lemma entry_offset: "i < 512 \<Longrightarrow> unat (8 * of_nat i :: u64) = 8 * i"
  using unat_of_nat_64 [of "8 * i"] by simp

lemma load_entry_same:
  assumes "same_on {t} m m'" "unat i < 512"
  shows "load64 m (t + 8 * i) = load64 m' (t + 8 * i)"
proof (rule load64_local_range [where l = t and n = 4096])
  have "unat (8 * i) = 8 * unat i"
    using assms(2) by (simp add: unat_word_ariths)
  then show "unat (t + 8 * i - t) + 8 \<le> 4096" using assms(2) by simp
qed (use assms(1) in \<open>auto simp: same_on_def\<close>)

lemma load_entry_same_nat:
  assumes "same_on {t} m m'" "i < 512"
  shows "load64 m (t + 8 * of_nat i) = load64 m' (t + 8 * of_nat i)"
  using load_entry_same [OF assms(1), of "of_nat i"] assms(2) unat_of_nat_64 [of i] by simp

text \<open>The sub-tables below entry \<open>i\<close> of a table.\<close>

definition subtables :: "memory \<Rightarrow> u64 \<Rightarrow> nat \<Rightarrow> u64 \<Rightarrow> nat \<Rightarrow> u64 list" where
  "subtables m off n t i =
     (let e = load64 m (t + 8 * of_nat i)
      in if is_page_table_present e then tables m off n (page_table_phys_address e + off) else [])"

lemma tables_Suc: "0 < n \<Longrightarrow> tables m off (Suc n) t = t # concat (map (subtables m off n t) [0..<512])"
  by (simp add: subtables_def [abs_def])

lemma tables_1: "tables m off (Suc 0) t = [t]"
  by simp

declare tables.simps(2) [simp del]

lemma root_in_tables: "t \<in> set (tables m off (Suc n) t)"
  by (simp add: tables.simps)

lemma subtables_subset: "0 < n \<Longrightarrow> i < 512 \<Longrightarrow> set (subtables m off n t i) \<subseteq> set (tables m off (Suc n) t)"
  by (auto simp: tables_Suc)

lemma tables_split:
  assumes "0 < n" "i < 512"
  shows "tables m off (Suc n) t = t # concat (map (subtables m off n t) [0..<i]) @ subtables m off n t i
    @ concat (map (subtables m off n t) [Suc i..<512])"
proof -
  have "[0..<512] = [0..<i] @ [i..<512]"
    using assms(2) upt_add_eq_append [of 0 i "512 - i"] by simp
  also have "[i..<512] = i # [Suc i..<512]"
    using assms(2) by (rule upt_conv_Cons)
  finally show ?thesis using assms(1) by (simp add: tables_Suc)
qed

lemma subtables_cong:
  assumes "load64 m' (t + 8 * of_nat i) = load64 m (t + 8 * of_nat i)"
    and "\<And>u. u = page_table_phys_address (load64 m (t + 8 * of_nat i)) + off \<Longrightarrow>
      set (tables m off n u) \<subseteq> set (subtables m off n t i) \<Longrightarrow> tables m' off n u = tables m off n u"
  shows "subtables m' off n t i = subtables m off n t i"
  using assms
  by (cases "is_page_table_present (load64 m (t + 8 * of_nat i))") (simp_all add: subtables_def Let_def)

lemma tables_same:
  "same_on (set (tables m off n t)) m m' \<Longrightarrow> tables m' off n t = tables m off n t"
proof (induction n arbitrary: t)
  case 0
  then show ?case by simp
next
  case (Suc n)
  show ?case
  proof (cases "n = 0")
    case True
    then show ?thesis by (simp add: tables_1)
  next
    case False
    then have n: "0 < n" by simp
    have "subtables m' off n t i = subtables m off n t i" if "i < 512" for i
    proof (rule subtables_cong)
      show "load64 m' (t + 8 * of_nat i) = load64 m (t + 8 * of_nat i)"
        using Suc.prems root_in_tables [of t m off n] that
        by (intro load_entry_same_nat [symmetric]) (auto elim!: same_on_mono)
    next
      fix u assume "set (tables m off n u) \<subseteq> set (subtables m off n t i)"
      then show "tables m' off n u = tables m off n u"
        using Suc.prems subtables_subset [OF n that, of m off t]
        by (intro Suc.IH) (auto elim!: same_on_mono)
    qed
    then have "map (subtables m' off n t) [0..<512] = map (subtables m off n t) [0..<512]"
      by (intro map_cong) auto
    then show ?thesis by (simp add: tables_Suc [OF n] del: map_eq_conv)
  qed
qed

lemma subtables_same:
  assumes "load64 m' (t + 8 * of_nat i) = load64 m (t + 8 * of_nat i)"
    "same_on (set (subtables m off n t i)) m m'"
  shows "subtables m' off n t i = subtables m off n t i"
  using assms(2) by (intro subtables_cong assms(1) tables_same) (auto elim!: same_on_mono)

lemma walk_same:
  "same_on (set (tables m off (length is) t)) m m' \<Longrightarrow> \<forall>i\<in>set is. unat i < 512 \<Longrightarrow>
    pt_walk m' off t is = pt_walk m off t is"
proof (induction "is" arbitrary: t)
  case Nil
  then show ?case by simp
next
  case (Cons i "is")
  have t: "same_on {t} m m'"
    using Cons.prems(1) root_in_tables [of t m off] by (auto elim!: same_on_mono)
  then have e: "load64 m' (t + 8 * i) = load64 m (t + 8 * i)"
    using load_entry_same Cons.prems(2) by simp
  show ?case
  proof (cases "is = []")
    case True
    then show ?thesis by (simp add: e Let_def)
  next
    case False
    then have "same_on (set (subtables m off (length is) t (unat i))) m m'"
      using Cons.prems subtables_subset [of "length is" "unat i" m off t] by (auto elim!: same_on_mono)
    then show ?thesis
      using Cons False by (auto simp: e Let_def subtables_def)
  qed
qed

section \<open>The invariant\<close>

definition apart_all :: "u64 list \<Rightarrow> bool" where
  "apart_all ts \<longleftrightarrow> distinct ts \<and> (\<forall>a\<in>set ts. \<forall>b\<in>set ts. a \<noteq> b \<longrightarrow> sep a 4096 b 4096)"

definition pt_ok :: "nat \<Rightarrow> memory \<Rightarrow> u64 \<Rightarrow> nat \<Rightarrow> u64 \<Rightarrow> u64 \<Rightarrow> u64 list \<Rightarrow> bool" where
  "pt_ok cap m off n t l fs \<longleftrightarrow>
     frame_list cap m l fs \<and> list_all frame_ok fs
     \<and> apart_all (tables m off n t @ map (\<lambda>f. f + off) fs)
     \<and> (\<forall>a\<in>set (tables m off n t @ map (\<lambda>f. f + off) fs). sep a 4096 l (24 + 8 * cap))"

definition changed_only :: "u64 set \<Rightarrow> nat \<Rightarrow> u64 \<Rightarrow> memory \<Rightarrow> memory \<Rightarrow> bool" where
  "changed_only A cap l m m' \<longleftrightarrow>
     (\<forall>x. (\<forall>a\<in>A. \<not> unat (x - a) < 4096) \<and> \<not> unat (x - l) < 24 + 8 * cap \<longrightarrow> m' x = m x)"

lemma apart_all_mset: "mset ts = mset us \<Longrightarrow> apart_all ts = apart_all us"
  unfolding apart_all_def using mset_eq_imp_distinct_iff mset_eq_setD by metis

lemma apart_all_sub:
  assumes "apart_all ts" "mset us \<subseteq># mset ts"
  shows "apart_all us"
proof -
  obtain vs where "mset ts = mset (us @ vs)"
    using assms(2) by (metis mset_append ex_mset subset_mset.le_iff_add)
  then have "apart_all (us @ vs)" using assms(1) apart_all_mset by metis
  then show ?thesis by (simp add: apart_all_def)
qed

lemma changed_only_mono: "changed_only A cap l m m' \<Longrightarrow> A \<subseteq> B \<Longrightarrow> changed_only B cap l m m'"
  unfolding changed_only_def by blast

lemma changed_only_trans:
  "changed_only A cap l m m' \<Longrightarrow> changed_only A cap l m' m'' \<Longrightarrow> changed_only A cap l m m''"
  unfolding changed_only_def by metis

lemma changed_same:
  assumes "changed_only A cap l m m'" "\<And>t a. t \<in> T \<Longrightarrow> a \<in> A \<Longrightarrow> sep t 4096 a 4096"
    "\<And>t. t \<in> T \<Longrightarrow> sep t 4096 l (24 + 8 * cap)"
  shows "same_on T m m'"
  unfolding same_on_def
proof (intro ballI allI impI)
  fix t x assume "t \<in> T" "unat (x - t) < 4096"
  then have "\<forall>a\<in>A. \<not> unat (x - a) < 4096" "\<not> unat (x - l) < 24 + 8 * cap"
    using assms(2,3) sep_apart by blast+
  then show "m x = m' x" using assms(1) by (simp add: changed_only_def)
qed

lemma zero_table_entry:
  assumes "\<And>x. unat (x - t) < 4096 \<Longrightarrow> m x = 0" "unat i < 512"
  shows "load64 m (t + 8 * i) = 0"
proof -
  have "same_on {t} m (\<lambda>_. 0)" using assms(1) by (simp add: same_on_def)
  from load_entry_same [OF this assms(2)] show ?thesis
    by (simp add: load64_def) (rule bit_word_eqI, simp add: bit_load)
qed

lemma zero_table:
  assumes "\<And>x. unat (x - t) < 4096 \<Longrightarrow> m x = 0"
  shows "0 < n \<Longrightarrow> tables m off n t = [t]"
    and "\<forall>i\<in>set p. unat i < 512 \<Longrightarrow> pt_walk m off t p = None"
proof -
  have "subtables m off k t i = []" if "i < 512" for k i
    using zero_table_entry [where t = t and m = m and i = "of_nat i", OF assms] unat_of_nat_64 [of i] that
    by (simp add: subtables_def)
  then have "concat (map (subtables m off k t) [0..<512]) = []" for k by auto
  then show "tables m off n t = [t]" if "0 < n"
    using that by (cases n; cases "n = 1") (auto simp: tables_1 tables_Suc)
  show "\<forall>i\<in>set p. unat i < 512 \<Longrightarrow> pt_walk m off t p = None"
    using zero_table_entry [where t = t and m = m, OF assms] by (cases p) (auto simp: Let_def)
qed

section \<open>One level\<close>

lemma print_ptr_fields [simp]:
  "mem (print_ptr_address s a) = mem s" "cr3 (print_ptr_address s a) = cr3 s"
  "PHYSICAL_ADDRESS_OFFSET (print_ptr_address s a) = PHYSICAL_ADDRESS_OFFSET s"
  "KHEAPSTART (print_ptr_address s a) = KHEAPSTART s" "K_HEAP_END (print_ptr_address s a) = K_HEAP_END s"
  "kheap_spinlock (print_ptr_address s a) = kheap_spinlock s"
  "vmm_frameAlloc (print_ptr_address s a) = vmm_frameAlloc s"
  by (simp_all add: print_ptr_address_def)

text \<open>The fields that the page-table code never writes.\<close>

definition same_regs :: "machine \<Rightarrow> machine \<Rightarrow> bool" where
  "same_regs s s' \<longleftrightarrow> cr3 s' = cr3 s \<and> PHYSICAL_ADDRESS_OFFSET s' = PHYSICAL_ADDRESS_OFFSET s
     \<and> KHEAPSTART s' = KHEAPSTART s \<and> K_HEAP_END s' = K_HEAP_END s
     \<and> kheap_spinlock s' = kheap_spinlock s \<and> vmm_frameAlloc s' = vmm_frameAlloc s"

lemma same_regs_refl [simp]: "same_regs s s"
  by (simp add: same_regs_def)

lemma same_regs_trans: "same_regs s s' \<Longrightarrow> same_regs s' s'' \<Longrightarrow> same_regs s s''"
  by (simp add: same_regs_def)

lemma create_none:
  assumes "frame_list cap (mem s) l []"
  shows "fst (create_new_page_table s l) = 0 \<and> same_regs s (snd (create_new_page_table s l))
    \<and> changed_only {} cap l (mem s) (mem (snd (create_new_page_table s l)))"
  using ffl.pop_empty [OF assms] ffl.pop_outside [of _ l cap "mem s"]
  by (auto simp: create_new_page_table_def split_beta Let_def same_regs_def changed_only_def)

lemma create_some:
  assumes fl: "frame_list cap (mem s) l (f # fs)" and f: "f \<noteq> 0"
    and ap: "sep (f + PHYSICAL_ADDRESS_OFFSET s) 4096 l (24 + 8 * cap)"
  shows "\<exists>s'. create_new_page_table s l = (f, s') \<and> same_regs s s' \<and> frame_list cap (mem s') l fs
    \<and> changed_only {f + PHYSICAL_ADDRESS_OFFSET s} cap l (mem s) (mem s')
    \<and> (\<forall>x. unat (x - (f + PHYSICAL_ADDRESS_OFFSET s)) < 4096 \<longrightarrow> mem s' x = 0)"
proof -
  let ?v = "f + PHYSICAL_ADDRESS_OFFSET s"
  let ?m1 = "snd (pop_frame_list (mem s) l)"
  let ?m2 = "filled ?m1 ?v 0 4096"
  have pop: "fst (pop_frame_list (mem s) l) = f" "frame_list cap ?m1 l fs"
    using ffl.pop_rep [OF fl] by auto
  have "store64 ?m2 (?v + 8) 0 = ?m2"
  proof
    fix x
    have e: "x - ?v = x - (?v + 8) + 8" by simp
    have "unat (x - ?v) < 4096" if "unat (x - (?v + 8)) < 8"
      unfolding e using that by (subst unat_add_64) simp_all
    then show "store64 ?m2 (?v + 8) 0 x = ?m2 x"
      by (simp add: store64_def store_def filled_def)
  qed
  then have "create_new_page_table s l = (f, (print_ptr_address (say_serial (''created page table '' @ [CHR 0x0A])
      (print_ptr_address (s\<lparr>mem := ?m1\<rparr>) f)) ?v)\<lparr>mem := ?m2\<rparr>)"
    using pop(1) f by (simp add: create_new_page_table_def split_beta Let_def phys_to_virt_translation_def memset_filled)
  moreover have "frame_list cap ?m2 l fs"
    by (rule ffl.rep_apart [OF pop(2) ap]) (simp add: filled_def)
  moreover have "changed_only {?v} cap l (mem s) ?m2"
    using ffl.pop_outside [of _ l cap "mem s"] by (auto simp: changed_only_def filled_def)
  ultimately show ?thesis
    by (auto simp: same_regs_def filled_def)
qed

section \<open>Changing what lies below one entry\<close>

text \<open>
  A change of memory that keeps the other entries of a table and what lies below them: the tables below
  the root are exchanged for the new ones below that entry, and the walks through the others stay.
\<close>

lemma graft_tables:
  assumes n: "0 < n" "i < 512"
    and loads: "\<And>j. j < 512 \<Longrightarrow> j \<noteq> i \<Longrightarrow> load64 m' (t + 8 * of_nat j) = load64 m (t + 8 * of_nat j)"
    and same: "\<And>j. j < 512 \<Longrightarrow> j \<noteq> i \<Longrightarrow> same_on (set (subtables m off n t j)) m m'"
  shows "mset (tables m' off (Suc n) t) + mset (subtables m off n t i)
    = mset (tables m off (Suc n) t) + mset (subtables m' off n t i)"
proof -
  have "subtables m' off n t j = subtables m off n t j" if "j < 512" "j \<noteq> i" for j
    using that by (intro subtables_same loads same)
  then have "map (subtables m' off n t) [0..<i] = map (subtables m off n t) [0..<i]"
    "map (subtables m' off n t) [Suc i..<512] = map (subtables m off n t) [Suc i..<512]"
    using n(2) by auto
  then show ?thesis
    unfolding tables_split [OF n] by (simp del: map_eq_conv)
qed

lemma graft_walk:
  assumes load: "load64 m' (t + 8 * j) = load64 m (t + 8 * j)"
    and same: "same_on (set (subtables m off (length q) t (unat j))) m m'"
    and "\<forall>i\<in>set (j # q). unat i < 512"
  shows "pt_walk m' off t (j # q) = pt_walk m off t (j # q)"
  using assms walk_same [of m off q "page_table_phys_address (load64 m (t + 8 * j)) + off" m']
  by (cases "is_page_table_present (load64 m (t + 8 * j))") (simp_all add: Let_def subtables_def)

lemma entry_sep:
  assumes "unat i < 512" "unat j < 512" "i \<noteq> j"
  shows "sep (t + 8 * i) 8 (t + 8 * (j :: u64)) 8"
proof -
  have u: "unat (8 * k) = 8 * unat k" if "unat k < 512" for k :: u64
    using that by (simp add: unat_word_ariths)
  have "unat i \<noteq> unat j" using assms(3) word_eq_unatI by blast
  then show ?thesis
    using u [OF assms(1)] u [OF assms(2)] assms
    by (auto simp: sep_simps unat_diff_if_64)
qed

lemma entry_inside:
  fixes i :: u64
  assumes "unat i < 512" "unat (x - (t + 8 * i)) < 8"
  shows "unat (x - t) < 4096"
proof -
  have e: "x - t = (x - (t + 8 * i)) + 8 * i" by simp
  have "unat (8 * i) = 8 * unat i" using assms(1) by (simp add: unat_word_ariths)
  then show ?thesis unfolding e using assms by (subst unat_add_64) simp_all
qed

lemma store_entry_outside: "unat i < 512 \<Longrightarrow> \<not> unat (x - t) < 4096 \<Longrightarrow> store64 m (t + 8 * i) e x = m x"
  using entry_inside [of i x t] by (intro c64.put_local) blast

lemma store_entry_same_on:
  assumes "unat i < 512" "\<And>u. u \<in> U \<Longrightarrow> sep u 4096 t 4096"
  shows "same_on U m (store64 m (t + 8 * i) e)"
  unfolding same_on_def using assms sep_apart store_entry_outside by metis

section \<open>Steps of the page-table code\<close>

definition phys_frames :: "u64 \<Rightarrow> u64 list \<Rightarrow> u64 list" where
  "phys_frames off fs = map (\<lambda>f. f + off) fs"

lemma phys_frames_simps [simp]:
  "phys_frames off [] = []" "phys_frames off (f # fs) = (f + off) # phys_frames off fs"
  by (simp_all add: phys_frames_def)

text \<open>
  \<open>pt_step\<close>: from \<open>s\<close> with free frames \<open>fs\<close> to \<open>s'\<close> with \<open>fs'\<close>, the invariant holds again, tables and
  free frames together are the same memory, and nothing else has changed. \<open>same_walks\<close>: no translation
  has changed.
\<close>

definition pt_step :: "nat \<Rightarrow> u64 \<Rightarrow> nat \<Rightarrow> u64 \<Rightarrow> machine \<Rightarrow> u64 list \<Rightarrow> machine \<Rightarrow> u64 list \<Rightarrow> bool" where
  "pt_step cap l n t s fs s' fs' \<longleftrightarrow>
     (let off = PHYSICAL_ADDRESS_OFFSET s in
     pt_ok cap (mem s') off n t l fs'
     \<and> mset (tables (mem s') off n t @ phys_frames off fs') = mset (tables (mem s) off n t @ phys_frames off fs)
     \<and> changed_only (set (tables (mem s) off n t @ phys_frames off fs)) cap l (mem s) (mem s')
     \<and> same_regs s s')"

definition index_path :: "nat \<Rightarrow> u64 list \<Rightarrow> bool" where
  "index_path n p \<longleftrightarrow> length p = n \<and> (\<forall>i\<in>set p. unat i < 512)"

definition same_walks :: "nat \<Rightarrow> u64 \<Rightarrow> u64 \<Rightarrow> memory \<Rightarrow> memory \<Rightarrow> bool" where
  "same_walks n off t m m' \<longleftrightarrow> (\<forall>p. index_path n p \<longrightarrow> pt_walk m' off t p = pt_walk m off t p)"

lemma pt_ok_iff:
  "pt_ok cap m off n t l fs \<longleftrightarrow>
     frame_list cap m l fs \<and> list_all frame_ok fs \<and> apart_all (tables m off n t @ phys_frames off fs)
     \<and> (\<forall>a\<in>set (tables m off n t @ phys_frames off fs). sep a 4096 l (24 + 8 * cap))"
  by (simp add: pt_ok_def phys_frames_def)

lemma pt_ok_conserve:
  assumes "pt_ok cap m off n t l fs" "frame_list cap m' l fs'" "list_all frame_ok fs'"
    "mset (tables m' off k u @ phys_frames off fs') \<subseteq># mset (tables m off n t @ phys_frames off fs)"
  shows "pt_ok cap m' off k u l fs'"
proof -
  have "set (tables m' off k u @ phys_frames off fs') \<subseteq> set (tables m off n t @ phys_frames off fs)"
    using set_mset_mono [OF assms(4)] by (simp only: set_mset_mset)
  then show ?thesis
    using assms apart_all_sub [OF _ assms(4)] unfolding pt_ok_iff by blast
qed

text \<open>What lies below another entry is apart from the root, from what lies below this one and from the free frames.\<close>

lemma pt_ok_others:
  assumes ok: "pt_ok cap m off (Suc n) t l fs" and n: "0 < n" "i < 512" "j < 512" "j \<noteq> i"
    and a: "a \<in> set (subtables m off n t j)"
    and b: "b \<in> set (t # subtables m off n t i @ phys_frames off fs)"
  shows "sep a 4096 b 4096"
proof -
  let ?o = "concat (map (subtables m off n t) [0..<i]) @ concat (map (subtables m off n t) [Suc i..<512])"
  have "apart_all (tables m off (Suc n) t @ phys_frames off fs)" using ok by (simp add: pt_ok_iff)
  moreover have "mset (tables m off (Suc n) t @ phys_frames off fs)
      = mset (?o @ t # subtables m off n t i @ phys_frames off fs)"
    unfolding tables_split [OF n(1,2)] by simp
  ultimately have ap: "apart_all (?o @ t # subtables m off n t i @ phys_frames off fs)"
    using apart_all_mset by blast
  have ao: "a \<in> set ?o"
    using a n(3,4) by (cases "j < i") (auto intro!: bexI [of _ j])
  have "distinct (?o @ t # subtables m off n t i @ phys_frames off fs)"
    using ap unfolding apart_all_def by blast
  then have "a \<noteq> b"
    using ao b by (subst (asm) distinct_append) blast
  moreover have "a \<in> set (?o @ t # subtables m off n t i @ phys_frames off fs)"
    "b \<in> set (?o @ t # subtables m off n t i @ phys_frames off fs)"
    using ao b by (simp_all only: set_append Un_iff) blast+
  ultimately show ?thesis using ap unfolding apart_all_def by blast
qed

lemma pt_ok_root:
  assumes ok: "pt_ok cap m off (Suc n) t l fs" and n: "0 < n" "i < 512"
    and b: "b \<in> set (subtables m off n t i @ phys_frames off fs)"
  shows "sep t 4096 b 4096"
proof -
  let ?ts = "tables m off (Suc n) t @ phys_frames off fs"
  have ap: "apart_all ?ts" using ok by (simp add: pt_ok_iff)
  have bs: "b \<in> set ?ts" "t \<in> set ?ts" "b \<in> set (tl ?ts)" "hd ?ts = t" "?ts \<noteq> []"
    using b unfolding tables_split [OF n] by auto
  have "distinct (hd ?ts # tl ?ts)" using ap bs(5) by (simp add: apart_all_def)
  then have "t \<noteq> b" using bs(3,4) by auto
  then show ?thesis using ap bs(1,2) unfolding apart_all_def by blast
qed

lemma pt_ok_apart_list:
  "pt_ok cap m off n t l fs \<Longrightarrow> a \<in> set (tables m off n t @ phys_frames off fs) \<Longrightarrow> sep a 4096 l (24 + 8 * cap)"
  by (simp add: pt_ok_iff)

section \<open>One level of the mapping\<close>

lemma map_level_present:
  assumes "is_page_table_present (load64 (mem s) (t + 8 * i))"
  shows "map_level s t i l msg
    = (Some (page_table_phys_address (load64 (mem s) (t + 8 * i)) + PHYSICAL_ADDRESS_OFFSET s), s)"
  using assms by (simp add: map_level_def phys_to_virt_translation_def)

lemma map_level_exhausted:
  assumes "\<not> is_page_table_present (load64 (mem s) (t + 8 * i))" "frame_list cap (mem s) l []"
  shows "\<exists>s'. map_level s t i l msg = (None, s') \<and> same_regs s s' \<and> changed_only {} cap l (mem s) (mem s')"
  using assms(1) create_none [OF assms(2)]
  by (auto simp: map_level_def split_beta same_regs_def)

text \<open>A level that is missing is created: a zeroed frame below entry \<open>i\<close>, everything else as it was.\<close>

lemma map_level_creates:
  assumes ok: "pt_ok cap (mem s) (PHYSICAL_ADDRESS_OFFSET s) (Suc n) t l (f # fs)" and n: "0 < n" and i: "unat i < 512"
    and absent: "\<not> is_page_table_present (load64 (mem s) (t + 8 * i))"
  defines "v \<equiv> f + PHYSICAL_ADDRESS_OFFSET s"
  shows "\<exists>s'. map_level s t i l msg = (Some v, s') \<and> same_regs s s' \<and> frame_list cap (mem s') l fs
    \<and> changed_only {t, v} cap l (mem s) (mem s')
    \<and> (\<forall>x. unat (x - v) < 4096 \<longrightarrow> mem s' x = 0)
    \<and> is_page_table_present (load64 (mem s') (t + 8 * i))
    \<and> page_table_phys_address (load64 (mem s') (t + 8 * i)) = f
    \<and> (\<forall>j. unat j < 512 \<and> j \<noteq> i \<longrightarrow> load64 (mem s') (t + 8 * j) = load64 (mem s) (t + 8 * j))"
proof -
  have fl: "frame_list cap (mem s) l (f # fs)" and f: "frame_ok f"
    using ok by (auto simp: pt_ok_iff)
  have v: "v \<in> set (phys_frames (PHYSICAL_ADDRESS_OFFSET s) (f # fs))" by (simp add: v_def)
  have vl: "sep v 4096 l (24 + 8 * cap)" and tl: "sep t 4096 l (24 + 8 * cap)"
    using v root_in_tables by (auto intro!: pt_ok_apart_list [OF ok])
  have tv: "sep t 4096 v 4096"
    using v by (intro pt_ok_root [OF ok n i]) auto
  obtain s1 where c: "create_new_page_table s l = (f, s1)" "same_regs s s1" "frame_list cap (mem s1) l fs"
      "changed_only {v} cap l (mem s) (mem s1)" and z: "\<And>x. unat (x - v) < 4096 \<Longrightarrow> mem s1 x = 0"
    using create_some [OF fl _ vl [unfolded v_def]] f unfolding v_def frame_ok_def by blast
  define m2 where "m2 = store64 (mem s1) (t + 8 * i) ((f AND PAGE_ADDR_MASK) OR create_basic_page_attributes)"
  have "map_level s t i l msg = (Some v, s1\<lparr>mem := m2\<rparr>)"
    using absent c(1,2) f by (simp add: map_level_def phys_to_virt_translation_def frame_ok_def v_def m2_def same_regs_def)
  moreover have "frame_list cap m2 l fs"
    using store_entry_outside [OF i] by (intro ffl.rep_apart [OF c(3) tl]) (simp add: m2_def)
  moreover have "changed_only {t, v} cap l (mem s) m2"
    using c(4) store_entry_outside [OF i] by (auto simp: changed_only_def m2_def)
  moreover have "m2 x = 0" if "unat (x - v) < 4096" for x
    using z [OF that] sep_apart [OF tv [unfolded sep_sym [of t]] that] store_entry_outside [OF i]
    by (simp add: m2_def)
  moreover have "load64 m2 (t + 8 * j) = load64 (mem s) (t + 8 * j)" if "unat j < 512" "j \<noteq> i" for j
  proof -
    have "same_on {t} (mem s) (mem s1)"
      using tv tl by (intro changed_same [OF c(4)]) auto
    then show ?thesis
      using load_entry_same [of t "mem s" "mem s1" j] entry_sep [OF that(1) i that(2)] that
      by (simp add: m2_def mem_simps)
  qed
  ultimately show ?thesis
    using c(2) frame_ok_phys [OF f]
    by (intro exI [of _ "s1\<lparr>mem := m2\<rparr>"]) (auto simp: same_regs_def m2_def mem_simps created_present created_phys)
qed

text \<open>The contract of one level: on success the invariant, the translations and the frames are kept.\<close>

lemma map_level_ok:
  assumes ok: "pt_ok cap (mem s) (PHYSICAL_ADDRESS_OFFSET s) (Suc n) t l fs" and n: "0 < n" and i: "unat i < 512"
    and go: "is_page_table_present (load64 (mem s) (t + 8 * i)) \<or> fs \<noteq> []"
  shows "\<exists>s' fs'. map_level s t i l msg
      = (Some (page_table_phys_address (load64 (mem s') (t + 8 * i)) + PHYSICAL_ADDRESS_OFFSET s), s')
    \<and> is_page_table_present (load64 (mem s') (t + 8 * i))
    \<and> pt_step cap l (Suc n) t s fs s' fs' \<and> length fs \<le> Suc (length fs')
    \<and> same_walks (Suc n) (PHYSICAL_ADDRESS_OFFSET s) t (mem s) (mem s')"
proof (cases "is_page_table_present (load64 (mem s) (t + 8 * i))")
  case True
  then show ?thesis
    using ok by (intro exI [of _ s] exI [of _ fs])
      (auto simp: map_level_present pt_step_def same_walks_def changed_only_def)
next
  case False
  then obtain f fs1 where fs: "fs = f # fs1" using go by (cases fs) auto
  define off where "off = PHYSICAL_ADDRESS_OFFSET s"
  have ok': "pt_ok cap (mem s) off (Suc n) t l (f # fs1)" using ok fs by (simp add: off_def)
  obtain s' where s': "map_level s t i l msg = (Some (f + off), s')" "same_regs s s'"
      "frame_list cap (mem s') l fs1" "changed_only {t, f + off} cap l (mem s) (mem s')"
    and z: "\<And>x. unat (x - (f + off)) < 4096 \<Longrightarrow> mem s' x = 0"
    and e: "is_page_table_present (load64 (mem s') (t + 8 * i))"
      "page_table_phys_address (load64 (mem s') (t + 8 * i)) = f"
    and other: "\<And>j. unat j < 512 \<Longrightarrow> j \<noteq> i \<Longrightarrow> load64 (mem s') (t + 8 * j) = load64 (mem s) (t + 8 * j)"
    using map_level_creates [OF ok' [unfolded off_def] n i False, of msg] unfolding off_def by blast
  have same: "same_on (set (subtables (mem s) off n t j)) (mem s) (mem s')" if "j < 512" "j \<noteq> unat i" for j
  proof (rule changed_same [OF s'(4)])
    fix a assume a: "a \<in> set (subtables (mem s) off n t j)"
    show "sep a 4096 b 4096" if "b \<in> {t, f + off}" for b
      using pt_ok_others [OF ok' n i \<open>j < 512\<close> \<open>j \<noteq> unat i\<close> a] that by auto
    show "sep a 4096 l (24 + 8 * cap)"
      using a subtables_subset [OF n \<open>j < 512\<close>] by (intro pt_ok_apart_list [OF ok']) auto
  qed
  have sub: "subtables (mem s) off n t (unat i) = []" "subtables (mem s') off n t (unat i) = [f + off]"
    using False e zero_table(1) [OF z n] by (simp_all add: subtables_def)
  have "mset (tables (mem s') off (Suc n) t) + mset (subtables (mem s) off n t (unat i))
      = mset (tables (mem s) off (Suc n) t) + mset (subtables (mem s') off n t (unat i))"
  proof (rule graft_tables [OF n i _ same])
    fix j assume "j < 512" "j \<noteq> unat i"
    moreover then have "of_nat j \<noteq> i" using unat_of_nat_64 [of j] by auto
    ultimately show "load64 (mem s') (t + 8 * of_nat j) = load64 (mem s) (t + 8 * of_nat j)"
      using other [of "of_nat j"] unat_of_nat_64 [of j] by auto
  qed
  then have ms: "mset (tables (mem s') off (Suc n) t @ phys_frames off fs1)
      = mset (tables (mem s) off (Suc n) t @ phys_frames off fs)"
    by (simp add: sub fs)
  have "pt_ok cap (mem s') off (Suc n) t l fs1"
    using ok ms s'(3) by (intro pt_ok_conserve [OF ok [folded off_def]]) (auto simp: fs pt_ok_iff)
  moreover have "changed_only (set (tables (mem s) off (Suc n) t @ phys_frames off fs)) cap l (mem s) (mem s')"
    using root_in_tables [of t] by (intro changed_only_mono [OF s'(4)]) (auto simp: fs)
  moreover have "same_walks (Suc n) off t (mem s) (mem s')"
    unfolding same_walks_def
  proof (intro allI impI)
    fix p assume p: "index_path (Suc n) p"
    then obtain j q where jq: "p = j # q" "length q = n" "unat j < 512" "\<forall>i\<in>set q. unat i < 512"
      by (cases p) (auto simp: index_path_def)
    show "pt_walk (mem s') off t p = pt_walk (mem s) off t p"
    proof (cases "j = i")
      case True
      then show ?thesis
        using jq n e False zero_table(2) [where t = "f + off" and m = "mem s'" and p = q, OF z]
        by (auto simp: Let_def)
    next
      case False
      then show ?thesis
        unfolding jq(1) using jq other [of j] same [of "unat j"] word_eq_unatI [of j i]
        by (intro graft_walk) auto
    qed
  qed
  ultimately show ?thesis
    using s'(1,2) e ms fs unfolding pt_step_def off_def [symmetric]
    by (intro exI [of _ s'] exI [of _ fs1]) (simp add: Let_def)
qed

section \<open>The whole path\<close>

text \<open>A change below entry \<open>i\<close>, seen from the table that holds the entry.\<close>

lemma below_entry:
  assumes ok: "pt_ok cap m off (Suc n) t l fs" and n: "0 < n" and i: "unat i < 512"
    and e: "is_page_table_present (load64 m (t + 8 * i))"
      "u = page_table_phys_address (load64 m (t + 8 * i)) + off"
    and ch: "changed_only (set (tables m off n u @ phys_frames off fs)) cap l m m'"
  shows "mset (tables m' off (Suc n) t) + mset (tables m off n u)
      = mset (tables m off (Suc n) t) + mset (tables m' off n u)"
    and "changed_only (set (tables m off (Suc n) t @ phys_frames off fs)) cap l m m'"
    and "index_path (Suc n) (j # q) \<Longrightarrow>
      pt_walk m' off t (j # q) = (if j = i then pt_walk m' off u q else pt_walk m off t (j # q))"
    and "index_path n q \<Longrightarrow> pt_walk m off t (i # q) = pt_walk m off u q"
proof -
  have sub: "subtables m off n t (unat i) = tables m off n u"
    using e by (simp add: subtables_def)
  have "same_on {t} m m'"
    using ok root_in_tables [of t m off n]
    by (intro changed_same [OF ch]) (auto intro!: pt_ok_root [OF ok n i] pt_ok_apart_list [OF ok] simp: sub)
  then have loads: "load64 m' (t + 8 * j) = load64 m (t + 8 * j)" if "unat j < 512" for j
    using load_entry_same that by simp
  then have loads_nat: "load64 m' (t + 8 * of_nat j) = load64 m (t + 8 * of_nat j)" if "j < 512" for j
    using that unat_of_nat_64 [of j] by simp
  have same: "same_on (set (subtables m off n t j)) m m'" if "j < 512" "j \<noteq> unat i" for j
  proof (rule changed_same [OF ch])
    fix a assume a: "a \<in> set (subtables m off n t j)"
    show "sep a 4096 b 4096" if "b \<in> set (tables m off n u @ phys_frames off fs)" for b
      using that by (intro pt_ok_others [OF ok n i \<open>j < 512\<close> \<open>j \<noteq> unat i\<close> a]) (auto simp: sub)
    show "sep a 4096 l (24 + 8 * cap)"
      using a subtables_subset [OF n \<open>j < 512\<close>] by (intro pt_ok_apart_list [OF ok]) auto
  qed
  have "subtables m' off n t (unat i) = tables m' off n u"
    using e loads [OF i] by (simp add: subtables_def)
  then show "mset (tables m' off (Suc n) t) + mset (tables m off n u)
      = mset (tables m off (Suc n) t) + mset (tables m' off n u)"
    using graft_tables [OF n i loads_nat same] by (simp add: sub)
  show "changed_only (set (tables m off (Suc n) t @ phys_frames off fs)) cap l m m'"
    using subtables_subset [OF n i, of m off t] by (intro changed_only_mono [OF ch]) (auto simp: sub)
  show "pt_walk m' off t (j # q) = (if j = i then pt_walk m' off u q else pt_walk m off t (j # q))"
    if "index_path (Suc n) (j # q)"
  proof (cases "j = i")
    case True
    then show ?thesis using that e loads [OF i] n by (auto simp: Let_def index_path_def)
  next
    case False
    then have "pt_walk m' off t (j # q) = pt_walk m off t (j # q)"
      using that loads [of j] same [of "unat j"] word_eq_unatI [of j i]
      by (intro graft_walk) (auto simp: index_path_def)
    then show ?thesis using False by simp
  qed
  show "pt_walk m off t (i # q) = pt_walk m off u q" if "index_path n q"
    using that e n by (auto simp: Let_def index_path_def)
qed

lemma pt_ok_child:
  assumes ok: "pt_ok cap m off (Suc n) t l fs" and n: "0 < n" and i: "unat i < 512"
    and e: "is_page_table_present (load64 m (t + 8 * i))"
      "u = page_table_phys_address (load64 m (t + 8 * i)) + off"
  shows "pt_ok cap m off n u l fs"
proof -
  have "subtables m off n t (unat i) = tables m off n u"
    using e by (simp add: subtables_def)
  then have "mset (tables m off n u @ phys_frames off fs) \<subseteq># mset (tables m off (Suc n) t @ phys_frames off fs)"
    unfolding tables_split [OF n i] by simp
  then show ?thesis using ok by (intro pt_ok_conserve [OF ok]) (auto simp: pt_ok_iff)
qed

text \<open>
  The three levels of \<open>map_to_page\<close> and its final store as one recursion over the indices, each with the
  message of its level.
\<close>

fun map_path :: "machine \<Rightarrow> u64 \<Rightarrow> (u64 \<times> string) list \<Rightarrow> u64 \<Rightarrow> u64 \<Rightarrow> u64 \<Rightarrow> bool \<times> machine" where
  "map_path s t [] k frame l = (True, s\<lparr>mem := store64 (mem s) (t + 8 * k)
     ((frame AND PAGE_ADDR_MASK) OR create_basic_page_attributes)\<rparr>)"
| "map_path s t ((i, msg) # is) k frame l = (case map_level s t i l msg of
     (None, s) \<Rightarrow> (False, s) | (Some t, s) \<Rightarrow> map_path s t is k frame l)"

lemma map_to_page_path:
  assumes "t = (if pml4 = 0 then cr3 s + PHYSICAL_ADDRESS_OFFSET s else pml4)" "t \<noteq> 0"
  shows "map_to_page s a frame l pml4 = (case map_path s t
      [(pgd (calculate_pt_indices a), ''Can't allocate new PUD page table''),
       (pud (calculate_pt_indices a), ''Can't allocate new PMD page table''),
       (pmd (calculate_pt_indices a), ''Couldn't Allocate new PT.'')] (pt (calculate_pt_indices a)) frame l of
      (done, s') \<Rightarrow> (if done then a else 0, s'))"
proof -
  have t: "(if pml4 = 0 then phys_to_virt_translation s (cr3 s) else pml4) = t"
    using assms(1) by (simp add: phys_to_virt_translation_def)
  obtain r1 s1 where 1: "map_level s t (drop_bit 39 a AND 0x1ff) l ''Can't allocate new PUD page table'' = (r1, s1)"
    by fastforce
  obtain r2 s2 where 2: "map_level s1 (the r1) (drop_bit 30 a AND 0x1ff) l ''Can't allocate new PMD page table'' = (r2, s2)"
    by fastforce
  obtain r3 s3 where 3: "map_level s2 (the r2) (drop_bit 21 a AND 0x1ff) l ''Couldn't Allocate new PT.'' = (r3, s3)"
    by fastforce
  show ?thesis
    unfolding map_to_page_def calculate_pt_indices_def Let_def t using assms(2) 1 2 3
    by (cases r1; cases r2; cases r3) simp_all
qed

lemma store_leaf:
  fixes v :: u64
  assumes ok: "pt_ok cap (mem s) (PHYSICAL_ADDRESS_OFFSET s) (Suc 0) t l fs" and k: "unat k < 512"
  defines "s' \<equiv> s\<lparr>mem := store64 (mem s) (t + 8 * k) v\<rparr>"
  shows "pt_step cap l (Suc 0) t s fs s' fs"
    and "index_path (Suc 0) p \<Longrightarrow> pt_walk (mem s') (PHYSICAL_ADDRESS_OFFSET s) t p
      = (if p = [k] then if is_page_table_present v then Some (page_table_phys_address v) else None
         else pt_walk (mem s) (PHYSICAL_ADDRESS_OFFSET s) t p)"
proof -
  have ts: "tables m off (Suc 0) t = [t]" for m off by (simp add: tables_1)
  have "sep t 4096 l (24 + 8 * cap)"
    using pt_ok_apart_list [OF ok, of t] by (simp add: ts)
  moreover have "frame_list cap (mem s) l fs" using ok by (simp add: pt_ok_iff)
  ultimately have "frame_list cap (mem s') l fs"
    using store_entry_outside [OF k] by (auto intro: ffl.rep_apart simp: s'_def)
  moreover have "changed_only {t} cap l (mem s) (mem s')"
    using store_entry_outside [OF k] by (simp add: changed_only_def s'_def)
  then have "changed_only (set (t # phys_frames (PHYSICAL_ADDRESS_OFFSET s) fs)) cap l (mem s) (mem s')"
    by (rule changed_only_mono) simp
  ultimately show "pt_step cap l (Suc 0) t s fs s' fs"
    using ok by (simp add: pt_step_def ts pt_ok_iff same_regs_def s'_def)
  show "pt_walk (mem s') (PHYSICAL_ADDRESS_OFFSET s) t p
      = (if p = [k] then if is_page_table_present v then Some (page_table_phys_address v) else None
         else pt_walk (mem s) (PHYSICAL_ADDRESS_OFFSET s) t p)"
    if ip: "index_path (Suc 0) p"
  proof -
    from ip obtain j where j: "p = [j]" "unat j < 512" by (auto simp: index_path_def length_Suc_conv)
    show ?thesis
      using entry_sep [OF j(2) k, of t] unfolding j(1)
      by (cases "j = k") (simp_all add: s'_def mem_simps Let_def)
  qed
qed

lemma pt_step_trans:
  assumes "pt_step cap l n t s fs s1 fs1" "pt_step cap l n t s1 fs1 s2 fs2"
  shows "pt_step cap l n t s fs s2 fs2"
proof -
  have eq: "PHYSICAL_ADDRESS_OFFSET s1 = PHYSICAL_ADDRESS_OFFSET s"
    using assms(1) by (simp add: pt_step_def same_regs_def Let_def)
  let ?A = "\<lambda>s fs. set (tables (mem s) (PHYSICAL_ADDRESS_OFFSET s) n t @ phys_frames (PHYSICAL_ADDRESS_OFFSET s) fs)"
  have ms: "mset (tables (mem s1) (PHYSICAL_ADDRESS_OFFSET s) n t @ phys_frames (PHYSICAL_ADDRESS_OFFSET s) fs1)
      = mset (tables (mem s) (PHYSICAL_ADDRESS_OFFSET s) n t @ phys_frames (PHYSICAL_ADDRESS_OFFSET s) fs)"
    using assms(1) by (simp add: pt_step_def Let_def)
  then have "?A s1 fs1 = ?A s fs" using mset_eq_setD eq by metis
  then have "changed_only (?A s fs) cap l (mem s) (mem s2)"
    using assms changed_only_trans unfolding pt_step_def Let_def by metis
  then show ?thesis
    using assms ms same_regs_trans unfolding pt_step_def Let_def eq by metis
qed

lemma pt_step_below:
  assumes ok: "pt_ok cap (mem s) (PHYSICAL_ADDRESS_OFFSET s) (Suc n) t l fs" and n: "0 < n" and i: "unat i < 512"
    and e: "is_page_table_present (load64 (mem s) (t + 8 * i))"
      "u = page_table_phys_address (load64 (mem s) (t + 8 * i)) + PHYSICAL_ADDRESS_OFFSET s"
    and st: "pt_step cap l n u s fs s' fs'"
  shows "pt_step cap l (Suc n) t s fs s' fs'"
proof -
  let ?o = "PHYSICAL_ADDRESS_OFFSET s"
  have ch: "changed_only (set (tables (mem s) ?o n u @ phys_frames ?o fs)) cap l (mem s) (mem s')"
    and ok': "pt_ok cap (mem s') ?o n u l fs'" and regs: "same_regs s s'"
    and ms: "mset (tables (mem s') ?o n u @ phys_frames ?o fs') = mset (tables (mem s) ?o n u @ phys_frames ?o fs)"
    using st by (simp_all add: pt_step_def Let_def)
  note below = below_entry(1,2) [OF ok n i e ch]
  have "mset (tables (mem s') ?o (Suc n) t @ phys_frames ?o fs') + mset (tables (mem s) ?o n u)
      = mset (tables (mem s) ?o (Suc n) t) + mset (tables (mem s') ?o n u @ phys_frames ?o fs')"
    using below(1) by (simp add: union_assoc union_commute union_lcomm)
  also have "\<dots> = mset (tables (mem s) ?o (Suc n) t @ phys_frames ?o fs) + mset (tables (mem s) ?o n u)"
    unfolding ms by (simp add: union_assoc union_commute union_lcomm)
  finally have ms': "mset (tables (mem s') ?o (Suc n) t @ phys_frames ?o fs')
      = mset (tables (mem s) ?o (Suc n) t @ phys_frames ?o fs)"
    by (rule add_right_imp_eq)
  moreover have "pt_ok cap (mem s') ?o (Suc n) t l fs'"
    using ok' ms' by (intro pt_ok_conserve [OF ok]) (simp_all add: pt_ok_iff)
  ultimately show ?thesis
    using below(2) regs by (simp add: pt_step_def Let_def)
qed

text \<open>What \<open>map_path\<close> achieves: \<open>mapped\<close> on success, \<open>unmapped\<close> when the frames run out.\<close>

definition mapped :: "nat \<Rightarrow> u64 \<Rightarrow> u64 \<Rightarrow> u64 list \<Rightarrow> u64 option \<Rightarrow> machine \<Rightarrow> u64 list \<Rightarrow> machine \<Rightarrow> bool" where
  "mapped cap l t path r s fs s' \<longleftrightarrow>
     (\<exists>fs'. pt_step cap l (length path) t s fs s' fs')
     \<and> (\<forall>p. index_path (length path) p \<longrightarrow> pt_walk (mem s') (PHYSICAL_ADDRESS_OFFSET s) t p
          = (if p = path then r
             else pt_walk (mem s) (PHYSICAL_ADDRESS_OFFSET s) t p))"

definition unmapped :: "nat \<Rightarrow> u64 \<Rightarrow> u64 \<Rightarrow> nat \<Rightarrow> machine \<Rightarrow> u64 list \<Rightarrow> machine \<Rightarrow> bool" where
  "unmapped cap l t n s fs s' \<longleftrightarrow>
     same_walks n (PHYSICAL_ADDRESS_OFFSET s) t (mem s) (mem s')
     \<and> changed_only (set (tables (mem s) (PHYSICAL_ADDRESS_OFFSET s) n t @ phys_frames (PHYSICAL_ADDRESS_OFFSET s) fs))
         cap l (mem s) (mem s')
     \<and> same_regs s s'"

lemma exhausted_unmapped:
  assumes ok: "pt_ok cap (mem s) (PHYSICAL_ADDRESS_OFFSET s) n t l fs"
    and "changed_only {} cap l (mem s) (mem s')" "same_regs s s'"
  shows "unmapped cap l t n s fs s'"
proof -
  have "same_on (set (tables (mem s) (PHYSICAL_ADDRESS_OFFSET s) n t)) (mem s) (mem s')"
    by (intro changed_same [OF assms(2)]) (auto intro!: pt_ok_apart_list [OF ok])
  then show ?thesis
    using assms(3) walk_same changed_only_mono [OF assms(2)]
    by (auto simp: unmapped_def same_walks_def index_path_def)
qed

lemma mapped_Cons:
  assumes st: "pt_step cap l (Suc n) t s fs s1 fs1"
    and sw: "same_walks (Suc n) (PHYSICAL_ADDRESS_OFFSET s) t (mem s) (mem s1)"
    and n: "0 < n" "length path = n" and i: "unat i < 512"
    and e: "is_page_table_present (load64 (mem s1) (t + 8 * i))"
      "u = page_table_phys_address (load64 (mem s1) (t + 8 * i)) + PHYSICAL_ADDRESS_OFFSET s"
    and mp: "mapped cap l u path r s1 fs1 s2"
  shows "mapped cap l t (i # path) r s fs s2"
proof -
  let ?o = "PHYSICAL_ADDRESS_OFFSET s"
  have ok: "pt_ok cap (mem s1) ?o (Suc n) t l fs1" and o: "PHYSICAL_ADDRESS_OFFSET s1 = ?o"
    using st by (simp_all add: pt_step_def same_regs_def Let_def)
  obtain fs2 where st2: "pt_step cap l n u s1 fs1 s2 fs2"
    and w: "\<And>p. index_path n p \<Longrightarrow> pt_walk (mem s2) ?o u p
      = (if p = path then r else pt_walk (mem s1) ?o u p)"
    using mp n(2) by (auto simp: mapped_def o)
  have "pt_step cap l (Suc n) t s fs s2 fs2"
    using pt_step_below [OF ok [folded o] n(1) i e(1) e(2) [folded o] st2] st by (rule pt_step_trans [rotated])
  moreover have ch: "changed_only (set (tables (mem s1) ?o n u @ phys_frames ?o fs1)) cap l (mem s1) (mem s2)"
    using st2 by (simp add: pt_step_def Let_def o)
  have "pt_walk (mem s2) ?o t (j # q)
      = (if j # q = i # path then r else pt_walk (mem s) ?o t (j # q))"
    if "index_path (Suc n) (j # q)" for j q
  proof -
    have q: "index_path n q" using that by (simp add: index_path_def)
    have "pt_walk (mem s1) ?o t (j # q) = pt_walk (mem s) ?o t (j # q)"
      using sw that by (simp add: same_walks_def del: pt_walk.simps)
    then show ?thesis
      using below_entry(3) [OF ok n(1) i e ch that] below_entry(4) [OF ok n(1) i e ch q] w [OF q]
      by (auto simp del: pt_walk.simps)
  qed
  ultimately show ?thesis
    using n(2) by (auto simp: mapped_def index_path_def length_Suc_conv simp del: pt_walk.simps split: if_splits)
qed

lemma unmapped_Cons:
  assumes st: "pt_step cap l (Suc n) t s fs s1 fs1"
    and sw: "same_walks (Suc n) (PHYSICAL_ADDRESS_OFFSET s) t (mem s) (mem s1)"
    and n: "0 < n" and i: "unat i < 512"
    and e: "is_page_table_present (load64 (mem s1) (t + 8 * i))"
      "u = page_table_phys_address (load64 (mem s1) (t + 8 * i)) + PHYSICAL_ADDRESS_OFFSET s"
    and um: "unmapped cap l u n s1 fs1 s2"
  shows "unmapped cap l t (Suc n) s fs s2"
proof -
  let ?o = "PHYSICAL_ADDRESS_OFFSET s"
  have ok: "pt_ok cap (mem s1) ?o (Suc n) t l fs1" and o: "PHYSICAL_ADDRESS_OFFSET s1 = ?o"
    and regs: "same_regs s s1"
    and ms: "mset (tables (mem s1) ?o (Suc n) t @ phys_frames ?o fs1) = mset (tables (mem s) ?o (Suc n) t @ phys_frames ?o fs)"
    and ch1: "changed_only (set (tables (mem s) ?o (Suc n) t @ phys_frames ?o fs)) cap l (mem s) (mem s1)"
    using st by (simp_all add: pt_step_def same_regs_def Let_def)
  have ch: "changed_only (set (tables (mem s1) ?o n u @ phys_frames ?o fs1)) cap l (mem s1) (mem s2)"
    and w: "same_walks n ?o u (mem s1) (mem s2)" and regs2: "same_regs s1 s2"
    using um by (simp_all add: unmapped_def o)
  have "pt_walk (mem s2) ?o t (j # q) = pt_walk (mem s) ?o t (j # q)" if "index_path (Suc n) (j # q)" for j q
  proof -
    have q: "index_path n q" using that by (simp add: index_path_def)
    have "pt_walk (mem s1) ?o t (j # q) = pt_walk (mem s) ?o t (j # q)" "pt_walk (mem s2) ?o u q = pt_walk (mem s1) ?o u q"
      using sw w q that by (simp_all add: same_walks_def del: pt_walk.simps)
    then show ?thesis
      using below_entry(3) [OF ok n i e ch that] below_entry(4) [OF ok n i e ch q]
      by (auto simp del: pt_walk.simps)
  qed
  then have "same_walks (Suc n) ?o t (mem s) (mem s2)"
    by (auto simp: same_walks_def index_path_def length_Suc_conv simp del: pt_walk.simps)
  moreover have "changed_only (set (tables (mem s) ?o (Suc n) t @ phys_frames ?o fs)) cap l (mem s) (mem s2)"
    using changed_only_trans [OF ch1] below_entry(2) [OF ok n i e ch] mset_eq_setD [OF ms] by metis
  ultimately show ?thesis
    using same_regs_trans [OF regs regs2] by (simp add: unmapped_def)
qed

lemma map_path_correct:
  assumes "pt_ok cap (mem s) (PHYSICAL_ADDRESS_OFFSET s) (Suc (length is)) t l fs"
    "index_path (Suc (length is)) (map fst is @ [k])"
  shows "\<exists>done s'. map_path s t is k frame l = (done, s')
    \<and> (if done then mapped cap l t (map fst is @ [k]) (Some (page_table_phys_address frame)) s fs s'
         else unmapped cap l t (Suc (length is)) s fs s')
    \<and> (length is \<le> length fs
        \<or> (\<exists>j. unat j < 512 \<and> pt_walk (mem s) (PHYSICAL_ADDRESS_OFFSET s) t (map fst is @ [j]) \<noteq> None) \<longrightarrow> done)"
  using assms
proof (induction "is" arbitrary: s t fs)
  case Nil
  then have "pt_ok cap (mem s) (PHYSICAL_ADDRESS_OFFSET s) (Suc 0) t l fs" "unat k < 512"
    by (simp_all add: index_path_def)
  from store_leaf [OF this, where v = "(frame AND PAGE_ADDR_MASK) OR create_basic_page_attributes"] show ?case
    by (auto simp: mapped_def created_present created_phys simp del: pt_walk.simps)
next
  case (Cons im "is")
  obtain i msg where im: "im = (i, msg)" by fastforce
  have i: "unat i < 512" and idx: "index_path (Suc (length is)) (map fst is @ [k])"
    using Cons.prems(2) im by (auto simp: index_path_def)
  have ok: "pt_ok cap (mem s) (PHYSICAL_ADDRESS_OFFSET s) (Suc (Suc (length is))) t l fs" using Cons.prems by simp
  show ?case
  proof (cases "is_page_table_present (load64 (mem s) (t + 8 * i)) \<or> fs \<noteq> []")
    case True
    obtain s1 fs1 u where u: "u = page_table_phys_address (load64 (mem s1) (t + 8 * i)) + PHYSICAL_ADDRESS_OFFSET s"
      and m: "map_level s t i l msg = (Some u, s1)" and e: "is_page_table_present (load64 (mem s1) (t + 8 * i))"
      and st: "pt_step cap l (Suc (Suc (length is))) t s fs s1 fs1" and len: "length fs \<le> Suc (length fs1)"
      and sw: "same_walks (Suc (Suc (length is))) (PHYSICAL_ADDRESS_OFFSET s) t (mem s) (mem s1)"
      using map_level_ok [OF ok _ i True, of msg] by auto
    have "pt_ok cap (mem s1) (PHYSICAL_ADDRESS_OFFSET s) (Suc (Suc (length is))) t l fs1"
      and o: "PHYSICAL_ADDRESS_OFFSET s1 = PHYSICAL_ADDRESS_OFFSET s"
      using st by (simp_all add: pt_step_def same_regs_def Let_def)
    then have "pt_ok cap (mem s1) (PHYSICAL_ADDRESS_OFFSET s1) (Suc (length is)) u l fs1"
      using pt_ok_child [OF _ _ i e u] by simp
    from Cons.IH [OF this idx] obtain don s2 where r: "map_path s1 u is k frame l = (don, s2)"
      "if don then mapped cap l u (map fst is @ [k]) (Some (page_table_phys_address frame)) s1 fs1 s2
        else unmapped cap l u (Suc (length is)) s1 fs1 s2"
      "length is \<le> length fs1 \<or> (\<exists>j. unat j < 512
        \<and> pt_walk (mem s1) (PHYSICAL_ADDRESS_OFFSET s1) u (map fst is @ [j]) \<noteq> None) \<longrightarrow> don" by blast
    have "pt_walk (mem s) (PHYSICAL_ADDRESS_OFFSET s) t (i # map fst is @ [j])
        = pt_walk (mem s1) (PHYSICAL_ADDRESS_OFFSET s1) u (map fst is @ [j])" if "unat j < 512" for j
    proof -
      have "index_path (Suc (Suc (length is))) (i # map fst is @ [j])"
        using idx i that by (auto simp: index_path_def)
      then have "pt_walk (mem s) (PHYSICAL_ADDRESS_OFFSET s) t (i # map fst is @ [j])
          = pt_walk (mem s1) (PHYSICAL_ADDRESS_OFFSET s) t (i # map fst is @ [j])"
        using sw by (simp add: same_walks_def del: pt_walk.simps)
      then show ?thesis using e u o by (simp add: Let_def)
    qed
    then have live: "don" if "length (im # is) \<le> length fs
        \<or> (\<exists>j. unat j < 512 \<and> pt_walk (mem s) (PHYSICAL_ADDRESS_OFFSET s) t (map fst (im # is) @ [j]) \<noteq> None)"
      using that len r(3) im by (auto simp del: pt_walk.simps)
    have "if don then mapped cap l t (i # map fst is @ [k]) (Some (page_table_phys_address frame)) s fs s2
        else unmapped cap l t (Suc (Suc (length is))) s fs s2"
      using r(2) mapped_Cons [OF st sw _ _ i e u] unmapped_Cons [OF st sw _ i e u] by simp
    then show ?thesis
      using r(1) m live im by (simp del: pt_walk.simps)
  next
    case False
    then have "frame_list cap (mem s) l []" using ok by (simp add: pt_ok_iff)
    then obtain s' where "map_level s t i l msg = (None, s')" "same_regs s s'" "changed_only {} cap l (mem s) (mem s')"
      using map_level_exhausted [of s t i cap l msg] False by auto
    then show ?thesis
      using exhausted_unmapped [OF ok] False im by (auto simp: Let_def)
  qed
qed

text \<open>How many tables are missing on the way to a page: that many frames the mapping takes, and no fewer will do.\<close>

fun tables_missing :: "memory \<Rightarrow> u64 \<Rightarrow> u64 \<Rightarrow> u64 list \<Rightarrow> nat" where
  "tables_missing m off t [] = 0"
| "tables_missing m off t (i # is) =
     (let e = load64 m (t + 8 * i)
      in if is = [] then 0
         else if is_page_table_present e then tables_missing m off (page_table_phys_address e + off) is
         else length is)"

lemma frame_list_count: "frame_list cap m l fs \<Longrightarrow> unat (ffl_numFrames m l) = length fs"
  by (auto simp: frame_list_def unat_of_nat_64)

lemma missing_zero_table:
  assumes "\<And>x. unat (x - t) < 4096 \<Longrightarrow> m x = 0" "\<forall>i\<in>set p. unat i < 512"
  shows "tables_missing m off t p = length p - 1"
  using zero_table_entry [of t m "hd p"] assms by (cases p) auto

lemma map_path_count:
  assumes "pt_ok cap (mem s) (PHYSICAL_ADDRESS_OFFSET s) (Suc (length is)) t l fs"
    "index_path (Suc (length is)) (map fst is @ [k])"
  defines "n \<equiv> tables_missing (mem s) (PHYSICAL_ADDRESS_OFFSET s) t (map fst is @ [k])"
  shows "(fst (map_path s t is k frame l) \<longleftrightarrow> n \<le> length fs)
    \<and> (n \<le> length fs \<longrightarrow> unat (ffl_numFrames (mem (snd (map_path s t is k frame l))) l) = length fs - n)"
  using assms(1,2) unfolding n_def
proof (induction "is" arbitrary: s t fs)
  case Nil
  then have "pt_step cap l (Suc 0) t s fs (snd (map_path s t [] k frame l)) fs"
    using store_leaf(1) [of cap s t l fs k] by (simp add: index_path_def)
  then show ?case using frame_list_count by (auto simp: pt_step_def pt_ok_iff Let_def)
next
  case (Cons im "is")
  obtain i msg where im: "im = (i, msg)" by fastforce
  have i: "unat i < 512" and idx: "index_path (Suc (length is)) (map fst is @ [k])"
    using Cons.prems(2) im by (auto simp: index_path_def)
  have ok: "pt_ok cap (mem s) (PHYSICAL_ADDRESS_OFFSET s) (Suc (Suc (length is))) t l fs" using Cons.prems by simp
  show ?case
  proof (cases "is_page_table_present (load64 (mem s) (t + 8 * i))")
    case True
    let ?u = "page_table_phys_address (load64 (mem s) (t + 8 * i)) + PHYSICAL_ADDRESS_OFFSET s"
    have "pt_ok cap (mem s) (PHYSICAL_ADDRESS_OFFSET s) (Suc (length is)) ?u l fs" using pt_ok_child [OF ok _ i True refl] by simp
    from Cons.IH [OF this idx] show ?thesis using True by (simp add: im map_level_present)
  next
    case absent: False
    have m: "tables_missing (mem s) (PHYSICAL_ADDRESS_OFFSET s) t (map fst (im # is) @ [k]) = Suc (length is)"
      using absent by (simp add: im)
    show ?thesis
    proof (cases "fs = []")
      case True
      then have "frame_list cap (mem s) l []" using ok by (simp add: pt_ok_iff)
      then show ?thesis using map_level_exhausted [of s t i cap l msg] absent True m by (auto simp: im simp del: tables_missing.simps)
    next
      case False
      then obtain f gs where fs: "fs = f # gs" by (cases fs) auto
      let ?v = "f + PHYSICAL_ADDRESS_OFFSET s"
      have go: "is_page_table_present (load64 (mem s) (t + 8 * i)) \<or> fs \<noteq> []" using fs by simp
      obtain s1 where s1: "map_level s t i l msg = (Some ?v, s1)" "same_regs s s1" "frame_list cap (mem s1) l gs"
          "\<And>x. unat (x - ?v) < 4096 \<Longrightarrow> mem s1 x = 0"
        using map_level_creates [OF ok [unfolded fs] _ i absent, of msg] by auto
      obtain fs1 where st: "pt_step cap l (Suc (Suc (length is))) t s fs s1 fs1"
          and e: "is_page_table_present (load64 (mem s1) (t + 8 * i))"
            "?v = page_table_phys_address (load64 (mem s1) (t + 8 * i)) + PHYSICAL_ADDRESS_OFFSET s"
        using map_level_ok [OF ok _ i go, of msg] s1(1) by auto
      have o: "PHYSICAL_ADDRESS_OFFSET s1 = PHYSICAL_ADDRESS_OFFSET s" using s1(2) by (simp add: same_regs_def)
      have ok1: "pt_ok cap (mem s1) (PHYSICAL_ADDRESS_OFFSET s) (Suc (Suc (length is))) t l fs1" using st by (simp add: pt_step_def Let_def)
      then have len: "length fs1 = length gs" using frame_list_count [OF s1(3)] frame_list_count [of cap "mem s1" l fs1] by (simp add: pt_ok_iff)
      have "pt_ok cap (mem s1) (PHYSICAL_ADDRESS_OFFSET s1) (Suc (length is)) ?v l fs1" using pt_ok_child [OF ok1 _ i e] by (simp add: o)
      from Cons.IH [OF this idx] show ?thesis
        using missing_zero_table [where p = "map fst is @ [k]" and off = "PHYSICAL_ADDRESS_OFFSET s", OF s1(4)] idx len fs m
        by (auto simp: im s1(1) o index_path_def simp del: tables_missing.simps)
    qed
  qed
qed

section \<open>Lookup\<close>

text \<open>No table of the tree covers the null address, which \<open>fetch_page_table_entry\<close> uses for "absent".\<close>

definition null_free :: "memory \<Rightarrow> u64 \<Rightarrow> nat \<Rightarrow> u64 \<Rightarrow> bool" where
  "null_free m off n t \<longleftrightarrow> (\<forall>u\<in>set (tables m off n t). sep u 4096 0 1)"

lemma entry_not_null:
  assumes "sep t 4096 0 1" "unat i < 512"
  shows "t + 8 * i \<noteq> 0"
proof
  assume "t + 8 * i = 0"
  then have "unat (0 - (t + 8 * i)) < 8" by simp
  from sep_apart [OF assms(1) entry_inside [OF assms(2) this]] show False by simp
qed

lemma null_free_root: "null_free m off (Suc n) t \<Longrightarrow> sep t 4096 0 1"
  using root_in_tables by (auto simp: null_free_def)

lemma null_free_child:
  assumes "null_free m off (Suc n) t" "0 < n" "unat i < 512" "is_page_table_present (load64 m (t + 8 * i))"
  shows "null_free m off n (page_table_phys_address (load64 m (t + 8 * i)) + off)"
  using assms subtables_subset [of n "unat i" m off t]
  by (auto simp: null_free_def subtables_def)

lemma fetch_loop_walk:
  assumes "null_free (mem s) (PHYSICAL_ADDRESS_OFFSET s) (length p) t" "\<forall>i\<in>set p. unat i < 512"
  shows "pt_walk (mem s) (PHYSICAL_ADDRESS_OFFSET s) t p
    = (if fetch_loop s t p = 0 then None else Some (page_table_phys_address (load64 (mem s) (fetch_loop s t p))))"
  using assms
proof (induction p arbitrary: t)
  case Nil
  then show ?case by simp
next
  case (Cons i p)
  have ne: "t + 8 * i \<noteq> 0"
    using Cons.prems null_free_root by (intro entry_not_null) auto
  show ?case
  proof (cases "is_page_table_present (load64 (mem s) (t + 8 * i)) \<and> p \<noteq> []")
    case True
    then show ?thesis
      using Cons.IH null_free_child [of "mem s" _ "length p" t i] Cons.prems
      by (auto simp: Let_def phys_to_virt_translation_def)
  next
    case False
    then show ?thesis using ne by (auto simp: Let_def)
  qed
qed

text \<open>Writing through the entry that the lookup found changes one translation and keeps the invariant.\<close>

lemma fetch_loop_store:
  assumes "pt_ok cap (mem s) (PHYSICAL_ADDRESS_OFFSET s) (length p) t l fs" "index_path (length p) p"
    "fetch_loop s t p \<noteq> 0"
  shows "mapped cap l t p (if is_page_table_present v then Some (page_table_phys_address v) else None) s fs
    (s\<lparr>mem := store64 (mem s) (fetch_loop s t p) v\<rparr>)"
  using assms
proof (induction p arbitrary: t)
  case Nil
  then show ?case by simp
next
  case (Cons i p)
  have i: "unat i < 512" and idx: "index_path (length p) p"
    using Cons.prems(2) by (auto simp: index_path_def)
  have e: "is_page_table_present (load64 (mem s) (t + 8 * i))"
    using Cons.prems(3) by (auto simp: Let_def split: if_splits)
  show ?case
  proof (cases "p = []")
    case True
    then show ?thesis
      using Cons.prems(1) store_leaf [where v = v, OF _ i, of cap s t l fs] e
      by (auto simp: mapped_def Let_def simp del: pt_walk.simps)
  next
    case False
    define u where "u = page_table_phys_address (load64 (mem s) (t + 8 * i)) + PHYSICAL_ADDRESS_OFFSET s"
    have f: "fetch_loop s t (i # p) = fetch_loop s u p"
      using e False by (simp add: u_def Let_def phys_to_virt_translation_def)
    have ok: "pt_ok cap (mem s) (PHYSICAL_ADDRESS_OFFSET s) (Suc (length p)) t l fs"
      using Cons.prems(1) by simp
    have "pt_step cap l (Suc (length p)) t s fs s fs" "same_walks (Suc (length p)) (PHYSICAL_ADDRESS_OFFSET s) t (mem s) (mem s)"
      using ok by (simp_all add: pt_step_def same_walks_def changed_only_def)
    moreover have "mapped cap l u p (if is_page_table_present v then Some (page_table_phys_address v) else None) s fs
        (s\<lparr>mem := store64 (mem s) (fetch_loop s u p) v\<rparr>)"
      using pt_ok_child [OF ok _ i e u_def] False idx Cons.prems(3) f by (intro Cons.IH) auto
    ultimately show ?thesis
      unfolding f using mapped_Cons [OF _ _ _ _ i e u_def] False by simp
  qed
qed

lemma fetch_loop_step:
  assumes "pt_ok cap (mem s) (PHYSICAL_ADDRESS_OFFSET s) (length p) t l fs" "index_path (length p) p"
    "fetch_loop s t p \<noteq> 0"
  shows "pt_step cap l (length p) t s fs (s\<lparr>mem := store64 (mem s) (fetch_loop s t p) v\<rparr>) fs"
  using assms
proof (induction p arbitrary: t)
  case Nil
  then show ?case by simp
next
  case (Cons i p)
  have i: "unat i < 512" and idx: "index_path (length p) p"
    using Cons.prems(2) by (auto simp: index_path_def)
  have e: "is_page_table_present (load64 (mem s) (t + 8 * i))"
    using Cons.prems(3) by (auto simp: Let_def split: if_splits)
  have ok: "pt_ok cap (mem s) (PHYSICAL_ADDRESS_OFFSET s) (Suc (length p)) t l fs"
    using Cons.prems(1) by simp
  show ?case
  proof (cases "p = []")
    case True
    then show ?thesis
      using ok store_leaf(1) [where v = v, OF _ i, of cap s t l fs] e by (simp add: Let_def)
  next
    case False
    define u where "u = page_table_phys_address (load64 (mem s) (t + 8 * i)) + PHYSICAL_ADDRESS_OFFSET s"
    have f: "fetch_loop s t (i # p) = fetch_loop s u p"
      using e False by (simp add: u_def Let_def phys_to_virt_translation_def)
    have "pt_step cap l (length p) u s fs (s\<lparr>mem := store64 (mem s) (fetch_loop s u p) v\<rparr>) fs"
      using pt_ok_child [OF ok _ i e u_def] False idx Cons.prems(3) f by (intro Cons.IH) auto
    then show ?thesis
      unfolding f using pt_step_below [OF ok _ i e u_def] False by simp
  qed
qed

lemma page_path_index [simp]: "index_path 4 (page_path a)"
proof -
  have "unat (w AND 0x1ff :: u64) < 512" for w
    using word_and_le1 [of w "0x1ff"] by (simp add: word_le_nat_alt)
  then show ?thesis
    by (simp add: page_path_def index_path_def calculate_pt_indices_def Let_def)
qed

lemma length_page_path [simp]: "length (page_path a) = 4"
  by (simp add: page_path_def Let_def)

lemma fetch_path: "fetch_page_table_entry s a = fetch_loop s (active_pml4_table s) (page_path a)"
  by (simp add: fetch_page_table_entry_def page_path_def Let_def)

section \<open>Pages\<close>

text \<open>The page of an address: its bits 12 to 47, which are the four indices.\<close>

definition page_of :: "u64 \<Rightarrow> u64" where "page_of a = a AND 0x0000FFFFFFFFF000"

lemma bit_page_of: "bit (page_of a) j \<longleftrightarrow> bit a j \<and> 12 \<le> j \<and> j < 48"
proof -
  have e: "(0x0000FFFFFFFFF000 :: u64) = push_bit 12 (mask 36)"
    by (simp add: mask_eq_exp_minus_1)
  show ?thesis unfolding page_of_def e by (auto simp: bit_and_iff bit_push_bit_iff bit_mask_iff)
qed

lemma index_eq_iff:
  fixes a b :: u64
  shows "drop_bit k a AND 0x1ff = drop_bit k b AND 0x1ff \<longleftrightarrow> (\<forall>j. k \<le> j \<and> j < k + 9 \<longrightarrow> bit a j = bit b j)"
proof -
  have e: "(0x1ff :: u64) = mask 9" by (simp add: mask_eq_exp_minus_1)
  have b: "bit (drop_bit k w AND 0x1ff) i \<longleftrightarrow> bit w (k + i) \<and> i < 9" for w :: u64 and i
    unfolding e by (auto simp: bit_and_iff bit_mask_iff bit_drop_bit_eq)
  have "drop_bit k a AND 0x1ff = drop_bit k b AND 0x1ff \<longleftrightarrow> (\<forall>i < 9. bit a (k + i) = bit b (k + i))"
    using b by (auto intro!: bit_word_eqI) (metis)+
  also have "\<dots> \<longleftrightarrow> (\<forall>j. k \<le> j \<and> j < k + 9 \<longrightarrow> bit a j = bit b j)"
    by (auto simp: le_iff_add)
  finally show ?thesis .
qed

lemma page_path_eq_iff: "page_path a = page_path b \<longleftrightarrow> page_of a = page_of b"
proof -
  have "page_path a = page_path b \<longleftrightarrow> (\<forall>j. 12 \<le> j \<and> j < 48 \<longrightarrow> bit a j = bit b j)"
  proof
    assume l: "page_path a = page_path b"
    show "\<forall>j. 12 \<le> j \<and> j < 48 \<longrightarrow> bit a j = bit b j"
    proof (intro allI impI)
      fix j :: nat assume "12 \<le> j \<and> j < 48"
      then consider "12 \<le> j \<and> j < 12 + 9" | "21 \<le> j \<and> j < 21 + 9" | "30 \<le> j \<and> j < 30 + 9" | "39 \<le> j \<and> j < 39 + 9"
        by linarith
      then show "bit a j = bit b j"
        using l by cases (simp_all add: page_path_def calculate_pt_indices_def Let_def index_eq_iff)
    qed
  qed (simp add: page_path_def calculate_pt_indices_def Let_def index_eq_iff)
  also have "\<dots> \<longleftrightarrow> page_of a = page_of b"
    using bit_page_of by (auto intro!: bit_word_eqI) (metis)+
  finally show ?thesis .
qed

lemma unat_page_of: "4096 * (unat (page_of a) div 4096) = unat (page_of a)"
proof -
  have "take_bit 12 (page_of a) = 0"
    by (rule bit_word_eqI) (auto simp: bit_take_bit_iff bit_page_of)
  then have "take_bit 12 (unat (page_of a)) = 0"
    by (metis unsigned_take_bit_eq unat_0)
  then show ?thesis by (simp add: take_bit_eq_mod mult_div_mod_eq [symmetric, of 4096] dvd_eq_mod_eq_0 [symmetric])
qed

text \<open>Page \<open>k\<close> of the first two megabytes.\<close>

abbreviation low_page :: "nat \<Rightarrow> u64" where "low_page k \<equiv> 0x1000 * of_nat k"

lemma unat_low_page: "k \<le> 512 \<Longrightarrow> unat (low_page k) = 4096 * k"
  using unat_of_nat_64 [of "4096 * k"] by simp

lemma low_page_bits:
  assumes "k < 512" "bit (low_page k) j"
  shows "12 \<le> j \<and> j < 21"
proof -
  have "low_page k = push_bit 12 (of_nat k)" by (simp add: push_bit_eq_mult)
  then have j: "12 \<le> j" "bit (of_nat k :: u64) (j - 12)"
    using assms(2) by (auto simp: bit_push_bit_iff)
  have "take_bit 9 (of_nat k :: u64) = of_nat k"
    using assms(1) unat_of_nat_64 [of k]
    by (intro word_eq_unatI, subst unsigned_take_bit_eq) (simp add: take_bit_eq_mod)
  then have "j - 12 < 9" using j(2) by (metis bit_take_bit_iff)
  then show ?thesis using j(1) by simp
qed

lemma page_of_low: "k < 512 \<Longrightarrow> page_of (low_page k) = low_page k"
  by (rule bit_word_eqI) (auto simp: bit_page_of dest: low_page_bits)

lemma phys_low: "k < 512 \<Longrightarrow> page_table_phys_address (low_page k) = low_page k"
  by (rule bit_word_eqI) (auto simp: bit_phys_address dest: low_page_bits)

lemma path_low: "k < 512 \<Longrightarrow> take 3 (page_path (low_page k)) = [0, 0, 0]"
proof -
  assume k: "k < 512"
  have "drop_bit n (low_page k) = 0" if "21 \<le> n" for n
    using that by (intro bit_word_eqI) (auto simp: bit_drop_bit_eq dest: low_page_bits [OF k])
  then show ?thesis
    by (simp add: page_path_def calculate_pt_indices_def Let_def numeral_eq_Suc)
qed

lemma page_of_eq_low: "k < 512 \<Longrightarrow> page_of b = low_page k \<longleftrightarrow> unat (page_of b) div 4096 = k"
  using unat_page_of [of b] unat_low_page [of k]
  by (auto intro!: word_eq_unatI)

section \<open>Properties\<close>

text \<open>The table that \<open>map_to_page\<close> starts from.\<close>

definition map_root :: "machine \<Rightarrow> u64 \<Rightarrow> u64" where
  "map_root s pml4 = (if pml4 = 0 then cr3 s + PHYSICAL_ADDRESS_OFFSET s else pml4)"

lemma map_to_page_cases:
  assumes "pt_ok cap (mem s) (PHYSICAL_ADDRESS_OFFSET s) 4 (map_root s pml4) l fs" "map_root s pml4 \<noteq> 0"
  shows "\<exists>done s'. map_to_page s a frame l pml4 = (if done then a else 0, s')
    \<and> (if done then mapped cap l (map_root s pml4) (page_path a) (Some (page_table_phys_address frame)) s fs s'
       else unmapped cap l (map_root s pml4) 4 s fs s')
    \<and> (3 \<le> length fs \<or> (\<exists>b. take 3 (page_path b) = take 3 (page_path a)
        \<and> pt_walk (mem s) (PHYSICAL_ADDRESS_OFFSET s) (map_root s pml4) (page_path b) \<noteq> None) \<longrightarrow> done)"
proof -
  let ?x = "calculate_pt_indices a"
  let ?is = "[(pgd ?x, ''Can't allocate new PUD page table''), (pud ?x, ''Can't allocate new PMD page table''),
    (pmd ?x, ''Couldn't Allocate new PT.'')]"
  have p: "map fst ?is @ [pt ?x] = page_path a" "Suc (length ?is) = 4"
    by (simp_all add: page_path_def Let_def)
  have "pt_ok cap (mem s) (PHYSICAL_ADDRESS_OFFSET s) (Suc (length ?is)) (map_root s pml4) l fs"
    "index_path (Suc (length ?is)) (map fst ?is @ [pt ?x])"
    using assms(1) unfolding p by simp_all
  from map_path_correct [OF this, of frame] obtain don s' where r:
    "map_path s (map_root s pml4) ?is (pt ?x) frame l = (don, s')"
    "if don then mapped cap l (map_root s pml4) (page_path a) (Some (page_table_phys_address frame)) s fs s'
      else unmapped cap l (map_root s pml4) 4 s fs s'"
    "length ?is \<le> length fs \<or> (\<exists>j. unat j < 512
      \<and> pt_walk (mem s) (PHYSICAL_ADDRESS_OFFSET s) (map_root s pml4) (map fst ?is @ [j]) \<noteq> None) \<longrightarrow> don"
    unfolding p by blast
  have "map fst ?is @ [pt (calculate_pt_indices b)] = page_path b \<and> unat (pt (calculate_pt_indices b)) < 512"
    if "take 3 (page_path b) = take 3 (page_path a)" for b
    using that page_path_index [of b] by (simp add: page_path_def Let_def index_path_def numeral_eq_Suc)
  then have "3 \<le> length fs \<or> (\<exists>b. take 3 (page_path b) = take 3 (page_path a)
      \<and> pt_walk (mem s) (PHYSICAL_ADDRESS_OFFSET s) (map_root s pml4) (page_path b) \<noteq> None) \<longrightarrow> don"
    using r(3) by (metis length_Cons list.size(3) numeral_3_eq_3)
  then show ?thesis
    unfolding map_to_page_path [OF map_root_def assms(2)] using r(1,2) by auto
qed

lemma map_to_page_count:
  fixes a :: u64
  assumes "pt_ok cap (mem s) (PHYSICAL_ADDRESS_OFFSET s) 4 (map_root s pml4) l fs" "map_root s pml4 \<noteq> 0"
  defines "n \<equiv> tables_missing (mem s) (PHYSICAL_ADDRESS_OFFSET s) (map_root s pml4) (page_path a)"
  shows "if n \<le> length fs then fst (map_to_page s a frame l pml4) = a
        \<and> unat (ffl_numFrames (mem (snd (map_to_page s a frame l pml4))) l) = length fs - n
      else fst (map_to_page s a frame l pml4) = 0
        \<and> unmapped cap l (map_root s pml4) 4 s fs (snd (map_to_page s a frame l pml4))"
proof -
  let ?x = "calculate_pt_indices a"
  let ?is = "[(pgd ?x, ''Can't allocate new PUD page table''), (pud ?x, ''Can't allocate new PMD page table''),
    (pmd ?x, ''Couldn't Allocate new PT.'')]"
  have p: "map fst ?is @ [pt ?x] = page_path a" "Suc (length ?is) = 4" by (simp_all add: page_path_def Let_def)
  have ok: "pt_ok cap (mem s) (PHYSICAL_ADDRESS_OFFSET s) (Suc (length ?is)) (map_root s pml4) l fs"
    "index_path (Suc (length ?is)) (map fst ?is @ [pt ?x])"
    using assms(1) unfolding p by simp_all
  obtain don s' where r: "map_path s (map_root s pml4) ?is (pt ?x) frame l = (don, s')" by fastforce
  have "\<not> don \<Longrightarrow> unmapped cap l (map_root s pml4) 4 s fs s'" using map_path_correct [OF ok, of frame] unfolding p r by auto
  moreover note map_path_count [OF ok, of frame, unfolded p r, folded n_def]
  ultimately show ?thesis unfolding map_to_page_path [OF map_root_def assms(2)] r by auto
qed

text \<open>A new root: the tables are one empty page, so nothing is mapped below it.\<close>

abbreviation free_ok :: "nat \<Rightarrow> memory \<Rightarrow> u64 \<Rightarrow> u64 \<Rightarrow> u64 list \<Rightarrow> bool" where
  "free_ok cap m off l fs \<equiv> pt_ok cap m off 0 0 l fs"

lemma create_root:
  assumes ok: "free_ok cap (mem s) (PHYSICAL_ADDRESS_OFFSET s) l (f # fs)"
  defines "t \<equiv> f + PHYSICAL_ADDRESS_OFFSET s"
  shows "\<exists>s'. create_new_page_table s l = (f, s') \<and> same_regs s s'
    \<and> pt_ok cap (mem s') (PHYSICAL_ADDRESS_OFFSET s) 4 t l fs
    \<and> (\<forall>p. index_path 4 p \<longrightarrow> pt_walk (mem s') (PHYSICAL_ADDRESS_OFFSET s) t p = None)
    \<and> tables (mem s') (PHYSICAL_ADDRESS_OFFSET s) 4 t = [t]
    \<and> (\<forall>x. unat (x - t) < 4096 \<longrightarrow> mem s' x = 0)"
proof -
  have fl: "frame_list cap (mem s) l (f # fs)" and f: "frame_ok f" and fs: "list_all frame_ok fs"
    and ap: "sep t 4096 l (24 + 8 * cap)"
    using ok by (auto simp: pt_ok_iff t_def)
  obtain s' where s': "create_new_page_table s l = (f, s')" "same_regs s s'" "frame_list cap (mem s') l fs"
      and z: "\<And>x. unat (x - t) < 4096 \<Longrightarrow> mem s' x = 0"
    using create_some [OF fl _ ap [unfolded t_def]] f unfolding t_def frame_ok_def by blast
  have ts: "tables (mem s') (PHYSICAL_ADDRESS_OFFSET s) 4 t = [t]"
    by (rule zero_table(1)) (use z in auto)
  then have "pt_ok cap (mem s') (PHYSICAL_ADDRESS_OFFSET s) 4 t l fs"
    using s'(3) fs by (intro pt_ok_conserve [OF ok]) (simp_all add: t_def)
  moreover have "pt_walk (mem s') (PHYSICAL_ADDRESS_OFFSET s) t p = None" if "index_path 4 p" for p
    by (rule zero_table(2)) (use z that in \<open>auto simp: index_path_def\<close>)
  ultimately show ?thesis using s' ts z by blast
qed

lemma page_mapped:
  assumes "pt_ok cap (mem s) (PHYSICAL_ADDRESS_OFFSET s) 4 t l fs" "t \<noteq> 0" "k < 512"
    "3 \<le> length fs \<or> (\<exists>j < 512. pt_walk (mem s) (PHYSICAL_ADDRESS_OFFSET s) t (page_path (low_page j)) \<noteq> None)"
  shows "mapped cap l t (page_path (low_page k)) (Some (low_page k)) s fs (snd (identity_map_page s (low_page k) l t))"
proof -
  define s1 where "s1 = say_serial (''identity map '' @ [CHR 0x0A]) s"
  have s1: "mem s1 = mem s" "PHYSICAL_ADDRESS_OFFSET s1 = PHYSICAL_ADDRESS_OFFSET s" "map_root s1 t = t"
    and regs: "same_regs s s' = same_regs s1 s'" for s'
    using assms(2) by (auto simp: s1_def map_root_def same_regs_def)
  have ok: "pt_ok cap (mem s1) (PHYSICAL_ADDRESS_OFFSET s1) 4 (map_root s1 t) l fs" "map_root s1 t \<noteq> 0"
    using assms(1,2) s1 by simp_all
  have live: "3 \<le> length fs \<or> (\<exists>b. take 3 (page_path b) = take 3 (page_path (low_page k))
      \<and> pt_walk (mem s1) (PHYSICAL_ADDRESS_OFFSET s1) (map_root s1 t) (page_path b) \<noteq> None)"
    using assms(3,4) path_low s1 by metis
  obtain s' where "map_to_page s1 (low_page k) (low_page k) l t = (low_page k, s')"
      "mapped cap l t (page_path (low_page k)) (Some (low_page k)) s1 fs s'"
    using map_to_page_cases [OF ok, of "low_page k" "low_page k"] live s1 phys_low [OF assms(3)] by auto
  then show ?thesis
    unfolding identity_map_page_def s1_def [symmetric] using s1 regs by (simp add: mapped_def pt_step_def)
qed

lemma identity_map_from:
  assumes "pt_ok cap (mem s) (PHYSICAL_ADDRESS_OFFSET s) 4 t l fs" "t \<noteq> 0" "1 \<le> k" "k \<le> 512" "k = 1 \<Longrightarrow> 3 \<le> length fs"
    "\<And>b. pt_walk (mem s) (PHYSICAL_ADDRESS_OFFSET s) t (page_path b)
      = (if 1 \<le> unat (page_of b) div 4096 \<and> unat (page_of b) div 4096 < k then Some (page_of b) else None)"
  shows "pt_walk (mem (identity_map_loop s (low_page k) l t)) (PHYSICAL_ADDRESS_OFFSET s) t (page_path b)
      = (if 1 \<le> unat (page_of b) div 4096 \<and> unat (page_of b) div 4096 < 512 then Some (page_of b) else None)"
  using assms
proof (induction "512 - k" arbitrary: k s fs)
  case 0
  then have "k = 512" by simp
  with 0(7) show ?case by (subst identity_map_loop.simps) simp
next
  case (Suc n)
  then have k: "k < 512" by simp
  let ?s = "snd (identity_map_page s (low_page k) l t)"
  have "\<exists>j < 512. pt_walk (mem s) (PHYSICAL_ADDRESS_OFFSET s) t (page_path (low_page j)) \<noteq> None" if "k \<noteq> 1"
    using that Suc.prems(3,6) k page_of_low [of 1] by (intro exI [of _ 1]) simp
  then have m: "mapped cap l t (page_path (low_page k)) (Some (low_page k)) s fs ?s"
    using Suc.prems k by (intro page_mapped) blast+
  then obtain fs' where st: "pt_step cap l 4 t s fs ?s fs'"
    and w: "pt_walk (mem ?s) (PHYSICAL_ADDRESS_OFFSET s) t (page_path b)
      = (if page_path b = page_path (low_page k) then Some (low_page k)
         else pt_walk (mem s) (PHYSICAL_ADDRESS_OFFSET s) t (page_path b))" for b
    by (auto simp: mapped_def)
  have o: "PHYSICAL_ADDRESS_OFFSET ?s = PHYSICAL_ADDRESS_OFFSET s"
    using st by (simp add: pt_step_def Let_def same_regs_def)
  have ok: "pt_ok cap (mem ?s) (PHYSICAL_ADDRESS_OFFSET ?s) 4 t l fs'"
    using st by (simp add: pt_step_def Let_def o)
  have w': "pt_walk (mem ?s) (PHYSICAL_ADDRESS_OFFSET ?s) t (page_path b)
      = (if 1 \<le> unat (page_of b) div 4096 \<and> unat (page_of b) div 4096 < Suc k then Some (page_of b) else None)" for b
    using w [of b] Suc.prems(3,6) page_of_eq_low [OF k, of b]
    by (auto simp: o page_path_eq_iff page_of_low [OF k] less_Suc_eq)
  have "low_page k < (1024 * 1024) * 2"
    using k unat_low_page [of k] by (simp add: word_less_nat_alt)
  moreover have "low_page k + PAGE_SIZE = low_page (Suc k)"
    by (simp add: PAGE_SIZE_def algebra_simps)
  ultimately have "identity_map_loop s (low_page k) l t = identity_map_loop ?s (low_page (Suc k)) l t"
    by (subst identity_map_loop.simps) (simp only: if_True)
  moreover have "pt_walk (mem (identity_map_loop ?s (low_page (Suc k)) l t)) (PHYSICAL_ADDRESS_OFFSET ?s) t (page_path b)
      = (if 1 \<le> unat (page_of b) div 4096 \<and> unat (page_of b) div 4096 < 512 then Some (page_of b) else None)"
    using Suc.hyps(2) Suc.prems(2,3) k by (intro Suc.hyps(1) [OF _ ok _ _ _ _ w']) auto
  ultimately show ?case unfolding o by simp
qed

text \<open>
  A small machine for the examples: five frames from a region at one megabyte, of which the last one pushed
  becomes the root that \<open>cr3\<close> names.
\<close>

definition small_region :: limine_memmap_entry where
  "small_region = \<lparr>mm_base = 0x100000, mm_length = 0x5000, mm_type = 0\<rparr>"

definition small_state :: machine where
  "small_state = snd (init_frame_list (boot_state\<lparr>cr3 := 0x104000\<rparr>) 0x5000 small_region)"

definition small_rooted :: machine where
  "small_rooted = snd (create_new_page_table small_state 0x5000)"

abbreviation small_frames :: "u64 list" where
  "small_frames \<equiv> [0x103000, 0x102000, 0x101000, 0x100000]"

lemma small_offset: "PHYSICAL_ADDRESS_OFFSET small_state = 0xffff800000000000" "cr3 small_state = 0x104000"
  by (simp_all add: small_state_def init_frame_list_def Let_def boot_state_def)

lemma small_free: "free_ok 9 (mem small_state) (PHYSICAL_ADDRESS_OFFSET small_state) 0x5000 (0x104000 # small_frames)"
proof -
  have "rev (region_frames small_region (frames_taken small_region)) = 0x104000 # small_frames"
    by (simp add: region_frames_def frames_taken_def small_region_def upt_rec)
  then have "frame_list 9 (mem small_state) 0x5000 (0x104000 # small_frames)"
    using init_frame_list_rep [of "0x5000" 9 "boot_state\<lparr>cr3 := 0x104000\<rparr>" small_region] by (simp add: small_state_def)
  then show ?thesis
    by (simp add: pt_ok_iff small_offset frame_ok_def apart_all_def sep_def)
qed

lemma small_rooted_ok:
  "pt_ok 9 (mem small_rooted) (PHYSICAL_ADDRESS_OFFSET small_rooted) 4 (map_root small_rooted 0) 0x5000 small_frames"
  "map_root small_rooted 0 \<noteq> 0" "active_pml4_table small_rooted = map_root small_rooted 0"
  "tables (mem small_rooted) (PHYSICAL_ADDRESS_OFFSET small_rooted) 4 (map_root small_rooted 0) = [0xffff800000104000]"
  "PHYSICAL_ADDRESS_OFFSET small_rooted = 0xffff800000000000" "map_root small_rooted 0 = 0xffff800000104000"
  "unat (x - map_root small_rooted 0) < 4096 \<Longrightarrow> mem small_rooted x = 0"
proof -
  obtain s' where s': "create_new_page_table small_state 0x5000 = (0x104000, s')" "same_regs small_state s'"
    "pt_ok 9 (mem s') (PHYSICAL_ADDRESS_OFFSET small_state) 4 (0x104000 + PHYSICAL_ADDRESS_OFFSET small_state) 0x5000 small_frames"
    "\<forall>p. index_path 4 p \<longrightarrow> pt_walk (mem s') (PHYSICAL_ADDRESS_OFFSET small_state) (0x104000 + PHYSICAL_ADDRESS_OFFSET small_state) p = None"
    "tables (mem s') (PHYSICAL_ADDRESS_OFFSET small_state) 4 (0x104000 + PHYSICAL_ADDRESS_OFFSET small_state)
      = [0x104000 + PHYSICAL_ADDRESS_OFFSET small_state]"
    "\<forall>x. unat (x - (0x104000 + PHYSICAL_ADDRESS_OFFSET small_state)) < 4096 \<longrightarrow> mem s' x = 0"
    using create_root [OF small_free] by blast
  have r: "small_rooted = s'" using s'(1) by (simp add: small_rooted_def)
  have regs: "PHYSICAL_ADDRESS_OFFSET s' = 0xffff800000000000" "cr3 s' = 0x104000"
    using s'(2) by (simp_all add: same_regs_def small_offset)
  show "PHYSICAL_ADDRESS_OFFSET small_rooted = 0xffff800000000000" "map_root small_rooted 0 = 0xffff800000104000"
    "map_root small_rooted 0 \<noteq> 0" "active_pml4_table small_rooted = map_root small_rooted 0"
    by (simp_all add: r regs map_root_def active_pml4_table_def)
  show "pt_ok 9 (mem small_rooted) (PHYSICAL_ADDRESS_OFFSET small_rooted) 4 (map_root small_rooted 0) 0x5000 small_frames"
    "tables (mem small_rooted) (PHYSICAL_ADDRESS_OFFSET small_rooted) 4 (map_root small_rooted 0) = [0xffff800000104000]"
    using s'(3,5) by (simp_all add: r regs map_root_def small_offset)
  show "unat (x - map_root small_rooted 0) < 4096 \<Longrightarrow> mem small_rooted x = 0"
    using s'(6) by (simp add: r regs map_root_def small_offset)
qed

text \<open>The page at \<open>0x400000\<close> mapped to the frame \<open>0x200000\<close>.\<close>

definition small_mapped :: machine where
  "small_mapped = snd (map_to_page small_rooted 0x400000 0x200000 0x5000 0)"

lemma small_mapped_ok:
  "\<exists>fs. pt_ok 9 (mem small_mapped) (PHYSICAL_ADDRESS_OFFSET small_mapped) 4 (active_pml4_table small_mapped) 0x5000 fs"
  "null_free (mem small_mapped) (PHYSICAL_ADDRESS_OFFSET small_mapped) 4 (active_pml4_table small_mapped)"
  "pt_walk (mem small_mapped) (PHYSICAL_ADDRESS_OFFSET small_mapped) (active_pml4_table small_mapped) (page_path 0x400000)
    = Some 0x200000"
proof -
  have "mapped 9 0x5000 0xffff800000104000 (page_path 0x400000) (Some 0x200000) small_rooted small_frames small_mapped"
    using map_to_page_cases [OF small_rooted_ok(1,2), of "0x400000" "0x200000"]
    by (auto simp: small_mapped_def small_rooted_ok(6) page_table_phys_address_def)
  then obtain fs where st: "pt_step 9 0x5000 4 0xffff800000104000 small_rooted small_frames small_mapped fs"
    and w: "pt_walk (mem small_mapped) 0xffff800000000000 0xffff800000104000 (page_path 0x400000) = Some 0x200000"
    by (auto simp: mapped_def small_rooted_ok(5))
  have regs: "same_regs small_rooted small_mapped" using st by (simp add: pt_step_def Let_def)
  then have r: "PHYSICAL_ADDRESS_OFFSET small_mapped = 0xffff800000000000" "active_pml4_table small_mapped = 0xffff800000104000"
    using small_rooted_ok(3,5,6) by (simp_all add: same_regs_def active_pml4_table_def)
  show "\<exists>fs. pt_ok 9 (mem small_mapped) (PHYSICAL_ADDRESS_OFFSET small_mapped) 4 (active_pml4_table small_mapped) 0x5000 fs"
    using st by (auto simp: pt_step_def Let_def r small_rooted_ok(5))
  have "mset (tables (mem small_mapped) 0xffff800000000000 4 0xffff800000104000 @ phys_frames 0xffff800000000000 fs)
      = mset (0xffff800000104000 # phys_frames 0xffff800000000000 small_frames)"
    using st small_rooted_ok(4) by (simp add: pt_step_def Let_def small_rooted_ok(5,6))
  from mset_eq_setD [OF this]
  have "set (tables (mem small_mapped) 0xffff800000000000 4 0xffff800000104000)
      \<subseteq> set (0xffff800000104000 # phys_frames 0xffff800000000000 small_frames)" by auto
  moreover have "\<forall>u\<in>set (0xffff800000104000 # phys_frames 0xffff800000000000 small_frames). sep u 4096 0 1"
    by (simp add: sep_def)
  ultimately show "null_free (mem small_mapped) (PHYSICAL_ADDRESS_OFFSET small_mapped) 4 (active_pml4_table small_mapped)"
    unfolding null_free_def r by blast
  show "pt_walk (mem small_mapped) (PHYSICAL_ADDRESS_OFFSET small_mapped) (active_pml4_table small_mapped) (page_path 0x400000)
    = Some 0x200000"
    using w by (simp add: r)
qed

lemma small_map: "map_to_page small_rooted 0x400000 0x200000 0x5000 0 = (0x400000, small_mapped)"
  using map_to_page_cases [OF small_rooted_ok(1,2), of "0x400000" "0x200000"] by (auto simp: small_mapped_def)

text \<open>The same machine with a single frame, which the root uses up.\<close>

definition tiny_rooted :: machine where
  "tiny_rooted = snd (create_new_page_table (snd (init_frame_list (boot_state\<lparr>cr3 := 0x100000\<rparr>) 0x5000
     (small_region\<lparr>mm_length := 0x1000\<rparr>))) 0x5000)"

lemma tiny_rooted_ok:
  "pt_ok 9 (mem tiny_rooted) (PHYSICAL_ADDRESS_OFFSET tiny_rooted) 4 (map_root tiny_rooted 0) 0x5000 []"
  "map_root tiny_rooted 0 \<noteq> 0"
  "fst (map_to_page tiny_rooted 0x400000 0x200000 0x5000 0) = 0"
proof -
  define s where "s = snd (init_frame_list (boot_state\<lparr>cr3 := 0x100000\<rparr>) 0x5000 (small_region\<lparr>mm_length := 0x1000\<rparr>))"
  have s: "PHYSICAL_ADDRESS_OFFSET s = 0xffff800000000000" "cr3 s = 0x100000"
    by (simp_all add: s_def init_frame_list_def Let_def boot_state_def)
  have "frame_list 9 (mem s) 0x5000 [0x100000]"
    using init_frame_list_rep [of "0x5000" 9 "boot_state\<lparr>cr3 := 0x100000\<rparr>" "small_region\<lparr>mm_length := 0x1000\<rparr>"]
    by (simp add: s_def region_frames_def frames_taken_def small_region_def)
  then have "free_ok 9 (mem s) (PHYSICAL_ADDRESS_OFFSET s) 0x5000 [0x100000]"
    by (simp add: pt_ok_iff s frame_ok_def apart_all_def sep_def)
  from create_root [OF this]
  obtain s' where s': "create_new_page_table s 0x5000 = (0x100000, s')" "same_regs s s'"
    "pt_ok 9 (mem s') 0xffff800000000000 4 0xffff800000100000 0x5000 []"
    "\<And>x. unat (x - 0xffff800000100000) < 4096 \<Longrightarrow> mem s' x = 0"
    by (auto simp: s)
  have r: "tiny_rooted = s'" using s'(1) by (simp add: tiny_rooted_def s_def)
  have regs: "PHYSICAL_ADDRESS_OFFSET s' = 0xffff800000000000" "cr3 s' = 0x100000"
    using s'(2) by (simp_all add: same_regs_def s)
  show ok: "pt_ok 9 (mem tiny_rooted) (PHYSICAL_ADDRESS_OFFSET tiny_rooted) 4 (map_root tiny_rooted 0) 0x5000 []"
    "map_root tiny_rooted 0 \<noteq> 0"
    using s'(3) by (simp_all add: r regs map_root_def)
  have "load64 (mem s') (0xffff800000100000 + 8 * 0) = 0"
    by (rule zero_table_entry) (use s'(4) in auto)
  then obtain s2 where "map_level s' 0xffff800000100000 0 0x5000 ''Can't allocate new PUD page table'' = (None, s2)"
    using map_level_exhausted [of s' "0xffff800000100000" 0 9 "0x5000"] s'(3) by (auto simp: pt_ok_iff)
  then show "fst (map_to_page tiny_rooted 0x400000 0x200000 0x5000 0) = 0"
    by (simp add: map_to_page_def Let_def r regs phys_to_virt_translation_def)
qed

text \<open>C1. With three free frames at hand \<open>map_to_page\<close> succeeds and refines a map from pages to frames: it
  answers the address, afterwards the walk for that page gives the frame (without the bits a table entry cannot
  hold), and the walk of every other page gives what it gave before, whatever tables had to be created.\<close>
theorem map_to_page_maps:
  assumes "pt_ok cap (mem s) (PHYSICAL_ADDRESS_OFFSET s) 4 (map_root s pml4) l fs" "map_root s pml4 \<noteq> 0"
    "3 \<le> length fs"
  shows "fst (map_to_page s a frame l pml4) = a
    \<and> pt_walk (mem (snd (map_to_page s a frame l pml4))) (PHYSICAL_ADDRESS_OFFSET s) (map_root s pml4) (page_path b)
      = (if page_path b = page_path a then Some (page_table_phys_address frame)
         else pt_walk (mem s) (PHYSICAL_ADDRESS_OFFSET s) (map_root s pml4) (page_path b))"
  using map_to_page_cases [OF assms(1,2), of a frame] assms(3) by (auto simp: mapped_def)

theorem map_to_page_maps_witness:
  "pt_walk (mem (snd (map_to_page small_rooted 0x400000 0x200000 0x5000 0))) 0xffff800000000000 0xffff800000104000
     (page_path 0x400123) = Some 0x200000"
  using map_to_page_maps [OF small_rooted_ok(1,2), of "0x400000" "0x200000" "0x400123"]
  by (simp add: small_rooted_ok(5,6) page_path_eq_iff page_of_def page_table_phys_address_def)

text \<open>C2. \<open>map_to_page\<close> never loses, shares or invents a frame: when it succeeds the tables below the root are again
  a tree whose members are apart from each other and from the free frames, tables and free frames together are
  exactly the pages they were before, and no byte outside of them and of the free list has changed.\<close>
theorem map_to_page_conserves:
  assumes "pt_ok cap (mem s) (PHYSICAL_ADDRESS_OFFSET s) 4 (map_root s pml4) l fs" "map_root s pml4 \<noteq> 0"
    "map_to_page s a frame l pml4 = (a, s')" "a \<noteq> 0"
  shows "\<exists>fs'. pt_ok cap (mem s') (PHYSICAL_ADDRESS_OFFSET s') 4 (map_root s' pml4) l fs'
    \<and> mset (tables (mem s') (PHYSICAL_ADDRESS_OFFSET s) 4 (map_root s pml4) @ phys_frames (PHYSICAL_ADDRESS_OFFSET s) fs')
      = mset (tables (mem s) (PHYSICAL_ADDRESS_OFFSET s) 4 (map_root s pml4) @ phys_frames (PHYSICAL_ADDRESS_OFFSET s) fs)
    \<and> changed_only (set (tables (mem s) (PHYSICAL_ADDRESS_OFFSET s) 4 (map_root s pml4)
        @ phys_frames (PHYSICAL_ADDRESS_OFFSET s) fs)) cap l (mem s) (mem s')"
proof -
  have "mapped cap l (map_root s pml4) (page_path a) (Some (page_table_phys_address frame)) s fs s'"
    using map_to_page_cases [OF assms(1,2), of a frame] assms(3,4) by (auto split: if_splits)
  then obtain fs' where "pt_step cap l 4 (map_root s pml4) s fs s' fs'" by (auto simp: mapped_def)
  then show ?thesis
    by (intro exI [of _ fs']) (auto simp: pt_step_def Let_def same_regs_def map_root_def)
qed

theorem map_to_page_conserves_witness:
  "\<exists>fs'. mset (tables (mem small_mapped) 0xffff800000000000 4 0xffff800000104000 @ phys_frames 0xffff800000000000 fs')
    = mset [0xffff800000103000, 0xffff800000102000, 0xffff800000101000, 0xffff800000100000, 0xffff800000104000]"
  using map_to_page_conserves [OF small_rooted_ok(1,2) small_map] small_rooted_ok(4-6) by auto

lemma unmap_null: "fst (unmap_page s a) = 0"
  by (simp add: unmap_page_def Let_def)

lemma unmap_step:
  assumes ok: "pt_ok cap (mem s) (PHYSICAL_ADDRESS_OFFSET s) 4 (active_pml4_table s) l fs"
    and nf: "null_free (mem s) (PHYSICAL_ADDRESS_OFFSET s) 4 (active_pml4_table s)"
  shows "pt_step cap l 4 (active_pml4_table s) s fs (snd (unmap_page s a)) fs
    \<and> (if pt_walk (mem s) (PHYSICAL_ADDRESS_OFFSET s) (active_pml4_table s) (page_path a) \<in> {None, Some 0}
       then snd (unmap_page s a) = s
       else mapped cap l (active_pml4_table s) (page_path a) None s fs (snd (unmap_page s a)))"
proof -
  let ?e = "fetch_loop s (active_pml4_table s) (page_path a)"
  have w: "pt_walk (mem s) (PHYSICAL_ADDRESS_OFFSET s) (active_pml4_table s) (page_path a)
      = (if ?e = 0 then None else Some (page_table_phys_address (load64 (mem s) ?e)))"
    using fetch_loop_walk [of s "page_path a" "active_pml4_table s"] page_path_index [of a] nf
    by (simp add: index_path_def)
  have refl: "pt_step cap l 4 (active_pml4_table s) s fs s fs"
    using ok by (simp add: pt_step_def changed_only_def)
  show ?thesis
  proof (cases "?e = 0 \<or> page_table_phys_address (load64 (mem s) ?e) = 0")
    case True
    then show ?thesis using refl w by (auto simp: unmap_page_def fetch_path Let_def)
  next
    case False
    then have u: "snd (unmap_page s a) = s\<lparr>mem := store64 (mem s) ?e 0\<rparr>"
      by (simp add: unmap_page_def fetch_path Let_def)
    have "pt_step cap l 4 (active_pml4_table s) s fs (s\<lparr>mem := store64 (mem s) ?e 0\<rparr>) fs"
      "mapped cap l (active_pml4_table s) (page_path a) None s fs (s\<lparr>mem := store64 (mem s) ?e 0\<rparr>)"
      using fetch_loop_step [where p = "page_path a" and v = 0 and s = s and t = "active_pml4_table s"]
        fetch_loop_store [where p = "page_path a" and v = 0 and s = s and t = "active_pml4_table s"] ok False
      by simp_all
    then show ?thesis using False w unfolding u by auto
  qed
qed

text \<open>Taking a free frame off the list leaves the tables as they are.\<close>

lemma pop_pt_ok:
  assumes ok: "pt_ok cap m off n t l fs"
  shows "tables (snd (pop_frame_list m l)) off n t = tables m off n t"
    and "same_walks n off t m (snd (pop_frame_list m l))"
    and "fs = f # fs1 \<Longrightarrow> fst (pop_frame_list m l) = f \<and> pt_ok cap (snd (pop_frame_list m l)) off n t l fs1"
proof -
  have "changed_only {} cap l m (snd (pop_frame_list m l))"
    using ffl.pop_outside [of _ l cap m] by (simp add: changed_only_def)
  then have same: "same_on (set (tables m off n t)) m (snd (pop_frame_list m l))"
    by (rule changed_same) (auto intro!: pt_ok_apart_list [OF ok])
  show ts: "tables (snd (pop_frame_list m l)) off n t = tables m off n t"
    using same by (rule tables_same)
  show "same_walks n off t m (snd (pop_frame_list m l))"
    using walk_same same by (auto simp: same_walks_def index_path_def)
  show "fst (pop_frame_list m l) = f \<and> pt_ok cap (snd (pop_frame_list m l)) off n t l fs1" if "fs = f # fs1"
  proof -
    have "frame_list cap m l (f # fs1)" "list_all frame_ok fs1"
      using ok that by (auto simp: pt_ok_iff)
    then show ?thesis
      using ffl.pop_rep by (intro conjI pt_ok_conserve [OF ok]) (auto simp: ts that)
  qed
qed

text \<open>C19. How many frames \<open>map_to_page\<close> needs, and what it does without them: if at least as many frames are free as tables are missing on
  the way to the page, it succeeds and takes exactly that many; with fewer it answers null, for every page and every frame, and no
  translation has changed, since a table that was created on the way is empty.\<close>
theorem map_to_page_exhausted:
  assumes "pt_ok cap (mem s) (PHYSICAL_ADDRESS_OFFSET s) 4 (map_root s pml4) l fs" "map_root s pml4 \<noteq> 0"
    and "n = tables_missing (mem s) (PHYSICAL_ADDRESS_OFFSET s) (map_root s pml4) (page_path a)"
  shows "if n \<le> length fs then fst (map_to_page s a frame l pml4) = a
      \<and> unat (ffl_numFrames (mem (snd (map_to_page s a frame l pml4))) l) = length fs - n
    else fst (map_to_page s a frame l pml4) = 0
      \<and> pt_walk (mem (snd (map_to_page s a frame l pml4))) (PHYSICAL_ADDRESS_OFFSET s) (map_root s pml4) (page_path b)
        = pt_walk (mem s) (PHYSICAL_ADDRESS_OFFSET s) (map_root s pml4) (page_path b)"
  using map_to_page_count [OF assms(1,2), of a frame] unfolding assms(3) by (auto simp: unmapped_def same_walks_def split: if_splits)

text \<open>With no free frame and an empty root, and with four free frames, of which three become tables.\<close>

theorem map_to_page_exhausted_witness:
  "fst (map_to_page tiny_rooted 0x400000 0x200000 0x5000 0) = 0
   \<and> pt_walk (mem (snd (map_to_page tiny_rooted 0x400000 0x200000 0x5000 0))) (PHYSICAL_ADDRESS_OFFSET tiny_rooted)
       (map_root tiny_rooted 0) (page_path 0x1000)
     = pt_walk (mem tiny_rooted) (PHYSICAL_ADDRESS_OFFSET tiny_rooted) (map_root tiny_rooted 0) (page_path 0x1000)
   \<and> unat (ffl_numFrames (mem small_mapped) 0x5000) = 1"
proof -
  have "tables_missing (mem small_rooted) (PHYSICAL_ADDRESS_OFFSET small_rooted) (map_root small_rooted 0) (page_path 0x400000) = 3"
    using missing_zero_table [OF small_rooted_ok(7)] page_path_index [of "0x400000"] by (simp add: index_path_def)
  then show ?thesis
    using map_to_page_exhausted [OF tiny_rooted_ok(1,2) refl, of "0x400000" "0x200000" "0x1000"] tiny_rooted_ok(3)
      map_to_page_exhausted [OF small_rooted_ok(1,2) refl, of "0x400000" "0x200000" "0x1000"]
    by (simp add: small_mapped_def split: if_splits)
qed

text \<open>C21. \<open>unmap_page\<close> removes exactly the translation of its page and keeps the table tree; but it answers null
  whether or not there was a mapping, so the frame that the header promises to return is lost to the caller.\<close>
theorem unmap_page_removes:
  assumes "pt_ok cap (mem s) (PHYSICAL_ADDRESS_OFFSET s) 4 (active_pml4_table s) l fs"
    "null_free (mem s) (PHYSICAL_ADDRESS_OFFSET s) 4 (active_pml4_table s)"
    "pt_walk (mem s) (PHYSICAL_ADDRESS_OFFSET s) (active_pml4_table s) (page_path a) = Some f" "f \<noteq> 0"
  shows "fst (unmap_page s a) = 0
    \<and> pt_step cap l 4 (active_pml4_table s) s fs (snd (unmap_page s a)) fs
    \<and> pt_walk (mem (snd (unmap_page s a))) (PHYSICAL_ADDRESS_OFFSET s) (active_pml4_table s) (page_path b)
      = (if page_path b = page_path a then None
         else pt_walk (mem s) (PHYSICAL_ADDRESS_OFFSET s) (active_pml4_table s) (page_path b))"
  using unmap_step [OF assms(1,2), of a] unmap_null assms(3,4) by (auto simp: mapped_def)

theorem unmap_page_removes_witness:
  "fst (unmap_page small_mapped 0x400000) = 0
   \<and> pt_walk (mem (snd (unmap_page small_mapped 0x400000))) (PHYSICAL_ADDRESS_OFFSET small_mapped)
       (active_pml4_table small_mapped) (page_path 0x400000) = None"
proof -
  obtain fs where "pt_ok 9 (mem small_mapped) (PHYSICAL_ADDRESS_OFFSET small_mapped) 4 (active_pml4_table small_mapped) 0x5000 fs"
    using small_mapped_ok(1) by blast
  from unmap_page_removes [OF this small_mapped_ok(2,3), of "0x400000"] show ?thesis by simp
qed

text \<open>\<open>fetch_page_table_entry\<close> implements the walk: it answers null exactly when the page is not mapped, and
  otherwise the entry whose frame the walk gives.\<close>
theorem fetch_is_walk:
  assumes "null_free (mem s) (PHYSICAL_ADDRESS_OFFSET s) 4 (active_pml4_table s)"
  shows "pt_walk (mem s) (PHYSICAL_ADDRESS_OFFSET s) (active_pml4_table s) (page_path a)
    = (if fetch_page_table_entry s a = 0 then None
       else Some (page_table_phys_address (load64 (mem s) (fetch_page_table_entry s a))))"
  using fetch_loop_walk [of s "page_path a" "active_pml4_table s"] page_path_index [of a] assms
  by (simp add: fetch_path index_path_def)

theorem fetch_is_walk_witness:
  "fetch_page_table_entry small_mapped 0x400000 \<noteq> 0
   \<and> page_table_phys_address (load64 (mem small_mapped) (fetch_page_table_entry small_mapped 0x400000)) = 0x200000"
  using fetch_is_walk [OF small_mapped_ok(2), of "0x400000"] small_mapped_ok(3) by (auto split: if_splits)

text \<open>C20. \<open>create_kernel_page_tables\<close>, given four free frames, builds a root that maps exactly the pages of the first
  two megabytes to themselves, page 0 excepted, and no other page: three of the frames are enough for the
  511 calls of \<open>map_to_page\<close>.\<close>
theorem create_kernel_page_tables_identity:
  assumes "free_ok cap (mem s) (PHYSICAL_ADDRESS_OFFSET s) l (f # fs)" "3 \<le> length fs" "f + PHYSICAL_ADDRESS_OFFSET s \<noteq> 0"
  shows "fst (create_kernel_page_tables s l) = f
    \<and> pt_walk (mem (snd (create_kernel_page_tables s l))) (PHYSICAL_ADDRESS_OFFSET s) (f + PHYSICAL_ADDRESS_OFFSET s) (page_path b)
      = (if 0x1000 \<le> page_of b \<and> page_of b < 0x200000 then Some (page_of b) else None)"
proof -
  let ?t = "f + PHYSICAL_ADDRESS_OFFSET s"
  obtain s1 where c: "create_new_page_table s l = (f, s1)" "same_regs s s1"
      "pt_ok cap (mem s1) (PHYSICAL_ADDRESS_OFFSET s) 4 ?t l fs"
      "\<forall>p. index_path 4 p \<longrightarrow> pt_walk (mem s1) (PHYSICAL_ADDRESS_OFFSET s) ?t p = None"
    using create_root [OF assms(1)] by blast
  define s2 where "s2 = say_serial (''pml4 pointer '' @ [CHR 0x0A]) (say_serial (''created pml4 '' @ [CHR 0x0A]) s1)"
  have s2: "mem s2 = mem s1" "PHYSICAL_ADDRESS_OFFSET s2 = PHYSICAL_ADDRESS_OFFSET s"
    using c(2) by (simp_all add: s2_def same_regs_def)
  have k: "create_kernel_page_tables s l = (f, identity_map_loop s2 (low_page 1) l ?t)"
    using c(1,2) by (simp add: create_kernel_page_tables_def s2_def Let_def phys_to_virt_translation_def same_regs_def)
  have "pt_walk (mem (identity_map_loop s2 (low_page 1) l ?t)) (PHYSICAL_ADDRESS_OFFSET s2) ?t (page_path b)
      = (if 1 \<le> unat (page_of b) div 4096 \<and> unat (page_of b) div 4096 < 512 then Some (page_of b) else None)"
    using c(3,4) assms(2,3) by (intro identity_map_from [where fs = fs]) (auto simp: s2)
  moreover have "1 \<le> unat (page_of b) div 4096 \<and> unat (page_of b) div 4096 < 512 \<longleftrightarrow> 0x1000 \<le> page_of b \<and> page_of b < 0x200000"
    using unat_page_of [of b] by (simp add: word_le_nat_alt word_less_nat_alt) linarith
  ultimately show ?thesis
    unfolding k by (simp add: s2)
qed

theorem create_kernel_page_tables_identity_witness:
  "fst (create_kernel_page_tables small_state 0x5000) = 0x104000
   \<and> pt_walk (mem (snd (create_kernel_page_tables small_state 0x5000))) 0xffff800000000000 0xffff800000104000
       (page_path 0x1ff000) = Some 0x1ff000
   \<and> pt_walk (mem (snd (create_kernel_page_tables small_state 0x5000))) 0xffff800000000000 0xffff800000104000
       (page_path 0x200000) = None"
  using create_kernel_page_tables_identity [OF small_free, of "0x1ff000"]
    create_kernel_page_tables_identity [OF small_free, of "0x200000"]
  by (simp add: small_offset page_of_def)

text \<open>Two readings of an entry and of \<open>cr3\<close> do not agree: the mask an entry is written with keeps bit 51 of a frame,
  which \<open>page_table_phys_address\<close> drops, and \<open>map_to_page\<close> takes \<open>cr3\<close> with its low flag bits where the lookup
  clears them. A frame is read back as written exactly when bit 51 and the bits below 12 and above 51 are clear, and the
  two start from the same table exactly when the low twelve bits of \<open>cr3\<close> are clear.\<close>
theorem entry_and_root_masks:
  "(page_table_phys_address ((f AND PAGE_ADDR_MASK) OR create_basic_page_attributes) = f
      \<longleftrightarrow> f AND NOT (PAGE_ADDR_MASK AND NOT (push_bit 51 1)) = 0)
    \<and> (map_root s 0 = active_pml4_table s \<longleftrightarrow> cr3 s AND 0xFFF = 0)"
proof
  have e: "NOT (PAGE_ADDR_MASK AND NOT (push_bit 51 1)) = NOT (push_bit 12 (mask 39)) "
    by (simp add: PAGE_ADDR_MASK_def mask_eq_exp_minus_1)
  have "page_table_phys_address f = f \<longleftrightarrow> f AND NOT (push_bit 12 (mask 39)) = 0"
    by (auto simp: bit_eq_iff bit_phys_address bit_and_iff bit_not_iff bit_push_bit_iff bit_mask_iff)
  then show "page_table_phys_address ((f AND PAGE_ADDR_MASK) OR create_basic_page_attributes) = f
      \<longleftrightarrow> f AND NOT (PAGE_ADDR_MASK AND NOT (push_bit 51 1)) = 0"
    by (simp only: created_phys e)
  have "(cr3 s AND NOT 0xFFF) + (cr3 s AND 0xFFF) = (cr3 s AND NOT 0xFFF) OR (cr3 s AND 0xFFF)"
    by (rule disjunctive_add) (simp only: bit_and_iff bit_not_iff, blast)
  also have "\<dots> = cr3 s"
    by (rule bit_word_eqI) (simp only: bit_and_iff bit_not_iff bit_or_iff possible_bit_word, blast)
  finally have split: "cr3 s = (cr3 s AND NOT 0xFFF) + (cr3 s AND 0xFFF)" ..
  show "map_root s 0 = active_pml4_table s \<longleftrightarrow> cr3 s AND 0xFFF = 0"
    unfolding map_root_def active_pml4_table_def
    by (subst (1) split) simp
qed

end
