(* ===== verification/Spinlock.thy ===== *)
theory Spinlock
  imports Machine
begin

text \<open>
  Spin locks, \<^verbatim>\<open>kernel/src/klibc/spinlock.c\<close> and \<^verbatim>\<open>spinlock.asm\<close>. The assembler routines are
  modelled instruction by instruction, for any number of processors that share the memory, as the
  step relation \<open>spin_step\<close>; what one processor sees of them is the pair of functions
  \<open>acquire_spinlock\<close> and \<open>release_spinlock\<close>, whose contract is the locale \<open>spin_lock\<close>.
\<close>

section \<open>The instructions\<close>

text \<open>
  The points of \<open>_acquire_spinlock\<close> before its \<open>lock bts\<close>, \<open>pause\<close> and \<open>test\<close>, and the two places
  outside of it: not using the lock, and holding it between \<open>ret\<close> and \<open>_release_spinlock\<close>.
\<close>

datatype point = Outside | Bts | Pause | Test | Held

record cpu =
  point :: point
  rdi :: u64
  rax :: u64

record cpus =
  shared :: memory
  cpu_of :: "nat \<Rightarrow> cpu"

definition set_cpu :: "nat \<Rightarrow> cpu \<Rightarrow> cpus \<Rightarrow> cpus" where
  "set_cpu i c s = s\<lparr>cpu_of := (cpu_of s)(i := c)\<rparr>"

text \<open>
  The steps of processor \<open>i\<close> on the lock at \<open>l\<close>. A call passes the lock in \<open>rdi\<close> and leaves in
  \<open>rax\<close> whatever the caller had there: the routine does not set it before the slow path reads it.
\<close>

inductive spin_step :: "u64 \<Rightarrow> nat \<Rightarrow> cpus \<Rightarrow> cpus \<Rightarrow> bool" for l i where
  call: "point (cpu_of s i) = Outside \<Longrightarrow> spin_step l i s (set_cpu i \<lparr>point = Bts, rdi = l, rax = r\<rparr> s)"
| bts_clear: "point (cpu_of s i) = Bts \<Longrightarrow> \<not> bit (load32 (shared s) (rdi (cpu_of s i))) 0 \<Longrightarrow>
    spin_step l i s (set_cpu i ((cpu_of s i)\<lparr>point := Held, rax := 0\<rparr>)
      (s\<lparr>shared := store32 (shared s) (rdi (cpu_of s i)) (load32 (shared s) (rdi (cpu_of s i)) OR 1)\<rparr>))"
| bts_set: "point (cpu_of s i) = Bts \<Longrightarrow> bit (load32 (shared s) (rdi (cpu_of s i))) 0 \<Longrightarrow>
    spin_step l i s (set_cpu i ((cpu_of s i)\<lparr>point := Pause\<rparr>)
      (s\<lparr>shared := store32 (shared s) (rdi (cpu_of s i)) (load32 (shared s) (rdi (cpu_of s i)) OR 1)\<rparr>))"
| pause: "point (cpu_of s i) = Pause \<Longrightarrow> spin_step l i s (set_cpu i ((cpu_of s i)\<lparr>point := Test\<rparr>) s)"
| test_set: "point (cpu_of s i) = Test \<Longrightarrow> load32 (shared s) (rax (cpu_of s i)) AND 1 \<noteq> 0 \<Longrightarrow>
    spin_step l i s (set_cpu i ((cpu_of s i)\<lparr>point := Pause\<rparr>) s)"
| test_clear: "point (cpu_of s i) = Test \<Longrightarrow> load32 (shared s) (rax (cpu_of s i)) AND 1 = 0 \<Longrightarrow>
    spin_step l i s (set_cpu i ((cpu_of s i)\<lparr>point := Bts\<rparr>) s)"
| release: "point (cpu_of s i) = Held \<Longrightarrow>
    spin_step l i s (set_cpu i ((cpu_of s i)\<lparr>point := Outside\<rparr>)
      (s\<lparr>shared := store32 (shared s) (rdi (cpu_of s i)) 0\<rparr>))"

inductive_cases spin_stepE: "spin_step l i s s'"

text \<open>Any processor may move next.\<close>

inductive spin_run :: "u64 \<Rightarrow> cpus \<Rightarrow> cpus \<Rightarrow> bool" for l where
  stop: "spin_run l s s"
| move: "spin_run l s t \<Longrightarrow> spin_step l i t u \<Longrightarrow> spin_run l s u"

definition spin_start :: "memory \<Rightarrow> u64 \<Rightarrow> cpus" where
  "spin_start m l = \<lparr>shared = store32 m l 0, cpu_of = (\<lambda>_. \<lparr>point = Outside, rdi = 0, rax = 0\<rparr>)\<rparr>"

section \<open>Mutual exclusion\<close>

text \<open>Every processor inside the routines was given this lock, and the lock is taken exactly when one holds it.\<close>

definition spin_inv :: "u64 \<Rightarrow> cpus \<Rightarrow> bool" where
  "spin_inv l s \<longleftrightarrow>
     (\<forall>i. point (cpu_of s i) \<noteq> Outside \<longrightarrow> rdi (cpu_of s i) = l)
     \<and> (\<forall>i j. point (cpu_of s i) = Held \<and> point (cpu_of s j) = Held \<longrightarrow> i = j)
     \<and> (bit (load32 (shared s) l) 0 \<longleftrightarrow> (\<exists>i. point (cpu_of s i) = Held))"

lemma bit_or_1: "bit (w OR 1 :: u32) 0"
  by (simp add: bit_or_iff)

lemma spin_inv_move:
  assumes inv: "spin_inv l s" and c: "point c \<noteq> Held" "point (cpu_of s i) \<noteq> Held" "point c \<noteq> Outside \<Longrightarrow> rdi c = l"
    and m: "bit (load32 m l) 0 = bit (load32 (shared s) l) 0"
  shows "spin_inv l (set_cpu i c (s\<lparr>shared := m\<rparr>))"
proof -
  have "point (cpu_of (set_cpu i c (s\<lparr>shared := m\<rparr>)) j) = Held \<longleftrightarrow> point (cpu_of s j) = Held" for j
    using c by (simp add: set_cpu_def)
  then show ?thesis
    using inv c(3) m unfolding spin_inv_def by (simp add: set_cpu_def)
qed

lemmas spin_inv_stay = spin_inv_move [where m = "shared s" and s = s for s, simplified]

lemma spin_inv_step:
  assumes inv: "spin_inv l s" and step: "spin_step l i s s'"
  shows "spin_inv l s'"
proof -
  have r: "rdi (cpu_of s i) = l" if "point (cpu_of s i) \<noteq> Outside"
    using inv that by (simp add: spin_inv_def)
  from step show ?thesis
  proof (cases rule: spin_step.cases)
    case bts_clear
    then have none: "\<And>j. point (cpu_of s j) \<noteq> Held" and l: "rdi (cpu_of s i) = l"
      using inv r by (simp_all add: spin_inv_def)
    have "point (cpu_of s' j) = Held \<longleftrightarrow> j = i" for j
      using none by (simp add: bts_clear set_cpu_def)
    moreover have "bit (load32 (shared s') l) 0"
      by (simp add: bts_clear set_cpu_def l mem_simps bit_or_1)
    moreover have "rdi (cpu_of s' j) = l" if "point (cpu_of s' j) \<noteq> Outside" for j
      using that inv l by (simp add: bts_clear set_cpu_def spin_inv_def split: if_splits)
    ultimately show ?thesis unfolding spin_inv_def by simp
  next
    case release
    then have "\<And>j. point (cpu_of s j) = Held \<Longrightarrow> j = i" and l: "rdi (cpu_of s i) = l"
      using inv r by (auto simp: spin_inv_def)
    then have "point (cpu_of s' j) \<noteq> Held" for j
      by (auto simp: release set_cpu_def)
    moreover have "\<not> bit (load32 (shared s') l) 0"
      by (simp add: release set_cpu_def l mem_simps)
    moreover have "rdi (cpu_of s' j) = l" if "point (cpu_of s' j) \<noteq> Outside" for j
      using that inv by (simp add: release set_cpu_def spin_inv_def split: if_splits)
    ultimately show ?thesis unfolding spin_inv_def by simp
  next
    case bts_set
    then show ?thesis
      using r by (simp add: spin_inv_move [OF inv] mem_simps bit_or_1)
  qed (use inv r in \<open>simp_all add: spin_inv_stay\<close>)
qed

lemma spin_inv_start: "spin_inv l (spin_start m l)"
  by (simp add: spin_inv_def spin_start_def mem_simps)

lemma spin_inv_run: "spin_run l s t \<Longrightarrow> spin_inv l s \<Longrightarrow> spin_inv l t"
  by (induction rule: spin_run.induct) (auto intro: spin_inv_step)

section \<open>The slow path\<close>

text \<open>
  A processor in the slow path looks at the word that \<open>rax\<close> names. While its lowest bit is set
  the processor stays there, whatever happens to the lock.
\<close>

definition watching :: "u64 \<Rightarrow> nat \<Rightarrow> cpus \<Rightarrow> bool" where
  "watching l i s \<longleftrightarrow> (point (cpu_of s i) = Pause \<or> point (cpu_of s i) = Test)
     \<and> sep (rax (cpu_of s i)) 4 l 4 \<and> bit (load32 (shared s) (rax (cpu_of s i))) 0"

lemma and_1_bit: "(w AND 1 \<noteq> (0 :: u32)) = bit w 0"
  by (simp add: bit_iff_odd and_one_eq odd_iff_mod_2_eq_one)

lemma watching_step:
  assumes inv: "spin_inv l s" and w: "watching l i s" and step: "spin_step l j s s'"
  shows "watching l i s'"
proof -
  have r: "rdi (cpu_of s j) = l" if "point (cpu_of s j) \<noteq> Outside"
    using inv that by (simp add: spin_inv_def)
  from step show ?thesis
  proof (cases rule: spin_step.cases)
    case test_clear
    then show ?thesis
      using w and_1_bit [of "load32 (shared s) (rax (cpu_of s j))"] by (cases "i = j") (auto simp: watching_def set_cpu_def)
  qed (use w r in \<open>auto simp: watching_def set_cpu_def mem_simps\<close>)
qed

section \<open>What one processor sees\<close>

text \<open>
  With no other processor the routine returns at once when the lock is free and never when it is
  taken, so that \<^term>\<open>None\<close> stands for not returning. The lock word is given by its value.
\<close>

definition acquire_spinlock :: "u32 \<Rightarrow> u32 option" where
  "acquire_spinlock spin = (if bit spin 0 then None else Some (spin OR 1))"

definition release_spinlock :: "u32 \<Rightarrow> u32" where
  "release_spinlock spin = 0"

definition acquire_at :: "memory \<Rightarrow> u64 \<Rightarrow> memory option" where
  "acquire_at m a = map_option (store32 m a) (acquire_spinlock (load32 m a))"

definition release_at :: "memory \<Rightarrow> u64 \<Rightarrow> memory" where
  "release_at m a = store32 m a (release_spinlock (load32 m a))"

inductive own_run :: "u64 \<Rightarrow> nat \<Rightarrow> cpus \<Rightarrow> cpus \<Rightarrow> bool" for l i where
  own_stop: "own_run l i s s"
| own_move: "own_run l i s t \<Longrightarrow> spin_step l i t u \<Longrightarrow> own_run l i s u"

lemma taken_never_returns:
  assumes "own_run l i s t" "point (cpu_of s i) = Bts" "rdi (cpu_of s i) = l" "bit (load32 (shared s) l) 0"
  shows "point (cpu_of t i) \<in> {Bts, Pause, Test} \<and> rdi (cpu_of t i) = l \<and> bit (load32 (shared t) l) 0"
  using assms
proof (induction rule: own_run.induct)
  case (own_move s t u)
  then have t: "point (cpu_of t i) \<in> {Bts, Pause, Test}" "rdi (cpu_of t i) = l" "bit (load32 (shared t) l) 0"
    by auto
  from own_move.hyps(2) show ?case
    by (cases rule: spin_step.cases) (use t in \<open>auto simp: set_cpu_def mem_simps bit_or_1\<close>)
qed simp

lemma free_returns:
  assumes "point (cpu_of s i) = Bts" "rdi (cpu_of s i) = l" "\<not> bit (load32 (shared s) l) 0" "spin_step l i s t"
  shows "point (cpu_of t i) = Held \<and> acquire_at (shared s) l = Some (shared t)"
  using assms(4) by (cases rule: spin_step.cases)
    (use assms in \<open>auto simp: set_cpu_def acquire_at_def acquire_spinlock_def\<close>)

section \<open>The contract\<close>

locale spin_lock =
  fixes acquire :: "'l \<Rightarrow> 'l option"
    and release :: "'l \<Rightarrow> 'l"
    and free :: "'l \<Rightarrow> bool"
  assumes acquire_free: "free w \<Longrightarrow> \<exists>w'. acquire w = Some w' \<and> \<not> free w'"
    and acquire_taken: "\<not> free w \<Longrightarrow> acquire w = None"
    and release_free: "free (release w)"
begin

text \<open>A critical section that keeps the lock runs exactly when the lock is free, and frees it.\<close>

lemma section_returns:
  "(\<exists>w'. map_option release (acquire w) = Some w') \<longleftrightarrow> free w"
  using acquire_free [of w] acquire_taken [of w] by (cases "free w") auto

lemma not_reentrant: "acquire w = Some w' \<Longrightarrow> acquire w' = None"
  using acquire_free [of w] acquire_taken by (cases "free w") auto

lemma free_after: "map_option release (acquire w) = Some w' \<Longrightarrow> free w'"
  using release_free by auto

end

interpretation word_lock: spin_lock acquire_spinlock release_spinlock "\<lambda>w. \<not> bit w 0"
  by unfold_locales (auto simp: acquire_spinlock_def release_spinlock_def bit_or_1)

interpretation memory_lock: spin_lock "\<lambda>m. acquire_at m a" "\<lambda>m. release_at m a" "\<lambda>m. \<not> bit (load32 m a) 0" for a
  by unfold_locales (auto simp: acquire_at_def release_at_def acquire_spinlock_def release_spinlock_def bit_or_1 mem_simps)

section \<open>Properties\<close>

text \<open>C14. Mutual exclusion: from a clear lock, however the instructions of any number of processors interleave, at most
  one of them holds the lock, and the lock's lowest bit says whether one does.\<close>
theorem spinlock_mutual_exclusion:
  assumes "spin_run l (spin_start m l) s"
  shows "(point (cpu_of s i) = Held \<and> point (cpu_of s j) = Held \<longrightarrow> i = j)
    \<and> (bit (load32 (shared s) l) 0 \<longleftrightarrow> (\<exists>i. point (cpu_of s i) = Held))"
  using spin_inv_run [OF assms spin_inv_start] by (simp add: spin_inv_def)

theorem spinlock_mutual_exclusion_witness:
  "\<exists>s. spin_run 0x5000 (spin_start (\<lambda>_. 0) 0x5000) s \<and> point (cpu_of s 0) = Held
    \<and> (\<forall>i. point (cpu_of s i) = Held \<longrightarrow> i = 0)"
proof -
  let ?s0 = "spin_start (\<lambda>_. 0) 0x5000"
  define s1 where "s1 = set_cpu 0 \<lparr>point = Bts, rdi = 0x5000, rax = 0\<rparr> ?s0"
  define s2 where "s2 = set_cpu 0 ((cpu_of s1 0)\<lparr>point := Held, rax := 0\<rparr>)
      (s1\<lparr>shared := store32 (shared s1) (rdi (cpu_of s1 0)) (load32 (shared s1) (rdi (cpu_of s1 0)) OR 1)\<rparr>)"
  have "spin_step 0x5000 0 ?s0 s1"
    unfolding s1_def by (rule call) (simp add: spin_start_def)
  moreover have "spin_step 0x5000 0 s1 s2"
    unfolding s2_def by (rule bts_clear) (simp_all add: s1_def set_cpu_def spin_start_def mem_simps)
  ultimately have run: "spin_run 0x5000 ?s0 s2"
    by (blast intro: stop move)
  have held: "point (cpu_of s2 0) = Held" by (simp add: s2_def set_cpu_def)
  then show ?thesis
    using run spinlock_mutual_exclusion [OF run] by blast
qed

text \<open>C30. The slow path waits on the wrong word: it tests the word that \<open>rax\<close> names, not the lock. A processor that found
  the lock taken and whose \<open>rax\<close> names another word with its lowest bit set stays in the slow path for ever, although the
  lock is released and given to others.\<close>
theorem spinlock_slow_path_stuck:
  assumes "spin_run l s t" "spin_inv l s" "point (cpu_of s i) = Pause" "sep (rax (cpu_of s i)) 4 l 4"
    "bit (load32 (shared s) (rax (cpu_of s i))) 0"
  shows "point (cpu_of t i) = Pause \<or> point (cpu_of t i) = Test"
proof -
  have "watching l i s" using assms(3-5) by (simp add: watching_def)
  with assms(1,2) have "watching l i t"
  proof (induction rule: spin_run.induct)
    case (move s t j u)
    then show ?case using watching_step [OF spin_inv_run [OF move.hyps(1)]] by blast
  qed simp
  then show ?thesis by (simp add: watching_def)
qed

text \<open>The run of the example: the lock is released while processor 1 watches the word at \<open>0x6000\<close>.\<close>

definition stuck_start :: cpus where
  "stuck_start = \<lparr>shared = store32 (store32 (\<lambda>_. 0) 0x6000 1) 0x5000 1,
     cpu_of = (\<lambda>_. \<lparr>point = Outside, rdi = 0, rax = 0\<rparr>)
       (0 := \<lparr>point = Held, rdi = 0x5000, rax = 0\<rparr>, 1 := \<lparr>point = Pause, rdi = 0x5000, rax = 0x6000\<rparr>)\<rparr>"

theorem spinlock_slow_path_stuck_witness:
  "\<exists>t. spin_run 0x5000 stuck_start t \<and> load32 (shared t) 0x5000 = 0
    \<and> (point (cpu_of t 1) = Pause \<or> point (cpu_of t 1) = Test)"
proof -
  define t where "t = set_cpu 0 ((cpu_of stuck_start 0)\<lparr>point := Outside\<rparr>)
      (stuck_start\<lparr>shared := store32 (shared stuck_start) (rdi (cpu_of stuck_start 0)) 0\<rparr>)"
  have "spin_step 0x5000 0 stuck_start t"
    unfolding t_def by (rule release) (simp add: stuck_start_def)
  then have run: "spin_run 0x5000 stuck_start t" by (blast intro: stop move)
  have inv: "spin_inv 0x5000 stuck_start"
    by (simp add: spin_inv_def stuck_start_def mem_simps)
  have "point (cpu_of t 1) = Pause \<or> point (cpu_of t 1) = Test"
    using run inv by (rule spinlock_slow_path_stuck)
      (simp_all add: stuck_start_def sep_def mem_simps)
  moreover have "load32 (shared t) 0x5000 = 0"
    by (simp add: t_def set_cpu_def stuck_start_def mem_simps)
  ultimately show ?thesis using run by blast
qed

end
