(* ===== verification/Vmm.thy ===== *)
theory Vmm
  imports Paging Spinlock
begin

text \<open>
  The kernel heap's address range, \<^verbatim>\<open>kernel/src/memory/heap.c\<close>, and the virtual memory manager,
  \<^verbatim>\<open>kernel/src/memory/vmm.c\<close>, which backs it with frames: clients of the frame allocator, the page
  tables and the spin lock. \<^term>\<open>None\<close> is a call that does not return.
\<close>

section \<open>The heap range\<close>

definition init_heap :: "machine \<Rightarrow> machine" where
  "init_heap s =
     (let s = s\<lparr>K_HEAP_END := KHEAPSTART s\<rparr>;
          s = say (Serial_printf ''heap start %p, heap end: %p'' [Va_int (KHEAPSTART s), Va_int (K_HEAP_END s)]) s
      in say_serial (''Kernel Heap Initialised.'' @ [CHR 0x0A]) s)"

definition grow_heap :: "machine \<Rightarrow> u64 \<Rightarrow> (u64 \<times> machine) option" where
  "grow_heap s sz =
     (let s = say (Serial_printf (''heap'' @ [CHR 0x0A]) []) s
      in case acquire_spinlock (kheap_spinlock s) of
        None \<Rightarrow> None
      | Some lock \<Rightarrow>
          (let s = s\<lparr>kheap_spinlock := lock\<rparr>;
               s = say (Serial_printf (''got lock.'' @ [CHR 0x0A]) []) s;
               start_region = K_HEAP_END s;
               s = say (Serial_printf (''Heap end region: %ulh '' @ [CHR 0x0A]) [Va_int start_region]) s;
               s = s\<lparr>K_HEAP_END := K_HEAP_END s + sz * 0x1000\<rparr>;
               s = s\<lparr>kheap_spinlock := release_spinlock (kheap_spinlock s)\<rparr>;
               s = say (Serial_printf ''ptr: %ulh'' [Va_int (KHEAPSTART s)]) s;
               s = say (Serial_printf ([CHR 0x0A] @ '' heap lock release'' @ [CHR 0x0A]) []) s
           in Some (start_region, s)))"

section \<open>Pages\<close>

definition get_physical_frame_addr :: "machine \<Rightarrow> u64 \<times> machine" where
  "get_physical_frame_addr s =
     (let (frame, m) = pop_frame_list (mem s) (vmm_frameAlloc s) in (frame, s\<lparr>mem := m\<rparr>))"

definition alloc_page :: "machine \<Rightarrow> u64 \<Rightarrow> u64 \<times> machine" where
  "alloc_page s addr =
     (let (frame, s) = get_physical_frame_addr s
      in if frame = 0 then (0, s)
         else if addr = 0
         then (0, say (Serial_printf (''Err: Given address for page is null'' @ [CHR 0x0A]) []) s)
         else map_to_page s addr frame (vmm_frameAlloc s) 0)"

definition init_vmm :: "machine \<Rightarrow> u64 \<Rightarrow> machine" where
  "init_vmm s pmm =
     (let s = s\<lparr>vmm_frameAlloc := pmm\<rparr>;
          (r, s) = alloc_page s (KHEAPSTART s);
          s = (if r = 0 then say (Serial_printf (''Couldn't alloc page at heap start.'' @ [CHR 0x0A]) []) s else s)
      in say_serial (''VMM Initialised.'' @ [CHR 0x0A]) s)"

definition free_page :: "machine \<Rightarrow> u64 \<Rightarrow> machine" where
  "free_page s ptr = s"

text \<open>
  The loops of \<open>mmap\<close> and \<open>munmap\<close> compare addresses, so that a bound in the last page of the address
  space would never be reached.
\<close>

partial_function (option) mmap_loop :: "machine \<Rightarrow> u64 \<Rightarrow> u64 \<Rightarrow> machine option" where
  "mmap_loop s addr bound =
     (if addr < bound then mmap_loop (snd (alloc_page s addr)) (addr + 0x1000) bound else Some s)"

definition mmap :: "machine \<Rightarrow> u64 \<Rightarrow> (u64 \<times> machine) option" where
  "mmap s sz =
     (case grow_heap s sz of
        None \<Rightarrow> None
      | Some (region_start, s) \<Rightarrow>
          if region_start = 0
          then Some (0, say (Serial_printf (''Err: Heap region start is NULL '' @ [CHR 0x0A]) []) s)
          else
            let s = say (Tty_printf ''Region start %ulh'' [Va_int region_start]) s
            in map_option (Pair region_start) (mmap_loop s region_start (region_start + sz)))"

definition munmap_page :: "machine \<Rightarrow> u64 \<Rightarrow> machine" where
  "munmap_page s addr =
     (let (frame, s) = unmap_page s addr
      in if frame \<noteq> 0 then s\<lparr>mem := push_frame_list (mem s) (vmm_frameAlloc s) frame\<rparr>
         else say (Serial_printf ''Error: Couldn't Unmap page at address %ulh'' [Va_int addr]) s)"

partial_function (option) munmap_loop :: "machine \<Rightarrow> u64 \<Rightarrow> u64 \<Rightarrow> machine option" where
  "munmap_loop s addr bound =
     (if addr < bound then munmap_loop (munmap_page s addr) (addr + 0x1000) bound else Some s)"

definition munmap :: "machine \<Rightarrow> u64 \<Rightarrow> u64 \<Rightarrow> machine option" where
  "munmap s ptr sz = munmap_loop s ptr (ptr + sz)"

section \<open>Growing\<close>

lemma grow_heap_returns:
  assumes "\<not> bit (kheap_spinlock s) 0"
  shows "\<exists>s'. grow_heap s sz = Some (K_HEAP_END s, s') \<and> K_HEAP_END s' = K_HEAP_END s + sz * 0x1000
    \<and> kheap_spinlock s' = 0 \<and> mem s' = mem s \<and> cr3 s' = cr3 s \<and> KHEAPSTART s' = KHEAPSTART s
    \<and> PHYSICAL_ADDRESS_OFFSET s' = PHYSICAL_ADDRESS_OFFSET s \<and> vmm_frameAlloc s' = vmm_frameAlloc s"
proof -
  obtain w where "acquire_spinlock (kheap_spinlock s) = Some w"
    using word_lock.acquire_free [OF assms] by blast
  then show ?thesis
    by (simp add: grow_heap_def Let_def release_spinlock_def)
qed

lemma grow_heap_blocks: "bit (kheap_spinlock s) 0 \<Longrightarrow> grow_heap s sz = None"
  using word_lock.acquire_taken [of "kheap_spinlock s"] by (simp add: grow_heap_def)

section \<open>One page\<close>

text \<open>\<open>vmm_ok\<close>: the manager's free list and the tables below \<open>cr3\<close> are in order.\<close>

definition vmm_ok :: "nat \<Rightarrow> machine \<Rightarrow> u64 list \<Rightarrow> bool" where
  "vmm_ok cap s fs \<longleftrightarrow> pt_ok cap (mem s) (PHYSICAL_ADDRESS_OFFSET s) 4 (map_root s 0) (vmm_frameAlloc s) fs
     \<and> map_root s 0 \<noteq> 0"

abbreviation translate :: "machine \<Rightarrow> u64 \<Rightarrow> u64 option" where
  "translate s a \<equiv> pt_walk (mem s) (PHYSICAL_ADDRESS_OFFSET s) (map_root s 0) (page_path a)"

lemma vmm_ok_cong:
  assumes "mem s' = mem s" "PHYSICAL_ADDRESS_OFFSET s' = PHYSICAL_ADDRESS_OFFSET s" "cr3 s' = cr3 s"
    "vmm_frameAlloc s' = vmm_frameAlloc s"
  shows "vmm_ok cap s' fs = vmm_ok cap s fs" "translate s' b = translate s b"
  using assms by (simp_all add: vmm_ok_def map_root_def)

lemma map_root_regs: "same_regs s s' \<Longrightarrow> map_root s' 0 = map_root s 0"
  by (simp add: same_regs_def map_root_def)

text \<open>The memory the manager works on: the tables below \<open>cr3\<close> and the free frames, and the free list.\<close>

abbreviation vmm_pages :: "machine \<Rightarrow> u64 list \<Rightarrow> u64 list" where
  "vmm_pages s fs \<equiv> tables (mem s) (PHYSICAL_ADDRESS_OFFSET s) 4 (map_root s 0) @ phys_frames (PHYSICAL_ADDRESS_OFFSET s) fs"

definition vmm_changes :: "nat \<Rightarrow> machine \<Rightarrow> u64 list \<Rightarrow> machine \<Rightarrow> u64 list \<Rightarrow> bool" where
  "vmm_changes cap s fs s' fs' \<longleftrightarrow> changed_only (set (vmm_pages s fs)) cap (vmm_frameAlloc s) (mem s) (mem s')
     \<and> set (vmm_pages s' fs') \<subseteq> set (vmm_pages s fs)"

text \<open>The registers the manager relies on are kept, and it works on no page but those it worked on before.\<close>

definition vmm_within :: "machine \<Rightarrow> u64 list \<Rightarrow> machine \<Rightarrow> u64 list \<Rightarrow> bool" where
  "vmm_within s fs s' fs' \<longleftrightarrow> set (vmm_pages s' fs') \<subseteq> set (vmm_pages s fs) \<and> cr3 s' = cr3 s
     \<and> PHYSICAL_ADDRESS_OFFSET s' = PHYSICAL_ADDRESS_OFFSET s \<and> KHEAPSTART s' = KHEAPSTART s \<and> vmm_frameAlloc s' = vmm_frameAlloc s"

lemma vmm_within_trans: "vmm_within s fs s' fs' \<Longrightarrow> vmm_within s' fs' s'' fs'' \<Longrightarrow> vmm_within s fs s'' fs''"
  unfolding vmm_within_def by (elim conjE, intro conjI, erule (1) subset_trans [rotated], simp_all)

lemma vmm_within_regs: "same_regs s s' \<Longrightarrow> set (vmm_pages s' fs') \<subseteq> set (vmm_pages s fs) \<Longrightarrow> vmm_within s fs s' fs'"
  by (simp add: vmm_within_def same_regs_def)

lemma alloc_page_some:
  assumes ok: "vmm_ok cap s (f # fs)" and "3 \<le> length fs" "addr \<noteq> 0"
  shows "\<exists>s' fs'. alloc_page s addr = (addr, s') \<and> vmm_ok cap s' fs' \<and> same_regs s s' \<and> vmm_changes cap s (f # fs) s' fs'
    \<and> (\<forall>b. translate s' b = (if page_of b = page_of addr then Some f else translate s b))"
proof -
  define s1 where "s1 = s\<lparr>mem := snd (pop_frame_list (mem s) (vmm_frameAlloc s))\<rparr>"
  note pt = ok [unfolded vmm_ok_def, THEN conjunct1]
  have pop: "fst (pop_frame_list (mem s) (vmm_frameAlloc s)) = f"
    "pt_ok cap (mem s1) (PHYSICAL_ADDRESS_OFFSET s) 4 (map_root s 0) (vmm_frameAlloc s) fs"
    and walks: "same_walks 4 (PHYSICAL_ADDRESS_OFFSET s) (map_root s 0) (mem s) (mem s1)"
    using pop_pt_ok(2,3) [OF pt] by (auto simp: s1_def)
  have f: "frame_ok f" using pt by (simp add: pt_ok_iff)
  have r: "map_root s1 0 = map_root s 0" "same_regs s s1" by (simp_all add: s1_def map_root_def same_regs_def)
  have ok1: "pt_ok cap (mem s1) (PHYSICAL_ADDRESS_OFFSET s1) 4 (map_root s1 0) (vmm_frameAlloc s) fs" "map_root s1 0 \<noteq> 0"
    using pop(2) ok r by (simp_all add: s1_def vmm_ok_def)
  obtain s' where s': "map_to_page s1 addr f (vmm_frameAlloc s) 0 = (addr, s')"
      "mapped cap (vmm_frameAlloc s) (map_root s1 0) (page_path addr) (Some f) s1 fs s'"
    using map_to_page_cases [OF ok1, of addr f] assms(2) frame_ok_phys [OF f] by auto
  then obtain fs' where st: "pt_step cap (vmm_frameAlloc s) 4 (map_root s1 0) s1 fs s' fs'"
    and w: "\<And>p. index_path 4 p \<Longrightarrow> pt_walk (mem s') (PHYSICAL_ADDRESS_OFFSET s1) (map_root s1 0) p
      = (if p = page_path addr then Some f else pt_walk (mem s1) (PHYSICAL_ADDRESS_OFFSET s1) (map_root s1 0) p)"
    by (auto simp: mapped_def)
  have regs: "same_regs s1 s'" using st by (simp add: pt_step_def Let_def)
  note root = map_root_regs [OF same_regs_trans [OF r(2) regs]]
  have same: "PHYSICAL_ADDRESS_OFFSET s1 = PHYSICAL_ADDRESS_OFFSET s" "PHYSICAL_ADDRESS_OFFSET s' = PHYSICAL_ADDRESS_OFFSET s"
    "vmm_frameAlloc s' = vmm_frameAlloc s" "vmm_frameAlloc s1 = vmm_frameAlloc s"
    using regs r(2) by (simp_all add: same_regs_def)
  have "alloc_page s addr = (addr, s')"
    using pop(1) f assms(3) s'(1) by (simp add: alloc_page_def get_physical_frame_addr_def split_beta frame_ok_def s1_def)
  moreover have "vmm_ok cap s' fs'"
    using st ok1(2) by (simp add: vmm_ok_def pt_step_def Let_def same root r(1))
  moreover have "translate s' b = (if page_of b = page_of addr then Some f else translate s b)" for b
    using w [of "page_path b"] walks by (simp add: same root r(1) page_path_eq_iff same_walks_def)
  moreover have "vmm_changes cap s (f # fs) s' fs'"
  proof -
    have "changed_only {} cap (vmm_frameAlloc s) (mem s) (mem s1)"
      using ffl.pop_outside [of _ "vmm_frameAlloc s" cap "mem s"] by (simp add: changed_only_def s1_def)
    moreover have "tables (mem s1) (PHYSICAL_ADDRESS_OFFSET s) 4 (map_root s 0) = tables (mem s) (PHYSICAL_ADDRESS_OFFSET s) 4 (map_root s 0)"
      using pop_pt_ok(1) [OF pt] by (simp add: s1_def)
    then have "changed_only (set (vmm_pages s (f # fs))) cap (vmm_frameAlloc s) (mem s1) (mem s')"
      and ms: "mset (vmm_pages s' fs') = mset (vmm_pages s fs)"
      using st by (auto simp: pt_step_def Let_def same root r(1) elim!: changed_only_mono)
    moreover have "set (vmm_pages s' fs') \<subseteq> set (vmm_pages s (f # fs))"
      using mset_eq_setD [OF ms] by auto
    ultimately show ?thesis
      unfolding vmm_changes_def using changed_only_mono changed_only_trans by (metis empty_subsetI)
  qed
  ultimately show ?thesis using same_regs_trans [OF r(2) regs] by blast
qed

lemma alloc_page_null:
  assumes ok: "vmm_ok cap s (f # fs)"
  shows "fst (alloc_page s 0) = 0 \<and> vmm_ok cap (snd (alloc_page s 0)) fs"
proof -
  note pt = ok [unfolded vmm_ok_def, THEN conjunct1]
  have "frame_ok f" using pt by (simp add: pt_ok_iff)
  moreover have "fst (pop_frame_list (mem s) (vmm_frameAlloc s)) = f"
    "pt_ok cap (snd (pop_frame_list (mem s) (vmm_frameAlloc s))) (PHYSICAL_ADDRESS_OFFSET s) 4 (map_root s 0) (vmm_frameAlloc s) fs"
    using pop_pt_ok(3) [OF pt] by auto
  ultimately show ?thesis
    using ok by (simp add: alloc_page_def get_physical_frame_addr_def split_beta frame_ok_def vmm_ok_def map_root_def)
qed

lemma alloc_page_empty:
  assumes ok: "vmm_ok cap s []"
  shows "fst (alloc_page s addr) = 0 \<and> same_regs s (snd (alloc_page s addr)) \<and> translate (snd (alloc_page s addr)) b = translate s b"
proof -
  note pt = ok [unfolded vmm_ok_def, THEN conjunct1]
  have "frame_list cap (mem s) (vmm_frameAlloc s) []" using pt by (simp add: pt_ok_iff)
  then have "fst (pop_frame_list (mem s) (vmm_frameAlloc s)) = 0" by (rule ffl.pop_empty)
  moreover have "same_walks 4 (PHYSICAL_ADDRESS_OFFSET s) (map_root s 0) (mem s) (snd (pop_frame_list (mem s) (vmm_frameAlloc s)))"
    by (rule pop_pt_ok(2) [OF pt])
  ultimately show ?thesis
    by (simp add: alloc_page_def get_physical_frame_addr_def split_beta same_regs_def map_root_def same_walks_def)
qed

text \<open>Memory apart from the manager's: what is written there changes no table, no translation and no free frame.\<close>

definition off_vmm :: "nat \<Rightarrow> machine \<Rightarrow> u64 list \<Rightarrow> u64 \<Rightarrow> nat \<Rightarrow> bool" where
  "off_vmm cap s fs a n \<longleftrightarrow> (\<forall>t\<in>set (vmm_pages s fs). sep t 4096 a n) \<and> sep (vmm_frameAlloc s) (24 + 8 * cap) a n"

lemma vmm_ok_outside:
  assumes ok: "vmm_ok cap s fs" and regs: "same_regs s s'"
    and t: "\<And>t x. t \<in> set (vmm_pages s fs) \<Longrightarrow> unat (x - t) < 4096 \<Longrightarrow> mem s' x = mem s x"
    and l: "\<And>x. unat (x - vmm_frameAlloc s) < 24 + 8 * cap \<Longrightarrow> mem s' x = mem s x"
  shows "vmm_ok cap s' fs" "vmm_pages s' fs = vmm_pages s fs" "translate s' b = translate s b"
proof -
  have r: "map_root s' 0 = map_root s 0" "PHYSICAL_ADDRESS_OFFSET s' = PHYSICAL_ADDRESS_OFFSET s" "vmm_frameAlloc s' = vmm_frameAlloc s"
    using map_root_regs [OF regs] regs by (simp_all add: same_regs_def)
  have same: "same_on (set (tables (mem s) (PHYSICAL_ADDRESS_OFFSET s) 4 (map_root s 0))) (mem s) (mem s')"
    unfolding same_on_def by (intro ballI allI impI t [symmetric]) auto
  from tables_same [OF this] show "vmm_pages s' fs = vmm_pages s fs" by (simp add: r)
  moreover have "frame_list cap (mem s') (vmm_frameAlloc s) fs = frame_list cap (mem s) (vmm_frameAlloc s) fs"
    by (rule ffl.rep_local) (simp add: l)
  ultimately show "vmm_ok cap s' fs" using ok by (simp add: vmm_ok_def pt_ok_iff r)
  show "translate s' b = translate s b"
    using walk_same [of "mem s" "PHYSICAL_ADDRESS_OFFSET s" "page_path b" "map_root s 0" "mem s'"] same page_path_index [of b]
    by (simp add: r index_path_def)
qed

lemma off_vmm_same:
  assumes "vmm_changes cap s fs s' fs'" "off_vmm cap s fs a n" "unat (x - a) < n"
  shows "mem s' x = mem s x"
  using assms sep_apart [of a n _ 4096 x] sep_apart [of a n "vmm_frameAlloc s" "24 + 8 * cap" x]
  by (auto simp: vmm_changes_def changed_only_def off_vmm_def sep_sym [of a])

section \<open>Ranges\<close>

lemma mmap_one_page:
  assumes ok: "vmm_ok cap s (f # fs)" and n: "3 \<le> length fs" and free: "\<not> bit (kheap_spinlock s) 0"
    and sz: "1 \<le> unat sz" "unat sz \<le> 4096"
    and start: "K_HEAP_END s \<noteq> 0" "unat (K_HEAP_END s) + 4096 < 18446744073709551616"
  shows "\<exists>s' fs'. mmap s sz = Some (K_HEAP_END s, s') \<and> vmm_ok cap s' fs'
    \<and> K_HEAP_END s' = K_HEAP_END s + sz * 0x1000 \<and> kheap_spinlock s' = 0
    \<and> cr3 s' = cr3 s \<and> KHEAPSTART s' = KHEAPSTART s \<and> vmm_frameAlloc s' = vmm_frameAlloc s
    \<and> PHYSICAL_ADDRESS_OFFSET s' = PHYSICAL_ADDRESS_OFFSET s \<and> vmm_changes cap s (f # fs) s' fs'
    \<and> (\<forall>b. translate s' b = (if page_of b = page_of (K_HEAP_END s) then Some f else translate s b))"
proof -
  let ?a = "K_HEAP_END s"
  obtain s1 where g: "grow_heap s sz = Some (?a, s1)" "K_HEAP_END s1 = ?a + sz * 0x1000" "kheap_spinlock s1 = 0"
    "mem s1 = mem s" "cr3 s1 = cr3 s" "KHEAPSTART s1 = KHEAPSTART s"
    "PHYSICAL_ADDRESS_OFFSET s1 = PHYSICAL_ADDRESS_OFFSET s" "vmm_frameAlloc s1 = vmm_frameAlloc s"
    using grow_heap_returns [OF free, of sz] by blast
  define s2 where "s2 = say (Tty_printf ''Region start %ulh'' [Va_int ?a]) s1"
  have ok2: "vmm_ok cap s2 (f # fs)" and tr: "\<And>b. translate s2 b = translate s b"
    using ok vmm_ok_cong [of s2 s] g by (simp_all add: s2_def)
  obtain s3 fs' where p: "alloc_page s2 ?a = (?a, s3)" "vmm_ok cap s3 fs'" "same_regs s2 s3" "vmm_changes cap s2 (f # fs) s3 fs'"
    "\<And>b. translate s3 b = (if page_of b = page_of ?a then Some f else translate s2 b)"
    using alloc_page_some [OF ok2 n start(1)] by blast
  have "?a < ?a + sz" "\<not> ?a + 0x1000 < ?a + sz"
    using sz start unat_add_64 [of ?a sz] unat_add_64 [of ?a "0x1000"] by (simp_all add: word_less_nat_alt)
  then have "mmap_loop s2 ?a (?a + sz) = Some s3"
    by (simp add: mmap_loop.simps p(1))
  then have "mmap s sz = Some (?a, s3)"
    using g(1) start(1) by (simp add: mmap_def s2_def)
  moreover have "vmm_changes cap s (f # fs) s3 fs'"
    using p(4) g by (simp add: vmm_changes_def s2_def map_root_def)
  ultimately show ?thesis
    using p(2,3,5) g tr by (intro exI [of _ s3] exI [of _ fs']) (simp add: same_regs_def s2_def)
qed

definition tables_ok :: "nat \<Rightarrow> machine \<Rightarrow> u64 list \<Rightarrow> bool" where
  "tables_ok cap s fs \<longleftrightarrow>
     pt_ok cap (mem s) (PHYSICAL_ADDRESS_OFFSET s) 4 (active_pml4_table s) (vmm_frameAlloc s) fs
     \<and> null_free (mem s) (PHYSICAL_ADDRESS_OFFSET s) 4 (active_pml4_table s)"

abbreviation lookup_page :: "machine \<Rightarrow> u64 \<Rightarrow> u64 option" where
  "lookup_page s a \<equiv> pt_walk (mem s) (PHYSICAL_ADDRESS_OFFSET s) (active_pml4_table s) (page_path a)"

lemma munmap_page_step:
  assumes ok: "tables_ok cap s fs"
  shows "tables_ok cap (munmap_page s a) fs \<and> same_regs s (munmap_page s a)"
    and "lookup_page (munmap_page s a) b
      = (if page_of b = page_of a \<and> lookup_page s b \<noteq> Some 0 then None else lookup_page s b)"
proof -
  define s1 where "s1 = snd (unmap_page s a)"
  have u: "munmap_page s a = say (Serial_printf ''Error: Couldn't Unmap page at address %ulh'' [Va_int a]) s1"
    using unmap_null [of s a] by (simp add: munmap_page_def split_beta s1_def)
  have pt: "pt_ok cap (mem s) (PHYSICAL_ADDRESS_OFFSET s) 4 (active_pml4_table s) (vmm_frameAlloc s) fs"
    and nf: "null_free (mem s) (PHYSICAL_ADDRESS_OFFSET s) 4 (active_pml4_table s)"
    using ok by (simp_all add: tables_ok_def)
  note um = unmap_step [OF pt nf, of a, folded s1_def]
  have regs: "same_regs s s1" using um by (simp add: pt_step_def Let_def)
  then have r: "active_pml4_table s1 = active_pml4_table s" "PHYSICAL_ADDRESS_OFFSET s1 = PHYSICAL_ADDRESS_OFFSET s"
    "vmm_frameAlloc s1 = vmm_frameAlloc s"
    by (simp_all add: same_regs_def active_pml4_table_def)
  have "mset (tables (mem s1) (PHYSICAL_ADDRESS_OFFSET s) 4 (active_pml4_table s)) = mset (tables (mem s) (PHYSICAL_ADDRESS_OFFSET s) 4 (active_pml4_table s))"
    using um by (simp add: pt_step_def Let_def)
  from mset_eq_setD [OF this] have "null_free (mem s1) (PHYSICAL_ADDRESS_OFFSET s) 4 (active_pml4_table s)"
    using nf by (simp add: null_free_def)
  then show "tables_ok cap (munmap_page s a) fs \<and> same_regs s (munmap_page s a)"
    using um regs by (simp add: tables_ok_def u active_pml4_table_def r pt_step_def Let_def same_regs_def)
  have a: "active_pml4_table (munmap_page s a) = active_pml4_table s" "PHYSICAL_ADDRESS_OFFSET (munmap_page s a) = PHYSICAL_ADDRESS_OFFSET s"
    "mem (munmap_page s a) = mem s1"
    using r by (simp_all add: u active_pml4_table_def)
  show "lookup_page (munmap_page s a) b
      = (if page_of b = page_of a \<and> lookup_page s b \<noteq> Some 0 then None else lookup_page s b)"
  proof (cases "lookup_page s a \<in> {None, Some 0}")
    case True
    then have "s1 = s" using um by simp
    then show ?thesis using True page_path_eq_iff [of b a] by (auto simp: a)
  next
    case False
    then have "mapped cap (vmm_frameAlloc s) (active_pml4_table s) (page_path a) None s fs s1" using um by simp
    then have w: "pt_walk (mem s1) (PHYSICAL_ADDRESS_OFFSET s) (active_pml4_table s) (page_path b)
        = (if page_path b = page_path a then None else lookup_page s b)"
      by (simp add: mapped_def)
    show ?thesis
    proof (cases "page_of b = page_of a")
      case True
      then have p: "page_path b = page_path a" by (simp add: page_path_eq_iff)
      then show ?thesis using w False True unfolding a p by simp
    next
      case nb: False
      then show ?thesis using w by (simp add: a page_path_eq_iff)
    qed
  qed
qed

text \<open>The same step seen by the manager, where \<open>cr3\<close> has no flag bits, and the call for a bucket: it visits one page.\<close>

lemma munmap_page_vmm:
  assumes ok: "vmm_ok cap s fs" and nf: "null_free (mem s) (PHYSICAL_ADDRESS_OFFSET s) 4 (map_root s 0)"
    and root: "active_pml4_table s = map_root s 0"
  shows "vmm_ok cap (munmap_page s a) fs" "vmm_changes cap s fs (munmap_page s a) fs" "same_regs s (munmap_page s a)"
    "translate (munmap_page s a) b = (if page_of b = page_of a \<and> translate s b \<noteq> Some 0 then None else translate s b)"
proof -
  have t: "tables_ok cap s fs" using ok nf root by (simp add: tables_ok_def vmm_ok_def)
  note st = munmap_page_step [OF t, of a]
  show regs: "same_regs s (munmap_page s a)" using st(1) by simp
  have "active_pml4_table (munmap_page s a) = active_pml4_table s"
    using regs by (simp add: same_regs_def active_pml4_table_def)
  note r = this [unfolded root] map_root_regs [OF regs] regs [unfolded same_regs_def, THEN conjunct2, THEN conjunct1]
  have fa: "vmm_frameAlloc (munmap_page s a) = vmm_frameAlloc s" using regs by (simp add: same_regs_def)
  show "vmm_ok cap (munmap_page s a) fs" using st(1) ok by (simp add: tables_ok_def vmm_ok_def r fa)
  show "translate (munmap_page s a) b = (if page_of b = page_of a \<and> translate s b \<noteq> Some 0 then None else translate s b)"
    using st(2) [of b] unfolding r root .
  have m: "mem (munmap_page s a) = mem (snd (unmap_page s a))"
    using unmap_null [of s a] by (simp add: munmap_page_def split_beta)
  have "pt_step cap (vmm_frameAlloc s) 4 (map_root s 0) s fs (snd (unmap_page s a)) fs"
    using unmap_step [of cap s "vmm_frameAlloc s" fs a] t unfolding tables_ok_def root by blast
  then have "changed_only (set (vmm_pages s fs)) cap (vmm_frameAlloc s) (mem s) (mem (munmap_page s a))"
    and ms: "mset (vmm_pages (munmap_page s a) fs) = mset (vmm_pages s fs)"
    by (simp_all add: pt_step_def Let_def m r)
  then show "vmm_changes cap s fs (munmap_page s a) fs"
    using mset_eq_setD [OF ms] by (simp add: vmm_changes_def)
qed

lemma munmap_one_page:
  assumes "1 \<le> unat sz" "unat sz \<le> 4096" "unat ptr + 4096 < 18446744073709551616"
  shows "munmap s ptr sz = Some (munmap_page s ptr)"
proof -
  have "ptr < ptr + sz" "\<not> ptr + 0x1000 < ptr + sz"
    using assms unat_add_64 [of ptr sz] unat_add_64 [of ptr "0x1000"] by (simp_all add: word_less_nat_alt)
  then show ?thesis by (simp add: munmap_def munmap_loop.simps)
qed

lemma pages_from:
  fixes addr bound :: u64
  assumes "unat addr + 4096 < 18446744073709551616" "addr < bound"
  shows "(\<exists>k. unat addr + 4096 * k < unat bound \<and> P (addr + 0x1000 * of_nat k))
    \<longleftrightarrow> P addr \<or> (\<exists>k. unat (addr + 0x1000) + 4096 * k < unat bound \<and> P (addr + 0x1000 + 0x1000 * of_nat k))"
  (is "(\<exists>k. ?Q k) \<longleftrightarrow> _")
proof -
  have "(\<exists>k. ?Q k) \<longleftrightarrow> ?Q 0 \<or> (\<exists>k. ?Q (Suc k))"
    by (metis not0_implies_Suc)
  moreover have "unat (addr + 0x1000) = unat addr + 4096"
    using assms(1) unat_add_64 [of addr "0x1000"] by simp
  ultimately show ?thesis
    using assms(2) by (simp add: word_less_nat_alt algebra_simps)
qed

lemma munmap_loop_ends:
  assumes "tables_ok cap s fs" "unat bound + 4096 < 18446744073709551616"
  shows "\<exists>s'. munmap_loop s addr bound = Some s' \<and> tables_ok cap s' fs \<and> same_regs s s'
    \<and> (\<forall>b. lookup_page s' b
        = (if (\<exists>k. unat addr + 4096 * k < unat bound \<and> page_of b = page_of (addr + 0x1000 * of_nat k))
              \<and> lookup_page s b \<noteq> Some 0 then None else lookup_page s b))"
  using assms
proof (induction "unat bound - unat addr" arbitrary: s addr rule: less_induct)
  case less
  show ?case
  proof (cases "addr < bound")
    case False
    then show ?thesis
      using less.prems(1) by (subst munmap_loop.simps) (simp add: word_less_nat_alt)
  next
    case True
    then have lt: "unat addr < unat bound" by (simp add: word_less_nat_alt)
    have n: "unat (addr + 0x1000) = unat addr + 4096"
      using lt less.prems(2) unat_add_64 [of addr "0x1000"] by simp
    then have dec: "unat bound - unat (addr + 0x1000) < unat bound - unat addr" using lt by linarith
    note step = munmap_page_step [OF less.prems(1), of addr]
    obtain s' where s': "munmap_loop (munmap_page s addr) (addr + 0x1000) bound = Some s'" "tables_ok cap s' fs"
      "same_regs (munmap_page s addr) s'"
      "\<And>b. lookup_page s' b = (if (\<exists>k. unat (addr + 0x1000) + 4096 * k < unat bound
          \<and> page_of b = page_of (addr + 0x1000 + 0x1000 * of_nat k))
        \<and> lookup_page (munmap_page s addr) b \<noteq> Some 0 then None else lookup_page (munmap_page s addr) b)"
      using less.hyps [OF dec conjunct1 [OF step(1)] less.prems(2)] by blast
    have "munmap_loop s addr bound = Some s'"
      using True s'(1) by (subst munmap_loop.simps) simp
    moreover have "lookup_page s' b = (if (\<exists>k. unat addr + 4096 * k < unat bound \<and> page_of b = page_of (addr + 0x1000 * of_nat k))
        \<and> lookup_page s b \<noteq> Some 0 then None else lookup_page s b)" for b
      using pages_from [OF _ True, of "\<lambda>a. page_of b = page_of a"] less.prems(2) lt
      unfolding s'(4) step(2) by auto
    ultimately show ?thesis
      using s'(2,3) step(1) same_regs_trans by blast
  qed
qed

section \<open>Properties\<close>

text \<open>\<open>grow_heap\<close> hands out consecutive ranges: with the lock free it returns the old end, raises the end by \<open>sz\<close> pages
  and leaves the lock free, so that a second call starts exactly where the first range ends; with the lock taken it never returns.\<close>
theorem grow_heap_consecutive:
  assumes "\<not> bit (kheap_spinlock s) 0"
  shows "\<exists>s1 s2. grow_heap s sz = Some (K_HEAP_END s, s1) \<and> grow_heap s1 sz2 = Some (K_HEAP_END s + sz * 0x1000, s2)
    \<and> K_HEAP_END s2 = K_HEAP_END s + sz * 0x1000 + sz2 * 0x1000 \<and> \<not> bit (kheap_spinlock s2) 0 \<and> mem s2 = mem s
    \<and> grow_heap (s\<lparr>kheap_spinlock := kheap_spinlock s OR 1\<rparr>) sz = None"
proof -
  obtain s1 where s1: "grow_heap s sz = Some (K_HEAP_END s, s1)" "K_HEAP_END s1 = K_HEAP_END s + sz * 0x1000"
      "kheap_spinlock s1 = 0" "mem s1 = mem s"
    using grow_heap_returns [OF assms, of sz] by blast
  then obtain s2 where "grow_heap s1 sz2 = Some (K_HEAP_END s1, s2)" "K_HEAP_END s2 = K_HEAP_END s1 + sz2 * 0x1000"
      "kheap_spinlock s2 = 0" "mem s2 = mem s1"
    using grow_heap_returns [of s1 sz2] by auto
  then show ?thesis
    using s1 grow_heap_blocks [of "s\<lparr>kheap_spinlock := kheap_spinlock s OR 1\<rparr>"] bit_or_1 by simp
qed

theorem grow_heap_consecutive_witness:
  "\<exists>s1 s2. grow_heap (boot_state\<lparr>K_HEAP_END := 0x800000\<rparr>) 17 = Some (0x800000, s1)
    \<and> grow_heap s1 1 = Some (0x811000, s2) \<and> K_HEAP_END s2 = 0x812000"
  using grow_heap_consecutive [of "boot_state\<lparr>K_HEAP_END := 0x800000\<rparr>" 17 1] by (auto simp: boot_state_def)

text \<open>\<open>alloc_page\<close> backs a page with the frame on top of the free list when three more frames are there for tables: it
  answers the address, the page translates to that frame and every other page as before. Asked for address 0 it answers null
  but has already taken the frame off the list, and nothing puts it back.\<close>
theorem alloc_page_backs:
  assumes "vmm_ok cap s (f # fs)" "3 \<le> length fs" "addr \<noteq> 0"
  shows "(\<exists>s' fs'. alloc_page s addr = (addr, s') \<and> vmm_ok cap s' fs'
      \<and> (\<forall>b. translate s' b = (if page_of b = page_of addr then Some f else translate s b)))
    \<and> fst (alloc_page s 0) = 0 \<and> vmm_ok cap (snd (alloc_page s 0)) fs"
  using alloc_page_some [OF assms] alloc_page_null [OF assms(1)] by blast

text \<open>\<open>mmap\<close> counts pages but loops over bytes: asked for 1 to 4096 pages it reserves that many pages of the heap range
  and backs only the first of them with a frame; no other page of the range gets a translation.\<close>
theorem mmap_backs_one_page:
  assumes "vmm_ok cap s (f # fs)" "3 \<le> length fs" "\<not> bit (kheap_spinlock s) 0" "1 \<le> unat sz" "unat sz \<le> 4096"
    "K_HEAP_END s \<noteq> 0" "unat (K_HEAP_END s) + 4096 < 18446744073709551616"
  shows "\<exists>s' fs'. mmap s sz = Some (K_HEAP_END s, s') \<and> vmm_ok cap s' fs' \<and> K_HEAP_END s' = K_HEAP_END s + sz * 0x1000
    \<and> (\<forall>b. translate s' b = (if page_of b = page_of (K_HEAP_END s) then Some f else translate s b))"
  using mmap_one_page [OF assms] by blast

text \<open>\<open>munmap\<close> returns, and removes the translation of every page it visits (one per 4096 of its second argument) and of no
  other, a page translated to frame 0 excepted; but not one of the frames goes back: the free list holds the same frames as before.\<close>
theorem munmap_leaks:
  assumes "tables_ok cap s fs" "unat ptr + unat sz + 4096 < 18446744073709551616"
  shows "\<exists>s'. munmap s ptr sz = Some s' \<and> tables_ok cap s' fs
    \<and> (\<forall>b. lookup_page s' b
        = (if (\<exists>k. 4096 * k < unat sz \<and> page_of b = page_of (ptr + 0x1000 * of_nat k)) \<and> lookup_page s b \<noteq> Some 0
           then None else lookup_page s b))"
proof -
  have "unat (ptr + sz) = unat ptr + unat sz" using assms(2) by (simp add: unat_add_64)
  then show ?thesis
    using munmap_loop_ends [OF assms(1), of "ptr + sz" ptr] assms(2) unfolding munmap_def by auto
qed

text \<open>The small machine of the page tables with the manager started on it.\<close>

definition small_vmm :: machine where
  "small_vmm = small_rooted\<lparr>vmm_frameAlloc := 0x5000, K_HEAP_END := 0x400000\<rparr>"

lemma small_vmm_ok: "vmm_ok 9 small_vmm small_frames" "K_HEAP_END small_vmm = 0x400000" "kheap_spinlock small_vmm = 0"
proof -
  have "kheap_spinlock small_rooted = 0"
    using create_root [OF small_free] by (auto simp: small_rooted_def same_regs_def small_state_def init_frame_list_def Let_def boot_state_def)
  then show "vmm_ok 9 small_vmm small_frames" "K_HEAP_END small_vmm = 0x400000" "kheap_spinlock small_vmm = 0"
    using small_rooted_ok(1,2) by (simp_all add: vmm_ok_def small_vmm_def map_root_def)
qed

theorem alloc_page_backs_witness:
  "\<exists>s'. alloc_page small_vmm 0x400000 = (0x400000, s') \<and> translate s' 0x400000 = Some 0x103000"
  using alloc_page_backs [OF small_vmm_ok(1), of "0x400000"] by auto

theorem mmap_backs_one_page_witness:
  "\<exists>s'. mmap small_vmm 17 = Some (0x400000, s') \<and> K_HEAP_END s' = 0x411000 \<and> translate s' 0x400000 = Some 0x103000
    \<and> translate s' 0x401000 = translate small_vmm 0x401000"
  using mmap_backs_one_page [OF small_vmm_ok(1), of 17] by (auto simp: small_vmm_ok(2,3) page_of_def)

theorem munmap_leaks_witness:
  "\<exists>fs s'. tables_ok 9 (small_mapped\<lparr>vmm_frameAlloc := 0x5000\<rparr>) fs
    \<and> munmap (small_mapped\<lparr>vmm_frameAlloc := 0x5000\<rparr>) 0x400000 17 = Some s' \<and> tables_ok 9 s' fs
    \<and> lookup_page (small_mapped\<lparr>vmm_frameAlloc := 0x5000\<rparr>) 0x400000 = Some 0x200000 \<and> lookup_page s' 0x400000 = None"
proof -
  let ?s = "small_mapped\<lparr>vmm_frameAlloc := 0x5000\<rparr>"
  have a: "active_pml4_table ?s = active_pml4_table small_mapped" by (simp add: active_pml4_table_def)
  obtain fs where ok: "tables_ok 9 ?s fs"
    using small_mapped_ok(1,2) by (auto simp: tables_ok_def a)
  have l: "lookup_page ?s 0x400000 = Some 0x200000"
    using small_mapped_ok(3) by (simp add: a)
  obtain s' where "munmap ?s 0x400000 17 = Some s'" "tables_ok 9 s' fs"
    "\<forall>b. lookup_page s' b = (if (\<exists>k. 4096 * k < unat (17 :: u64) \<and> page_of b = page_of (0x400000 + 0x1000 * of_nat k))
        \<and> lookup_page ?s b \<noteq> Some 0 then None else lookup_page ?s b)"
    using munmap_leaks [OF ok, of "0x400000" 17] by auto
  moreover then have "lookup_page s' 0x400000 = None"
    using l by (auto intro: exI [of _ "0 :: nat"])
  ultimately show ?thesis using ok l by blast
qed

end
