(* ===== verification/Bucketalloc.thy ===== *)
theory Bucketalloc
  imports Vmm
begin

text \<open>
  The kernel heap, \<^verbatim>\<open>kernel/src/klibc/bucketalloc.c\<close> and \<^verbatim>\<open>bucketalloc.h\<close>: buckets of pages that are
  tiled by pebbles, a header of 60 bytes followed by the payload. The operations work on the byte
  memory at the offsets of the packed structures; loops over the lists are partial functions, and
  \<^term>\<open>None\<close> is a call that does not return. A stack variable of type \<open>memory_pebble_t\<close> is passed by
  the values of its fields. Every address can be read and written here; which of them are in mapped
  pages is the subject of \<open>Backing\<close>.
\<close>

section \<open>Layout and constants\<close>

definition PAGESIZE :: u64 where "PAGESIZE = 4096"
definition sizeof_bucket :: u64 where "sizeof_bucket = 64"
definition sizeof_pebble :: u64 where "sizeof_pebble = 60"
definition MIN_INITIAL_ALLOC :: u64 where "MIN_INITIAL_ALLOC = 65536 + sizeof_bucket + sizeof_pebble"

text \<open>The character constants \<open>'BUCK'\<close> and \<open>'ROCK'\<close>.\<close>

definition KMALLOC_MAGIC_BUCKET :: u32 where "KMALLOC_MAGIC_BUCKET = 0x4255434B"
definition KMALLOC_MAGIC_PEBBLE :: u32 where "KMALLOC_MAGIC_PEBBLE = 0x524F434B"

definition BUCKET_FLAG_FIRST :: u32 where "BUCKET_FLAG_FIRST = push_bit 0 0"
definition BUCKET_FLAG_BEST :: u32 where "BUCKET_FLAG_BEST = push_bit 0 1"
definition PEBBLE_FLAG_FREE :: u32 where "PEBBLE_FLAG_FREE = push_bit 0 0"
definition PEBBLE_FLAG_IN_USE :: u32 where "PEBBLE_FLAG_IN_USE = push_bit 0 1"
definition PEBBLE_MIN_ALIGN :: u64 where "PEBBLE_MIN_ALIGN = 64"
definition PEBBLE_MIN_SIZE :: u64 where "PEBBLE_MIN_SIZE = 64"

text \<open>The addresses of the fields of \<open>memory_bucket_t\<close> and of \<open>memory_pebble_t\<close>, both packed.\<close>

definition b_magic :: "u64 \<Rightarrow> u64" where "b_magic b = b"
definition b_lflags :: "u64 \<Rightarrow> u64" where "b_lflags b = b + 4"
definition b_largest_free :: "u64 \<Rightarrow> u64" where "b_largest_free b = b + 8"
definition b_size :: "u64 \<Rightarrow> u64" where "b_size b = b + 16"
definition b_spinlock :: "u64 \<Rightarrow> u64" where "b_spinlock b = b + 24"
definition b_first :: "u64 \<Rightarrow> u64" where "b_first b = b + 40"
definition b_prev :: "u64 \<Rightarrow> u64" where "b_prev b = b + 48"
definition b_next :: "u64 \<Rightarrow> u64" where "b_next b = b + 56"

definition p_magic :: "u64 \<Rightarrow> u64" where "p_magic p = p"
definition p_lflags :: "u64 \<Rightarrow> u64" where "p_lflags p = p + 4"
definition p_alignment :: "u64 \<Rightarrow> u64" where "p_alignment p = p + 12"
definition p_size :: "u64 \<Rightarrow> u64" where "p_size p = p + 16"
definition p_parent :: "u64 \<Rightarrow> u64" where "p_parent p = p + 36"
definition p_prev :: "u64 \<Rightarrow> u64" where "p_prev p = p + 44"
definition p_next :: "u64 \<Rightarrow> u64" where "p_next p = p + 52"

lemmas layout = b_magic_def b_lflags_def b_largest_free_def b_size_def b_spinlock_def b_first_def b_prev_def b_next_def
  p_magic_def p_lflags_def p_alignment_def p_size_def p_parent_def p_prev_def p_next_def

lemmas heap_consts = PAGESIZE_def sizeof_bucket_def sizeof_pebble_def MIN_INITIAL_ALLOC_def KMALLOC_MAGIC_BUCKET_def
  KMALLOC_MAGIC_PEBBLE_def BUCKET_FLAG_FIRST_def BUCKET_FLAG_BEST_def PEBBLE_FLAG_FREE_def PEBBLE_FLAG_IN_USE_def
  PEBBLE_MIN_ALIGN_def PEBBLE_MIN_SIZE_def

definition IS_PEBBLE_FREE :: "memory \<Rightarrow> u64 \<Rightarrow> bool" where
  "IS_PEBBLE_FREE m p \<longleftrightarrow> load32 m (p_lflags p) AND PEBBLE_FLAG_IN_USE = PEBBLE_FLAG_FREE"

text \<open>\<open>UPDATE_NODE\<close> is used on buckets only.\<close>

definition UPDATE_NODE :: "memory \<Rightarrow> u64 \<Rightarrow> u64 \<Rightarrow> memory" where
  "UPDATE_NODE m p0 p1 =
     (let m = store64 m (b_next p0) (load64 m (b_next p1));
          m = store64 m (b_next p1) p0;
          m = store64 m (b_prev p0) p1
      in if load64 m (b_next p0) \<noteq> 0 then store64 m (b_prev (load64 m (b_next p0))) p0 else m)"

definition SPLIT_PEBBLE :: "u64 \<Rightarrow> u64 \<Rightarrow> bool" where
  "SPLIT_PEBBLE s0 s1 \<longleftrightarrow>
     ((s0 + PEBBLE_MIN_ALIGN - 1) AND NOT PEBBLE_MIN_SIZE) > s1 + sizeof_pebble + PEBBLE_MIN_SIZE"

section \<open>Buckets\<close>

definition create_bucket :: "machine \<Rightarrow> u64 \<Rightarrow> u32 \<Rightarrow> (u64 \<times> machine) option" where
  "create_bucket s sz flags =
     (let sz = (if sz < MIN_INITIAL_ALLOC then MIN_INITIAL_ALLOC else sz);
          sz = (sz + (PAGESIZE - 1)) AND NOT (PAGESIZE - 1)
      in do {
        (bucket, s) \<leftarrow> mmap s (sz div PAGESIZE);
        Some (if bucket \<noteq> 0 then
          let m = store32 (mem s) (b_magic bucket) KMALLOC_MAGIC_BUCKET;
              m = store32 m (b_lflags bucket) (push_bit 8 flags OR BUCKET_FLAG_FIRST);
              m = store64 m (b_size bucket) (sz div PAGESIZE);
              m = store64 m (b_largest_free bucket) (sz - sizeof_bucket - sizeof_pebble);
              m = store64 m (b_prev bucket) 0;
              m = store64 m (b_next bucket) 0;
              m = store32 m (b_spinlock bucket) 0;
              first = bucket + sizeof_bucket;
              m = store64 m (b_first bucket) first;
              m = store32 m (p_magic first) KMALLOC_MAGIC_PEBBLE;
              m = store32 m (p_lflags first) (0 OR PEBBLE_FLAG_FREE);
              m = store32 m (p_alignment first) 1;
              m = store64 m (p_size first) (load64 m (b_largest_free bucket));
              m = store64 m (p_parent first) bucket;
              m = store64 m (p_prev first) 0;
              m = store64 m (p_next first) 0
          in (bucket, s\<lparr>mem := m\<rparr>)
        else (bucket, s))
      })"

definition kmalloc_init :: "machine \<Rightarrow> u64 \<Rightarrow> (u64 \<times> machine) option" where
  "kmalloc_init s sz =
     create_bucket (say (Serial_printf ([CHR 0x0A] @ '' kmalloc init start.'') []) s) sz (0 OR BUCKET_FLAG_FIRST)"

definition insert_bucket :: "memory \<Rightarrow> u64 \<Rightarrow> u64 \<Rightarrow> memory option" where
  "insert_bucket m bucket dest =
     (if bucket \<noteq> 0 \<and> dest \<noteq> 0 then do {
        m \<leftarrow> acquire_at m (b_spinlock dest);
        let m = UPDATE_NODE m bucket dest;
        Some (release_at m (b_spinlock dest))
      } else Some m)"

definition remove_bucket :: "machine \<Rightarrow> u64 \<Rightarrow> machine option" where
  "remove_bucket s bucket =
     (if bucket \<noteq> 0 \<and> bucket \<noteq> KHEAPSTART s then
        let m = mem s;
            m = (if load64 m (b_prev bucket) \<noteq> 0
                 then store64 m (b_next (load64 m (b_prev bucket))) (load64 m (b_next bucket)) else m);
            m = (if load64 m (b_next bucket) \<noteq> 0
                 then store64 m (b_prev (load64 m (b_next bucket))) (load64 m (b_prev bucket)) else m)
        in munmap (s\<lparr>mem := m\<rparr>) bucket (load64 m (b_size bucket))
      else Some s)"

partial_function (option) largest_loop :: "memory \<Rightarrow> u64 \<Rightarrow> u64 \<Rightarrow> u64 option" where
  "largest_loop m p ret =
     (if p \<noteq> 0
      then largest_loop m (load64 m (p_next p)) (if load64 m (p_size p) > ret then load64 m (p_size p) else ret)
      else Some ret)"

definition bucket_update_largest :: "memory \<Rightarrow> u64 \<Rightarrow> (u64 \<times> memory) option" where
  "bucket_update_largest m bucket = do {
     ret \<leftarrow> largest_loop m (load64 m (b_first bucket)) 0;
     Some (ret, store64 m (b_largest_free bucket) ret)
   }"

section \<open>Pebbles\<close>

definition split_pebble :: "memory \<Rightarrow> u64 \<Rightarrow> u64 \<Rightarrow> u64 \<times> memory" where
  "split_pebble m this_pebble src_size =
     (if SPLIT_PEBBLE (load64 m (p_size this_pebble)) src_size then
        let new_size = (src_size + (PEBBLE_MIN_ALIGN - 1)) AND NOT (PEBBLE_MIN_ALIGN - 1);
            new_pebble = this_pebble + sizeof_pebble + new_size;
            m = snd (memcpy m new_pebble this_pebble sizeof_pebble);
            m = store64 m (p_size new_pebble) (load64 m (p_size this_pebble) - new_size - sizeof_pebble);
            m = store32 m (p_alignment new_pebble) 1;
            m = store64 m (p_prev new_pebble) this_pebble;
            m = (if load64 m (p_next this_pebble) \<noteq> 0
                 then store64 m (p_prev (load64 m (p_next this_pebble))) new_pebble else m);
            m = store64 m (p_size this_pebble) new_size;
            m = store64 m (p_next this_pebble) new_pebble
        in (this_pebble, m)
      else (this_pebble, m))"

partial_function (option) best_loop :: "memory \<Rightarrow> u64 \<Rightarrow> u64 \<Rightarrow> u64 \<Rightarrow> u64 \<Rightarrow> u64 option" where
  "best_loop m start needed_size best best_size =
     (if start \<noteq> 0 then
        if IS_PEBBLE_FREE m start \<and> load64 m (p_size start) \<ge> needed_size \<and> load64 m (p_size start) < best_size
        then best_loop m (load64 m (p_next start)) needed_size start (load64 m (p_size start))
        else best_loop m (load64 m (p_next start)) needed_size best best_size
      else Some best)"

partial_function (option) first_loop :: "memory \<Rightarrow> u64 \<Rightarrow> u64 \<Rightarrow> u64 option" where
  "first_loop m start needed_size =
     (if start \<noteq> 0 then
        if IS_PEBBLE_FREE m start \<and> load64 m (p_size start) \<ge> needed_size then Some start
        else first_loop m (load64 m (p_next start)) needed_size
      else Some 0)"

text \<open>Both methods end in splitting the chosen pebble and writing the flags of the request.\<close>

definition take_pebble :: "memory \<Rightarrow> u64 \<Rightarrow> u64 \<Rightarrow> u32 \<Rightarrow> u64 \<times> memory" where
  "take_pebble m pebble needed_size lflags =
     (if pebble \<noteq> 0 then
        let (pebble, m) = split_pebble m pebble needed_size
        in (pebble, store32 m (p_lflags pebble) lflags)
      else (0, m))"

definition place_pebble :: "memory \<Rightarrow> u64 \<Rightarrow> u64 \<Rightarrow> u32 \<Rightarrow> (u64 \<times> memory) option" where
  "place_pebble m bucket needed_size lflags =
     (if load32 m (b_lflags bucket) AND BUCKET_FLAG_BEST \<noteq> 0 then do {
        best \<leftarrow> best_loop m (load64 m (b_first bucket)) needed_size 0 (- 1);
        Some (take_pebble m best needed_size lflags)
      } else do {
        start \<leftarrow> first_loop m (load64 m (b_first bucket)) needed_size;
        Some (take_pebble m start needed_size lflags)
      })"

definition absorb_next :: "memory \<Rightarrow> u64 \<Rightarrow> (u64 \<times> memory) option" where
  "absorb_next m pebble =
     (if pebble \<noteq> 0 \<and> load64 m (p_next pebble) \<noteq> 0
         \<and> IS_PEBBLE_FREE m pebble \<and> IS_PEBBLE_FREE m (load64 m (p_next pebble)) then
        let m = (if load64 m (b_first (load64 m (p_parent pebble))) = load64 m (p_next pebble)
                 then store64 m (b_first (load64 m (p_parent pebble))) pebble else m);
            m = store64 m (p_size pebble)
                  (load64 m (p_size pebble) + (load64 m (p_size (load64 m (p_next pebble))) + sizeof_pebble));
            m = store64 m (p_next pebble) (load64 m (p_next (load64 m (p_next pebble))));
            m = (if load64 m (p_next pebble) \<noteq> 0 then store64 m (p_prev (load64 m (p_next pebble))) pebble else m)
        in do {
          (r, m) \<leftarrow> bucket_update_largest m (load64 m (p_parent pebble));
          Some (pebble, m)
        }
      else Some (pebble, m))"

definition melt_prev :: "memory \<Rightarrow> u64 \<Rightarrow> (u64 \<times> memory) option" where
  "melt_prev m pebble =
     (if pebble \<noteq> 0 \<and> load64 m (p_prev pebble) \<noteq> 0
         \<and> IS_PEBBLE_FREE m pebble \<and> IS_PEBBLE_FREE m (load64 m (p_prev pebble)) then
        let m = (if load64 m (b_first (load64 m (p_parent pebble))) = pebble
                 then store64 m (b_first (load64 m (p_parent pebble))) (load64 m (p_prev pebble)) else m);
            m = store64 m (p_size (load64 m (p_prev pebble)))
                  (load64 m (p_size (load64 m (p_prev pebble))) + (load64 m (p_size pebble) + sizeof_pebble));
            m = store64 m (p_next (load64 m (p_prev pebble))) (load64 m (p_next pebble));
            m = (if load64 m (p_next pebble) \<noteq> 0
                 then store64 m (p_prev (load64 m (p_next pebble))) (load64 m (p_prev pebble)) else m);
            pebble = load64 m (p_prev pebble)
        in do {
          (r, m) \<leftarrow> bucket_update_largest m (load64 m (p_parent pebble));
          Some (pebble, m)
        }
      else Some (pebble, m))"

text \<open>The test for null comes after the first use of the pointer; the result is the pebble itself.\<close>

definition shrink_pebble :: "memory \<Rightarrow> u64 \<Rightarrow> u64 \<Rightarrow> u64 \<times> memory" where
  "shrink_pebble m pebble sz =
     (if pebble \<noteq> 0 then (pebble, snd (split_pebble m pebble sz)) else (0, m))"

section \<open>The public interface\<close>

text \<open>The loop of \<open>kmalloc\<close> over the buckets: the address of the pebble that was placed, or null.\<close>

partial_function (option) bucket_loop :: "memory \<Rightarrow> u64 \<Rightarrow> u64 \<Rightarrow> u32 \<Rightarrow> (u64 \<times> memory) option" where
  "bucket_loop m bucket needed_size lflags =
     (if bucket \<noteq> 0 then do {
        m \<leftarrow> acquire_at m (b_spinlock bucket);
        if load64 m (b_largest_free bucket) \<ge> needed_size then do {
          (ret, m) \<leftarrow> place_pebble m bucket needed_size lflags;
          if ret \<noteq> 0 then do {
            (r, m) \<leftarrow> bucket_update_largest m bucket;
            Some (ret + sizeof_pebble, release_at m (b_spinlock bucket))
          } else (let m = release_at m (b_spinlock bucket)
                  in bucket_loop m (load64 m (b_next bucket)) needed_size lflags)
        } else (let m = release_at m (b_spinlock bucket)
                in bucket_loop m (load64 m (b_next bucket)) needed_size lflags)
      } else Some (0, m))"

text \<open>The size the request is rounded to.\<close>

definition request_size :: "u64 \<Rightarrow> u64" where
  "request_size sz = (sz + (PEBBLE_MIN_ALIGN - 1)) AND NOT (PAGESIZE - 1)"

definition kmalloc :: "machine \<Rightarrow> u64 \<Rightarrow> (u64 \<times> machine) option" where
  "kmalloc s sz =
     (let sz = (if sz < PEBBLE_MIN_SIZE then PEBBLE_MIN_SIZE else sz);
          lflags = 0 OR PEBBLE_FLAG_IN_USE;
          needed_size = request_size sz;
          bucket = KHEAPSTART s;
          s = say (Serial_printf ('' '' @ [CHR 0x0A] @ ''Largest bucket free pebble size %ul '' @ [CHR 0x0A])
                [Va_int (load64 (mem s) (b_largest_free bucket))]) s
      in do {
        (ret, m) \<leftarrow> bucket_loop (mem s) bucket needed_size lflags;
        let s = s\<lparr>mem := m\<rparr>;
        (ret, s) \<leftarrow> (if ret = 0 then do {
            (bucket, s) \<leftarrow> create_bucket s sz 0;
            if bucket \<noteq> 0 then do {
              m \<leftarrow> insert_bucket (mem s) bucket (KHEAPSTART s);
              m \<leftarrow> acquire_at m (b_spinlock bucket);
              (ret, m) \<leftarrow> place_pebble m bucket needed_size lflags;
              (r, m) \<leftarrow> bucket_update_largest m bucket;
              Some (if ret \<noteq> 0 then ret + sizeof_pebble else 0, s\<lparr>mem := release_at m (b_spinlock bucket)\<rparr>)
            } else Some (0, s)
          } else Some (ret, s));
        Some (ret, if ret \<noteq> 0 then s\<lparr>mem := snd (memset (mem s) ret 0 sz)\<rparr> else s)
      })"

definition kfree :: "machine \<Rightarrow> u64 \<Rightarrow> machine option" where
  "kfree s ptr =
     (if ptr = 0 then Some s
      else let pebble = ptr - sizeof_pebble in
        if load32 (mem s) (p_magic pebble) \<noteq> KMALLOC_MAGIC_PEBBLE then Some s
        else do {
          m \<leftarrow> acquire_at (mem s) (b_spinlock (load64 (mem s) (p_parent pebble)));
          let m = store32 m (p_lflags pebble) PEBBLE_FLAG_FREE;
          let m = store32 m (p_alignment pebble) 1;
          (pebble, m) \<leftarrow> melt_prev m pebble;
          (r, m) \<leftarrow> absorb_next m pebble;
          let m = release_at m (b_spinlock (load64 m (p_parent pebble)));
          let bucket = load64 m (p_parent pebble);
          let first = load64 m (b_first bucket);
          if IS_PEBBLE_FREE m first \<and> load64 m (p_prev first) = 0 \<and> load64 m (p_next first) = 0
          then remove_bucket (s\<lparr>mem := m\<rparr>) bucket
          else do {
            (r, m) \<leftarrow> bucket_update_largest m bucket;
            Some (s\<lparr>mem := m\<rparr>)
          }
        })"

definition krealloc :: "machine \<Rightarrow> u64 \<Rightarrow> u64 \<Rightarrow> (u64 \<times> machine) option" where
  "krealloc s ptr sz =
     (if sz = 0 then do { s \<leftarrow> kfree s ptr; Some (0, s) }
      else if ptr = 0 then kmalloc s sz
      else let pebble = ptr - sizeof_pebble in
        if load32 (mem s) (p_magic pebble) \<noteq> KMALLOC_MAGIC_PEBBLE then Some (0, s)
        else if sz \<le> load64 (mem s) (p_size pebble) then do {
          m \<leftarrow> acquire_at (mem s) (b_spinlock (load64 (mem s) (p_parent pebble)));
          let (r, m) = shrink_pebble m pebble sz;
          Some (r + sizeof_pebble, s\<lparr>mem := release_at m (b_spinlock (load64 m (p_parent pebble)))\<rparr>)
        } else do {
          (ret, s) \<leftarrow> kmalloc s sz;
          let s = (if ret \<noteq> 0 then s\<lparr>mem := snd (memcpy (mem s) ret ptr sz)\<rparr> else s);
          s \<leftarrow> kfree s ptr;
          Some (ret, s)
        })"

section \<open>Pebbles in memory\<close>

text \<open>
  A bucket is described by the list of its blocks in address order: whether the block is in use, and the
  size of its payload. Each block starts where the one before it ends, so the list determines all addresses.
\<close>

type_synonym block = "bool \<times> u64"

fun extent :: "block list \<Rightarrow> nat" where
  "extent [] = 0"
| "extent ((u, n) # bs) = 60 + unat n + extent bs"

fun end_addr :: "u64 \<Rightarrow> block list \<Rightarrow> u64" where
  "end_addr p [] = p"
| "end_addr p ((u, n) # bs) = end_addr (p + 60 + n) bs"

fun last_addr :: "u64 \<Rightarrow> u64 \<Rightarrow> block list \<Rightarrow> u64" where
  "last_addr q p [] = q"
| "last_addr q p ((u, n) # bs) = last_addr p (p + 60 + n) bs"

definition pebble_at :: "memory \<Rightarrow> u64 \<Rightarrow> u64 \<Rightarrow> u64 \<Rightarrow> u64 \<Rightarrow> bool \<Rightarrow> u64 \<Rightarrow> bool" where
  "pebble_at m b q p nx u n \<longleftrightarrow>
     load32 m (p_magic p) = KMALLOC_MAGIC_PEBBLE \<and> IS_PEBBLE_FREE m p = (\<not> u) \<and> load64 m (p_size p) = n
     \<and> load64 m (p_parent p) = b \<and> load64 m (p_prev p) = q \<and> load64 m (p_next p) = nx"

fun seg :: "memory \<Rightarrow> u64 \<Rightarrow> u64 \<Rightarrow> u64 \<Rightarrow> u64 \<Rightarrow> block list \<Rightarrow> bool" where
  "seg m b q p nx [] \<longleftrightarrow> True"
| "seg m b q p nx ((u, n) # bs) \<longleftrightarrow>
     pebble_at m b q p (if bs = [] then nx else p + 60 + n) u n \<and> seg m b p (p + 60 + n) nx bs"

text \<open>\<open>bucket_rep m b bs\<close>: the bucket at \<open>b\<close> consists of the blocks \<open>bs\<close> and does not run over the address space.\<close>

definition bucket_rep :: "memory \<Rightarrow> u64 \<Rightarrow> block list \<Rightarrow> bool" where
  "bucket_rep m b bs \<longleftrightarrow> b \<noteq> 0 \<and> bs \<noteq> [] \<and> unat b + 64 + extent bs < 18446744073709551616
     \<and> load64 m (b_first b) = b + 64 \<and> seg m b 0 (b + 64) 0 bs"

text \<open>The payloads, with their addresses.\<close>

fun payloads :: "u64 \<Rightarrow> block list \<Rightarrow> (bool \<times> u64 \<times> u64) list" where
  "payloads p [] = []"
| "payloads p ((u, n) # bs) = (u, p + 60, n) # payloads (p + 60 + n) bs"

text \<open>Two memories with the same bytes in the payloads of the blocks in use.\<close>

definition keeps :: "u64 \<Rightarrow> block list \<Rightarrow> memory \<Rightarrow> memory \<Rightarrow> bool" where
  "keeps p bs m m' \<longleftrightarrow> (\<forall>(u, a, n)\<in>set (payloads p bs). u \<longrightarrow> (\<forall>x. unat (x - a) < unat n \<longrightarrow> m' x = m x))"

lemma extent_append [simp]: "extent (xs @ ys) = extent xs + extent ys"
  by (induction xs rule: extent.induct) auto

lemma end_addr_append [simp]: "end_addr p (xs @ ys) = end_addr (end_addr p xs) ys"
  by (induction p xs rule: end_addr.induct) auto

lemma end_addr_extent: "end_addr p bs = p + of_nat (extent bs)"
  by (induction p bs rule: end_addr.induct) (auto simp: add.assoc)

lemma last_addr_snoc [simp]: "last_addr q p (xs @ [(u, n)]) = end_addr p xs"
  by (induction q p xs rule: last_addr.induct) auto

lemma unat_end_addr: "unat p + extent bs < 18446744073709551616 \<Longrightarrow> unat (end_addr p bs) = unat p + extent bs"
  by (simp add: end_addr_extent unat_add_64 unat_of_nat_64)

lemma payloads_append [simp]: "payloads p (xs @ ys) = payloads p xs @ payloads (end_addr p xs) ys"
  by (induction p xs rule: end_addr.induct) auto

lemma keeps_append: "keeps p (xs @ ys) m m' \<longleftrightarrow> keeps p xs m m' \<and> keeps (end_addr p xs) ys m m'"
  by (simp add: keeps_def ball_Un)

lemma keeps_trans: "keeps p bs m m' \<Longrightarrow> keeps p bs m' m'' \<Longrightarrow> keeps p bs m m''"
  by (fastforce simp: keeps_def)

lemma keeps_refl [simp]: "keeps p bs m m"
  by (auto simp: keeps_def)

lemma seg_append:
  "seg m b q p nx (xs @ y # ys) \<longleftrightarrow>
     seg m b q p (end_addr p xs) xs \<and> seg m b (last_addr q p xs) (end_addr p xs) nx (y # ys)"
proof (induction xs arbitrary: q p)
  case Nil
  then show ?case by simp
next
  case (Cons x xs)
  then show ?case by (cases x; cases xs) auto
qed

section \<open>Locality\<close>

text \<open>The bytes that differ lie in the range of \<open>k\<close> bytes from \<open>a\<close>.\<close>

definition differ_in :: "u64 \<Rightarrow> nat \<Rightarrow> memory \<Rightarrow> memory \<Rightarrow> bool" where
  "differ_in a k m m' \<longleftrightarrow> (\<forall>x. \<not> unat (x - a) < k \<longrightarrow> m' x = m x)"

lemma differ_load:
  assumes "differ_in a k m m'"
  shows "sep c 8 a k \<Longrightarrow> load64 m' c = load64 m c" "sep c 4 a k \<Longrightarrow> load32 m' c = load32 m c"
  using assms by (auto intro!: c64.get_apart c32.get_apart simp: differ_in_def)

lemma pebble_apart:
  assumes "differ_in a k m m'" "sep p 60 a k"
  shows "pebble_at m' b q p nx u n = pebble_at m b q p nx u n"
proof -
  have "0 < k \<or> k = 0" by auto
  then show ?thesis
  proof
    assume k: "0 < k"
    have s: "sep (p + i) 4 a k" if "unat i + 4 \<le> 60" for i using sep_sub [OF assms(2) that, of 0 k] k by simp
    have l: "sep (p + i) 8 a k" if "unat i + 8 \<le> 60" for i using sep_sub [OF assms(2) that, of 0 k] k by simp
    show ?thesis
      using s [of 0] s [of 4] l [of 16] l [of 36] l [of 44] l [of 52]
      by (simp add: pebble_at_def IS_PEBBLE_FREE_def layout differ_load [OF assms(1)])
  next
    assume "k = 0"
    then have "m' = m" using assms(1) by (auto simp: differ_in_def)
    then show ?thesis by simp
  qed
qed

lemma differ_0: "differ_in a 0 m m' \<Longrightarrow> m' = m"
  by (auto simp: differ_in_def)

lemma seg_apart:
  assumes d: "differ_in a k m m'"
  shows "sep p (extent bs) a k \<Longrightarrow> seg m' b q p nx bs = seg m b q p nx bs"
proof (induction bs arbitrary: q p)
  case Nil
  then show ?case by simp
next
  case (Cons x bs)
  obtain u n where x: "x = (u, n)" by fastforce
  show ?case
  proof (cases "k = 0")
    case True
    then have "m' = m" using d by (intro differ_0) simp
    then show ?thesis by simp
  next
    case False
    then have "sep p 60 a k"
      by (intro sep_sub_0 [OF Cons.prems]) (simp_all add: x)
    moreover have "sep (p + 60 + n) (extent bs) a k" if "bs \<noteq> []"
    proof -
      have pos: "0 < extent bs" using that by (cases bs) auto
      have "unat (60 + n) + extent bs \<le> extent (x # bs)"
        using x unat_word_ariths(1) [of 60 n] by (simp add: mod_less_eq_dividend)
      from sep_sub_left [OF Cons.prems this le_refl pos] False show ?thesis by (simp add: add.assoc)
    qed
    ultimately show ?thesis
      using Cons.IH [of "p + 60 + n" p] pebble_apart [OF d] x by (cases "bs = []") auto
  qed
qed

lemma payload_inside:
  "(u, a, n) \<in> set (payloads p bs) \<Longrightarrow> unat (x - a) < unat n \<Longrightarrow> extent bs < 18446744073709551616 \<Longrightarrow>
    unat (x - p) < extent bs"
proof (induction p bs rule: end_addr.induct)
  case (2 p v k bs)
  consider "a = p + 60" "n = k" | "(u, a, n) \<in> set (payloads (p + 60 + k) bs)" using 2(2) by auto
  then show ?case
  proof cases
    case 1
    have e: "x - p = (x - a) + 60" using 1 by simp
    then show ?thesis unfolding e using 1 2(3,4) by (subst unat_add_64) auto
  next
    case 3: 2
    have lt: "unat (x - (p + 60 + k)) < extent bs" using 2(1) [OF 3] 2(3,4) by simp
    have e: "x - p = (x - (p + 60 + k)) + (60 + k)" by simp
    have "unat (60 + k) = 60 + unat k" using 2(4) by (subst unat_add_64) auto
    then show ?thesis unfolding e using lt 2(4) by (subst unat_add_64) auto
  qed
qed simp

lemma keeps_apart:
  assumes "differ_in a k m m'" "sep p (extent bs) a k" "extent bs < 18446744073709551616"
  shows "keeps p bs m m'"
proof -
  have "m' x = m x" if "(u, c, n) \<in> set (payloads p bs)" "unat (x - c) < unat n" for u c n x
    using sep_apart [OF assms(2) payload_inside [OF that assms(3)]] assms(1) by (simp add: differ_in_def)
  then show ?thesis by (auto simp: keeps_def)
qed

text \<open>A change inside the header of the first block.\<close>

lemma keeps_header:
  assumes d: "differ_in p 60 m m'" and n: "unat p + extent ((u, n) # bs) < 18446744073709551616"
  shows "keeps p ((u, n) # bs) m m'"
proof -
  have "m' x = m x" if "unat (x - (p + 60)) < unat n" for x
  proof -
    have e: "x - p = (x - (p + 60)) + 60" by simp
    have "unat (x - p) = unat (x - (p + 60)) + 60" unfolding e using that n by (subst unat_add_64) auto
    then show ?thesis using d by (simp add: differ_in_def)
  qed
  moreover have "keeps (p + 60 + n) bs m m'"
  proof (rule keeps_apart [OF d])
    have u: "unat (p + 60 + n) = unat p + 60 + unat n"
      using unat_end_addr [of p "[(u, n)]"] n by simp
    then show "sep (p + 60 + n) (extent bs) p 60"
      using n by (subst sep_sym, intro sep_ordered) auto
  qed (use n in simp)
  ultimately show ?thesis by (auto simp: keeps_def)
qed

lemma seg_after_header:
  assumes d: "differ_in p 60 m m'" and n: "unat p + extent ((u, n) # bs) < 18446744073709551616"
  shows "seg m' b q (p + 60 + n) nx bs = seg m b q (p + 60 + n) nx bs"
proof (rule seg_apart [OF d])
  have u: "unat (p + 60 + n) = unat p + 60 + unat n"
    using unat_end_addr [of p "[(u, n)]"] n by simp
  then show "sep (p + 60 + n) (extent bs) p 60"
    using n by (subst sep_sym, intro sep_ordered) auto
qed

lemma differ_trans: "differ_in a k m m' \<Longrightarrow> differ_in a k m' m'' \<Longrightarrow> differ_in a k m m''"
  by (simp add: differ_in_def)

lemma field_inside:
  fixes x p i :: u64
  assumes "unat i + j \<le> 60" "unat (x - (p + i)) < j"
  shows "unat (x - p) < 60"
proof -
  have e: "x - p = (x - (p + i)) + i" by simp
  show "unat (x - p) < 60" unfolding e using assms by (subst unat_add_64) auto
qed

lemma differ_store64: "unat i + 8 \<le> 60 \<Longrightarrow> differ_in p 60 m (store64 m (p + i) v)"
  using field_inside [of i 8 _ p] by (auto simp: differ_in_def intro!: c64.put_local)

lemma differ_store32: "unat i + 4 \<le> 60 \<Longrightarrow> differ_in p 60 m (store32 m (p + i) v)"
  using field_inside [of i 4 _ p] by (auto simp: differ_in_def intro!: c32.put_local)

lemmas differ_fields =
  differ_store64 [of 16, simplified, folded p_size_def] differ_store64 [of 36, simplified, folded p_parent_def]
  differ_store64 [of 44, simplified, folded p_prev_def] differ_store64 [of 52, simplified, folded p_next_def]
  differ_store32 [of 4, simplified, folded p_lflags_def] differ_store32 [of 12, simplified, folded p_alignment_def]

section \<open>Changing one pebble\<close>

text \<open>A store into the header of the first block of a segment, and what the segment becomes.\<close>

lemmas pebble_stores = pebble_at_def IS_PEBBLE_FREE_def layout mem_simps sep_offsets sep_def

lemma pebble_set_prev: "pebble_at m b q p nx u n \<Longrightarrow> pebble_at (store64 m (p_prev p) q') b q' p nx u n"
  by (simp add: pebble_stores)

lemma seg_set_prev:
  assumes "seg m b q p nx bs" "unat p + extent bs < 18446744073709551616" "bs \<noteq> []"
  shows "seg (store64 m (p_prev p) q') b q' p nx bs"
proof -
  obtain u n cs where bs: "bs = (u, n) # cs" using assms(3) by (cases bs) auto
  show ?thesis
    using assms(1,2) pebble_set_prev seg_after_header [OF differ_fields(3)] unfolding bs by auto
qed

lemma keeps_set_prev:
  assumes "unat p + extent bs < 18446744073709551616" "bs \<noteq> []"
  shows "keeps p bs m (store64 m (p_prev p) q')"
  using assms keeps_header [OF differ_fields(3)] by (cases bs) auto

lemma unat_next:
  assumes "unat p + extent ((u, n) # bs) < 18446744073709551616"
  shows "unat (p + 60 + n) = unat p + 60 + unat n"
  using unat_end_addr [of p "[(u, n)]"] assms by simp

text \<open>The sizes for which a split is sound: a multiple of the granule that leaves room for a header.\<close>

lemma round_64:
  fixes r :: u64
  assumes "r AND 63 = 0"
  shows "(r + 63) AND NOT 63 = r"
proof -
  have nb: "\<not> bit r k \<or> \<not> bit (63 :: u64) k" for k
  proof -
    have "\<not> bit (r AND 63) k" unfolding assms by simp
    then show ?thesis by (simp only: bit_and_iff de_Morgan_conj)
  qed
  then have "r + 63 = r OR 63" by (rule disjunctive_add)
  moreover have "(r OR 63) AND NOT 63 = r"
  proof (rule bit_word_eqI)
    fix k assume "k < LENGTH(64)"
    then show "bit ((r OR 63) AND NOT 63) k = bit r k"
      using nb [of k] by (simp only: bit_and_iff bit_not_iff bit_or_iff possible_bit_word) blast
  qed
  ultimately show ?thesis by (simp only:)
qed

lemma split_room:
  assumes "SPLIT_PEBBLE n r" "unat n + 124 < 18446744073709551616" "unat r \<le> unat n"
  shows "unat r + 60 < unat n"
proof -
  have "r + 60 + 64 < (n + 64 - 1) AND NOT 64"
    using assms(1) by (simp only: SPLIT_PEBBLE_def heap_consts)
  also have "\<dots> \<le> n + 64 - 1" by (rule word_and_le2)
  also have "\<dots> = n + 63" by simp
  finally have "r + 124 < n + 63" by (simp add: add.assoc)
  moreover have "unat (r + 124) = unat r + 124" "unat (n + 63) = unat n + 63"
    using assms(2,3) by (simp_all add: unat_add_64)
  ultimately show ?thesis by (simp add: word_less_nat_alt)
qed

section \<open>Splitting\<close>

lemma copied_header:
  assumes sep: "sep w 60 p 60" and pb: "pebble_at m b q p nx u n"
  defines "m1 \<equiv> snd (memcpy m w p sizeof_pebble)"
  shows "pebble_at m1 b q w nx u n" "differ_in w 60 m m1"
proof -
  have ok: "sep w (unat (60 :: u64)) p (unat (60 :: u64))" using sep by simp
  have l: "load k m1 (w + i) = load k m (p + i)" if "unat i + k \<le> 60" "k \<le> 8" for k i
    using kmemcpy.load_moved [OF ok _ that(2), of i m] that(1) by (simp add: m1_def sizeof_pebble_def)
  show "pebble_at m1 b q w nx u n"
    using pb l [of 0 4] l [of 4 4] l [of 16 8] l [of 36 8] l [of 44 8] l [of 52 8]
    by (simp add: pebble_at_def IS_PEBBLE_FREE_def layout load32_def load64_def)
  show "differ_in w 60 m m1"
    using kmemcpy.outside_kept [OF ok, of _ m] by (simp add: differ_in_def m1_def sizeof_pebble_def)
qed

lemma pebble_fresh:
  assumes "pebble_at m b q w nx u n"
  shows "pebble_at (store64 (store32 (store64 m (p_size w) k) (p_alignment w) 1) (p_prev w) p) b p w nx u k"
  using assms by (simp add: pebble_stores)

lemma pebble_cut:
  assumes "pebble_at m b q p nx u n"
  shows "pebble_at (store64 (store64 m (p_size p) r) (p_next p) w) b q p w u r"
  using assms by (simp add: pebble_stores)

text \<open>The addresses of a split: the old pebble at \<open>p\<close>, the new one at \<open>w\<close> and what follows at \<open>v\<close>.\<close>

lemma split_layout:
  assumes room: "unat p + extent ((u, n) # ys) < 18446744073709551616" and fit: "unat r + 60 < unat n"
  defines "w \<equiv> p + 60 + r" and "v \<equiv> p + 60 + n"
  shows "unat w = unat p + 60 + unat r" "unat v = unat p + 60 + unat n" "w + 60 + (n - r - 60) = v"
    and "sep p 60 w 60" "sep w 60 p 60" "sep v (extent ys) w 60" "sep v (extent ys) p 60"
    and "ys \<noteq> [] \<Longrightarrow> sep w 60 v 60" "ys \<noteq> [] \<Longrightarrow> sep p 60 v 60"
    and "unat v + extent ys < 18446744073709551616"
proof -
  show uv: "unat v = unat p + 60 + unat n" using unat_next [OF room] by (simp add: v_def)
  show uw: "unat w = unat p + 60 + unat r"
    using unat_next [of p u r "[]"] room fit by (simp add: w_def)
  show "w + 60 + (n - r - 60) = v" by (simp add: w_def v_def)
  show "sep p 60 w 60" "sep w 60 p 60"
    using uw uv fit room by (auto simp: sep_sym [of w] intro!: sep_ordered)
  show "sep v (extent ys) w 60" "sep v (extent ys) p 60" "unat v + extent ys < 18446744073709551616"
    using uw uv fit room by (auto simp: sep_sym [of v] intro!: sep_ordered)
  have "ys \<noteq> [] \<Longrightarrow> 60 \<le> extent ys" by (cases ys) auto
  then show "ys \<noteq> [] \<Longrightarrow> sep w 60 v 60" "ys \<noteq> [] \<Longrightarrow> sep p 60 v 60"
    using uw uv fit room by (auto intro!: sep_ordered)
qed

text \<open>The memory after the new pebble is written, after the back link of the next one, and at the end.\<close>

definition split_new :: "memory \<Rightarrow> u64 \<Rightarrow> u64 \<Rightarrow> u64 \<Rightarrow> memory" where
  "split_new m p w k =
     store64 (store32 (store64 (snd (memcpy m w p sizeof_pebble)) (p_size w) k) (p_alignment w) 1) (p_prev w) p"

definition link_back :: "block list \<Rightarrow> memory \<Rightarrow> u64 \<Rightarrow> u64 \<Rightarrow> memory" where
  "link_back ys m v w = (if ys = [] then m else store64 m (p_prev v) w)"

definition cut_at :: "memory \<Rightarrow> u64 \<Rightarrow> u64 \<Rightarrow> u64 \<Rightarrow> memory" where
  "cut_at m p r w = store64 (store64 m (p_size p) r) (p_next p) w"

lemma split_new_differ: "sep w 60 p 60 \<Longrightarrow> pebble_at m b q p nx u n \<Longrightarrow> differ_in w 60 m (split_new m p w k)"
  unfolding split_new_def using copied_header(2) differ_fields differ_trans by metis

lemma cut_differ: "differ_in p 60 m (cut_at m p r w)"
  unfolding cut_at_def using differ_fields differ_trans by metis

lemma link_back_differ: "differ_in v 60 m (link_back ys m v w)"
  by (simp add: link_back_def differ_fields) (simp add: differ_in_def)

lemma link_back_seg:
  assumes "seg m b p v 0 ys" "unat v + extent ys < 18446744073709551616"
  shows "seg (link_back ys m v w) b w v 0 ys" "keeps v ys m (link_back ys m v w)"
  using assms seg_set_prev keeps_set_prev by (cases "ys = []"; simp add: link_back_def)+

lemma link_back_pebble: "(ys \<noteq> [] \<Longrightarrow> sep p 60 v 60) \<Longrightarrow> pebble_at (link_back ys m v w) b q p nx u n = pebble_at m b q p nx u n"
  by (cases "ys = []") (simp_all add: link_back_def pebble_apart [OF differ_fields(3)])

lemma split_steps:
  assumes seg: "seg m b q p 0 ((u, n) # ys)" and room: "unat p + extent ((u, n) # ys) < 18446744073709551616" "p \<noteq> 0"
    and r: "r AND 63 = 0" "unat r + 60 < unat n" "SPLIT_PEBBLE n r"
  shows "split_pebble m p r
    = (p, cut_at (link_back ys (split_new m p (p + 60 + r) (n - r - 60)) (p + 60 + n) (p + 60 + r)) p r (p + 60 + r))"
proof -
  note lay = split_layout [OF room(1) r(2)]
  let ?w = "p + 60 + r"
  have pb: "pebble_at m b q p (if ys = [] then 0 else p + 60 + n) u n"
    using seg by auto
  have n0: "load64 m (p_size p) = n" using pb by (simp add: pebble_at_def)
  have "pebble_at (snd (memcpy m ?w p sizeof_pebble)) b q p (if ys = [] then 0 else p + 60 + n) u n"
    using pb pebble_apart [OF copied_header(2) [OF lay(5) pb] lay(4)] by blast
  then have n1: "load64 (snd (memcpy m ?w p sizeof_pebble)) (p_size p) = n" by (simp add: pebble_at_def)
  have "pebble_at (split_new m p ?w (n - r - 60)) b q p (if ys = [] then 0 else p + 60 + n) u n"
    using pb pebble_apart [OF split_new_differ [OF lay(5) pb] lay(4)] by blast
  then have "load64 (split_new m p ?w (n - r - 60)) (p_next p) = (if ys = [] then 0 else p + 60 + n)"
    by (simp add: pebble_at_def)
  moreover have "p + 60 + n \<noteq> 0" using lay(2) by (metis unat_0 add_is_0 zero_neq_numeral)
  moreover have "(r + (64 - 1)) AND NOT (64 - 1) = r" using round_64 [OF r(1)] by simp
  ultimately show ?thesis
    using r(3) n0 n1 unfolding split_pebble_def Let_def cut_at_def link_back_def split_new_def
    by (simp add: PEBBLE_MIN_ALIGN_def sizeof_pebble_def)
qed

lemma inside_from:
  fixes x p i :: u64
  assumes "unat (x - (p + i)) < k" "unat i + k \<le> j" "j < 18446744073709551616"
  shows "unat (x - p) < j"
proof -
  have e: "x - p = (x - (p + i)) + i" by simp
  show ?thesis unfolding e using assms by (subst unat_add_64) auto
qed

lemma seg_split:
  assumes seg: "seg m b q p 0 ((u, n) # ys)" and room: "unat p + extent ((u, n) # ys) < 18446744073709551616" "p \<noteq> 0"
    and r: "r AND 63 = 0" "unat r + 60 < unat n" "SPLIT_PEBBLE n r"
  defines "m' \<equiv> snd (split_pebble m p r)"
  shows "seg m' b q p 0 ((u, r) # (u, n - r - 60) # ys)"
    and "differ_in p (extent ((u, n) # ys)) m m'" and "keeps (p + 60 + n) ys m m'"
    and "unat (x - (p + 60)) < unat r \<Longrightarrow> m' x = m x"
proof -
  define w where "w = p + 60 + r"
  define v where "v = p + 60 + n"
  note lay = split_layout [OF room(1) r(2), folded w_def v_def]
  have pb: "pebble_at m b q p (if ys = [] then 0 else v) u n" and sy: "seg m b p v 0 ys"
    using seg by (auto simp: v_def)
  define m4 where "m4 = split_new m p w (n - r - 60)"
  define m5 where "m5 = link_back ys m4 v w"
  have m': "m' = cut_at m5 p r w"
    unfolding m'_def split_steps [OF seg room r] by (simp add: m5_def m4_def w_def v_def)
  have d4: "differ_in w 60 m m4" unfolding m4_def by (rule split_new_differ [OF lay(5) pb])
  have d7: "differ_in p 60 m5 m'" unfolding m' by (rule cut_differ)
  have w4: "pebble_at m4 b p w (if ys = [] then 0 else v) u (n - r - 60)"
    unfolding m4_def split_new_def by (rule pebble_fresh [OF copied_header(1) [OF lay(5) pb]])
  have p4: "pebble_at m4 b q p (if ys = [] then 0 else v) u n" using pb pebble_apart [OF d4 lay(4)] by blast
  have y4: "seg m4 b p v 0 ys" using sy seg_apart [OF d4 lay(6)] by blast
  have "pebble_at m' b q p w u r"
    unfolding m' cut_at_def by (rule pebble_cut) (use p4 link_back_pebble lay(9) in \<open>auto simp: m5_def\<close>)
  moreover have "pebble_at m' b p w (if ys = [] then 0 else v) u (n - r - 60)"
    unfolding pebble_apart [OF d7 lay(5)] m5_def using w4 lay(8) by (simp add: link_back_pebble)
  moreover have "seg m' b w v 0 ys"
    unfolding seg_apart [OF d7 lay(7)] m5_def by (rule link_back_seg(1) [OF y4 lay(10)])
  ultimately show "seg m' b q p 0 ((u, r) # (u, n - r - 60) # ys)"
    using lay(3) by (cases "ys = []") (simp_all add: w_def)
  have "extent ys < 18446744073709551616" using room(1) by simp
  then show "keeps (p + 60 + n) ys m m'"
    using keeps_apart [OF d4 lay(6)] keeps_apart [OF d7 lay(7)] link_back_seg(2) [OF y4 lay(10), of w] keeps_trans
    unfolding v_def [symmetric] m5_def by blast
  have out: "m' x = m x" if "\<not> unat (x - p) < 60" "\<not> unat (x - w) < 60" "ys \<noteq> [] \<Longrightarrow> \<not> unat (x - v) < 60" for x
    using that d4 d7 link_back_differ [of v m4 ys w]
    by (cases "ys = []") (auto simp: differ_in_def m5_def link_back_def)
  have ey: "ys \<noteq> [] \<Longrightarrow> 60 \<le> extent ys" by (cases ys) auto
  have u60: "unat (60 + r) = 60 + unat r" "unat (60 + n) = 60 + unat n"
    using room(1) r(2) by (simp_all add: unat_add_64)
  show "differ_in p (extent ((u, n) # ys)) m m'"
    unfolding differ_in_def
  proof (intro allI impI out)
    fix x assume x: "\<not> unat (x - p) < extent ((u, n) # ys)"
    show "\<not> unat (x - p) < 60" using x by auto
    show "\<not> unat (x - w) < 60" using x inside_from [of x p "60 + r" 60 "extent ((u, n) # ys)"] u60 r(2) room(1)
      by (auto simp: w_def add.assoc)
    show "\<not> unat (x - v) < 60" if "ys \<noteq> []"
      using x inside_from [of x p "60 + n" 60 "extent ((u, n) # ys)"] u60 ey [OF that] room(1) by (auto simp: v_def add.assoc)
  qed
  show "m' x = m x" if x: "unat (x - (p + 60)) < unat r"
  proof -
    have u: "unat (p + 60) = unat p + 60" using room(1) by (simp add: unat_add_64)
    have "sep (p + 60) (unat r) p 60" "sep (p + 60) (unat r) w 60" "sep (p + 60) (unat r) v 60 \<or> ys = []"
      using u lay(1,2) r(2) room(1) x ey by (auto simp: sep_sym [of "p + 60" _ p] intro!: sep_ordered)
    then show ?thesis using out [of x] sep_apart [OF _ x] by blast
  qed
qed

section \<open>Blocks of a bucket\<close>

lemma bucket_split:
  assumes "bucket_rep m b (xs @ (u, n) # ys)"
  defines "p \<equiv> end_addr (b + 64) xs"
  shows "seg m b (last_addr 0 (b + 64) xs) p 0 ((u, n) # ys)" "seg m b 0 (b + 64) p xs"
    and "unat p + extent ((u, n) # ys) < 18446744073709551616" "p \<noteq> 0" "unat n + 124 < 18446744073709551616"
    and "unat p = unat b + 64 + extent xs" "unat (b + 64) = unat b + 64"
proof -
  have rep: "b \<noteq> 0" "unat b + 64 + extent xs + (60 + unat n + extent ys) < 18446744073709551616"
      "seg m b 0 (b + 64) 0 (xs @ (u, n) # ys)"
    using assms(1) by (simp_all add: bucket_rep_def)
  show u: "unat (b + 64) = unat b + 64" using rep(2) by (simp add: unat_add_64)
  then show up: "unat p = unat b + 64 + extent xs"
    using rep(2) unat_end_addr [of "b + 64" xs] by (simp add: p_def)
  show "seg m b (last_addr 0 (b + 64) xs) p 0 ((u, n) # ys)" "seg m b 0 (b + 64) p xs"
    using rep(3) unfolding seg_append p_def by blast+
  show "unat p + extent ((u, n) # ys) < 18446744073709551616" "unat n + 124 < 18446744073709551616"
    using rep(2) up by auto
  show "p \<noteq> 0" using up by auto
qed

text \<open>The fields of the bucket header other than \<open>first\<close> are apart from all blocks.\<close>

definition same_header :: "u64 \<Rightarrow> memory \<Rightarrow> memory \<Rightarrow> bool" where
  "same_header b m m' \<longleftrightarrow> (\<forall>x. unat (x - b) < 64 \<longrightarrow> m' x = m x)"

lemma same_header_load:
  assumes "same_header b m m'"
  shows "unat i + 8 \<le> 64 \<Longrightarrow> load64 m' (b + i) = load64 m (b + i)"
    and "unat i + 4 \<le> 64 \<Longrightarrow> load32 m' (b + i) = load32 m (b + i)"
  using assms inside_from [of _ b i 8 64] inside_from [of _ b i 4 64]
  by (auto simp: same_header_def intro!: c64.get_local c32.get_local)

lemma same_header_trans: "same_header b m m' \<Longrightarrow> same_header b m' m'' \<Longrightarrow> same_header b m m''"
  by (simp add: same_header_def)

lemma bucket_replace:
  assumes rep: "bucket_rep m b (xs @ (u, n) # ys)"
  defines "p \<equiv> end_addr (b + 64) xs"
  assumes d: "differ_in p (extent ((u, n) # ys)) m m'"
    and seg: "seg m' b (last_addr 0 (b + 64) xs) p 0 zs" and zs: "zs \<noteq> []" "extent zs = extent ((u, n) # ys)"
  shows "bucket_rep m' b (xs @ zs)" "keeps (b + 64) xs m m'" "same_header b m m'"
proof -
  note sp = bucket_split [OF rep, folded p_def]
  have apx: "sep (b + 64) (extent xs) p (extent ((u, n) # ys)) \<or> xs = []"
    using sp(3,6,7) by (cases "xs = []") (auto intro!: sep_ordered, (cases xs, auto)+)
  have aph: "sep b 64 p (extent ((u, n) # ys))"
    using sp(3,6) by (intro sep_ordered) auto
  show "keeps (b + 64) xs m m'"
    using apx sp(6) sp(3) keeps_apart [OF d] by (auto simp: keeps_def [of _ "[]"])
  show hdr: "same_header b m m'"
    using sep_apart [OF aph] d by (simp add: same_header_def differ_in_def)
  have "seg m' b 0 (b + 64) p xs" using sp(2) seg_apart [OF d] apx by auto
  moreover obtain z zs' where z: "zs = z # zs'" using zs(1) by (cases zs) auto
  ultimately have "seg m' b 0 (b + 64) 0 (xs @ zs)"
    using seg unfolding z seg_append p_def by blast
  moreover have "load64 m' (b_first b) = load64 m (b_first b)"
    using same_header_load(1) [OF hdr, of 40] by (simp add: layout)
  ultimately show "bucket_rep m' b (xs @ zs)"
    using rep zs by (simp add: bucket_rep_def)
qed

lemma seg_set_flags:
  assumes "seg m b q p nx ((u, n) # bs)" "unat p + extent ((u, n) # bs) < 18446744073709551616"
  shows "seg (store32 m (p_lflags p) f) b q p nx ((f AND 1 \<noteq> 0, n) # bs)"
proof -
  have "pebble_at (store32 m (p_lflags p) f) b q p nx' (f AND 1 \<noteq> 0) n" if "pebble_at m b q p nx' u n" for nx'
    using that by (simp add: pebble_stores heap_consts)
  then show ?thesis
    using assms seg_after_header [OF differ_fields(5), of p u n bs] by auto
qed

text \<open>First fit: the blocks before the first free one that is large enough, its size, and the blocks after it.\<close>

fun first_fit :: "u64 \<Rightarrow> block list \<Rightarrow> (block list \<times> u64 \<times> block list) option" where
  "first_fit r [] = None"
| "first_fit r ((u, n) # bs) =
     (if \<not> u \<and> r \<le> n then Some ([], n, bs)
      else map_option (\<lambda>(xs, k, ys). ((u, n) # xs, k, ys)) (first_fit r bs))"

lemma first_fit_some:
  "first_fit r bs = Some (xs, n, ys) \<Longrightarrow> bs = xs @ (False, n) # ys \<and> r \<le> n"
  by (induction bs arbitrary: xs) (auto split: if_splits)

lemma first_loop_seg:
  "seg m b q p 0 bs \<Longrightarrow> bs \<noteq> [] \<Longrightarrow> unat p + extent bs < 18446744073709551616 \<Longrightarrow> p \<noteq> 0 \<Longrightarrow>
    first_loop m p r = Some (case first_fit r bs of None \<Rightarrow> 0 | Some (xs, n, ys) \<Rightarrow> end_addr p xs)"
proof (induction bs arbitrary: q p)
  case (Cons x bs)
  obtain u n where x: "x = (u, n)" by fastforce
  have pb: "pebble_at m b q p (if bs = [] then 0 else p + 60 + n) u n" "seg m b p (p + 60 + n) 0 bs"
    using Cons.prems(1) by (auto simp: x)
  then have f: "IS_PEBBLE_FREE m p = (\<not> u)" "load64 m (p_size p) = n" "load64 m (p_next p) = (if bs = [] then 0 else p + 60 + n)"
    by (simp_all add: pebble_at_def)
  have un: "unat (p + 60 + n) = unat p + 60 + unat n" using unat_next Cons.prems(3) unfolding x by blast
  show ?case
  proof (cases "bs = []")
    case True
    then show ?thesis
      using f Cons.prems(4) by (simp add: x first_loop.simps [of m p] first_loop.simps [of m 0])
  next
    case False
    have "p + 60 + n \<noteq> 0" using un by auto
    then have "first_loop m (p + 60 + n) r = Some (case first_fit r bs of None \<Rightarrow> 0 | Some (xs, n', ys) \<Rightarrow> end_addr (p + 60 + n) xs)"
      using Cons.IH [OF pb(2) False] un Cons.prems(3) by (simp add: x)
    then show ?thesis
      using f False Cons.prems(4) by (simp add: x first_loop.simps [of m p] split: option.splits)
  qed
qed simp

fun largest :: "u64 \<Rightarrow> block list \<Rightarrow> u64" where
  "largest a [] = a"
| "largest a ((u, n) # bs) = largest (if n > a then n else a) bs"

lemma largest_loop_seg:
  "seg m b q p 0 bs \<Longrightarrow> bs \<noteq> [] \<Longrightarrow> unat p + extent bs < 18446744073709551616 \<Longrightarrow> p \<noteq> 0 \<Longrightarrow>
    largest_loop m p a = Some (largest a bs)"
proof (induction bs arbitrary: q p a)
  case (Cons x bs)
  obtain u n where x: "x = (u, n)" by fastforce
  have pb: "pebble_at m b q p (if bs = [] then 0 else p + 60 + n) u n" "seg m b p (p + 60 + n) 0 bs"
    using Cons.prems(1) by (auto simp: x)
  then have f: "load64 m (p_size p) = n" "load64 m (p_next p) = (if bs = [] then 0 else p + 60 + n)"
    by (simp_all add: pebble_at_def)
  have un: "unat (p + 60 + n) = unat p + 60 + unat n" using unat_next Cons.prems(3) unfolding x by blast
  show ?case
  proof (cases "bs = []")
    case True
    then show ?thesis
      using f Cons.prems(4) by (simp add: x largest_loop.simps [of m p] largest_loop.simps [of m 0])
  next
    case False
    have "p + 60 + n \<noteq> 0" using un by auto
    then have "largest_loop m (p + 60 + n) c = Some (largest c bs)" for c
      using Cons.IH [OF pb(2) False] un Cons.prems(3) by (simp add: x)
    then show ?thesis
      using f False Cons.prems(4) by (simp add: x largest_loop.simps [of m p])
  qed
qed simp

section \<open>Operations on the block list\<close>

definition cut_block :: "u64 \<Rightarrow> u64 \<Rightarrow> block list" where
  "cut_block r n = (if SPLIT_PEBBLE n r then [(True, r), (False, n - r - 60)] else [(True, n)])"

lemma keeps_free [simp]: "keeps p ((False, n) # bs) m m' = keeps (p + 60 + n) bs m m'"
  by (simp add: keeps_def)

lemma differ_mono: "differ_in a k m m' \<Longrightarrow> k \<le> j \<Longrightarrow> differ_in a j m m'"
  by (auto simp: differ_in_def)

lemma flag_bits: "(PEBBLE_FLAG_IN_USE AND 1 \<noteq> 0) = True" "(PEBBLE_FLAG_FREE AND 1 \<noteq> 0) = False"
  by (simp_all add: heap_consts)

text \<open>The bytes of the blocks from one on are bytes of the bucket.\<close>

lemma block_inside:
  assumes rep: "bucket_rep m b (xs @ (u, n) # ys)" and d: "differ_in (end_addr (b + 64) xs) (extent ((u, n) # ys)) m m'"
  shows "differ_in b (64 + extent (xs @ (u, n) # ys)) m m'"
proof -
  have room: "unat b + 64 + extent (xs @ (u, n) # ys) < 18446744073709551616" using rep by (simp add: bucket_rep_def)
  have e: "end_addr (b + 64) xs = b + (64 + of_nat (extent xs))" by (simp add: end_addr_extent)
  have "unat (64 + of_nat (extent xs) :: u64) = 64 + extent xs"
    using room unat_of_nat_64 [of "64 + extent xs"] by simp
  then show ?thesis
    using d inside_from [of _ b "64 + of_nat (extent xs)" "extent ((u, n) # ys)" "64 + extent (xs @ (u, n) # ys)"] room
    unfolding differ_in_def e by auto
qed

lemma take_rep:
  assumes rep: "bucket_rep m b (xs @ (False, n) # ys)" and r: "r \<le> n" "r AND 63 = 0"
  defines "p \<equiv> end_addr (b + 64) xs"
  shows "\<exists>m'. take_pebble m p r PEBBLE_FLAG_IN_USE = (p, m') \<and> bucket_rep m' b (xs @ cut_block r n @ ys)
    \<and> keeps (b + 64) (xs @ (False, n) # ys) m m' \<and> same_header b m m' \<and> differ_in b (64 + extent (xs @ (False, n) # ys)) m m'"
proof -
  note sp = bucket_split [OF rep, folded p_def]
  let ?E = "extent ((False, n) # ys)"
  have go: ?thesis
    if t: "split_pebble m p r = (p, m1)" and d1: "differ_in p ?E m m1" and k1: "keeps (p + 60 + n) ys m m1"
      and s1: "seg m1 b (last_addr 0 (b + 64) xs) p 0 ((False, k) # zs)" "extent ((False, k) # zs) = ?E"
      and cb: "cut_block r n @ ys = (True, k) # zs" for m1 k zs
  proof -
    let ?m = "store32 m1 (p_lflags p) PEBBLE_FLAG_IN_USE"
    have d: "differ_in p ?E m ?m"
      by (rule differ_trans [OF d1 differ_mono [OF differ_fields(5)]]) simp
    have s: "seg ?m b (last_addr 0 (b + 64) xs) p 0 (cut_block r n @ ys)"
      using seg_set_flags [OF s1(1), of PEBBLE_FLAG_IN_USE] s1(2) sp(3) unfolding cb flag_bits by simp
    have "extent (cut_block r n @ ys) = ?E" "cut_block r n @ ys \<noteq> []" unfolding cb using s1(2) by simp_all
    note rp = bucket_replace [OF rep d [unfolded p_def] s [unfolded p_def] this(2,1), folded p_def]
    have "sep (p + 60 + n) (extent ys) p 60"
      using unat_next [OF sp(3)] sp(3) by (subst sep_sym, intro sep_ordered) auto
    then have "keeps (p + 60 + n) ys m1 ?m"
      using sp(3) by (intro keeps_apart [OF differ_fields(5)]) auto
    then have "keeps (b + 64) (xs @ (False, n) # ys) m ?m"
      using rp(2) keeps_trans [OF k1] by (simp add: keeps_append p_def)
    moreover have "take_pebble m p r PEBBLE_FLAG_IN_USE = (p, ?m)"
      using t sp(4) by (simp add: take_pebble_def)
    moreover have "differ_in b (64 + extent (xs @ (False, n) # ys)) m ?m" using block_inside [OF rep d [unfolded p_def]] by (simp only: p_def)
    ultimately show ?thesis using rp(1,3) by blast
  qed
  show ?thesis
  proof (cases "SPLIT_PEBBLE n r")
    case True
    have fit: "unat r + 60 < unat n"
      using split_room [OF True sp(5)] r(1) by (simp add: word_le_nat_alt)
    note ss = seg_split [OF sp(1,3,4) r(2) fit True]
    have "unat (n - r) = unat n - unat r" using r(1) by (simp add: unat_diff_64)
    moreover then have "unat (n - r - 60) = unat (n - r) - 60"
      using fit by (subst unat_diff_64) (auto simp: word_le_nat_alt)
    ultimately have "extent ((False, r) # (False, n - r - 60) # ys) = ?E" using fit by simp
    then show ?thesis
      using split_steps [OF sp(1,3,4) r(2) fit True] ss(1-3) True
      by (intro go [of "snd (split_pebble m p r)" r "(False, n - r - 60) # ys"]) (simp_all add: cut_block_def)
  next
    case False
    have "load64 m (p_size p) = n" using sp(1) by (simp add: pebble_at_def)
    then have "split_pebble m p r = (p, m)" using False by (simp add: split_pebble_def)
    then show ?thesis
      using False sp(1) by (intro go [of m n ys]) (simp_all add: cut_block_def differ_in_def)
  qed
qed

text \<open>A change of the bucket header that keeps \<open>first\<close>, and a change inside a payload.\<close>

lemma bucket_header_sep:
  assumes room: "unat b + 64 + extent bs < 18446744073709551616"
  shows "sep (b + 64) (extent bs) b 64"
proof -
  have "unat (b + 64) = unat b + 64" using room by (simp add: unat_add_64)
  then show ?thesis using room by (subst sep_sym, intro sep_ordered) auto
qed

lemma header_keeps:
  "unat b + 64 + extent bs < 18446744073709551616 \<Longrightarrow> differ_in b 64 m m' \<Longrightarrow> keeps (b + 64) bs m m'"
  using keeps_apart [OF _ bucket_header_sep] by simp

lemma header_change:
  assumes rep: "bucket_rep m b bs" and d: "differ_in b 64 m m'" and f: "load64 m' (b_first b) = load64 m (b_first b)"
  shows "bucket_rep m' b bs" "keeps (b + 64) bs m m'"
proof -
  have room: "unat b + 64 + extent bs < 18446744073709551616" using rep by (simp add: bucket_rep_def)
  show "keeps (b + 64) bs m m'" using header_keeps [OF room d] .
  show "bucket_rep m' b bs" using rep f seg_apart [OF d bucket_header_sep [OF room]] by (simp add: bucket_rep_def)
qed

lemma payload_change:
  assumes rep: "bucket_rep m b (xs @ (u, n) # ys)"
  defines "p \<equiv> end_addr (b + 64) xs"
  assumes d: "differ_in (p + 60) k m m'" "k \<le> unat n"
  shows "bucket_rep m' b (xs @ (u, n) # ys)" "keeps (b + 64) (xs @ (False, n) # ys) m m'" "same_header b m m'"
proof -
  note sp = bucket_split [OF rep, folded p_def]
  have u: "unat (p + 60) = unat p + 60" using sp(3) by (simp add: unat_add_64)
  have up: "unat (p + 60 + n) = unat p + 60 + unat n" using unat_next [OF sp(3)] .
  have out: "sep p 60 (p + 60) (unat n)" "sep (p + 60 + n) (extent ys) (p + 60) (unat n) \<or> unat n = 0"
    using u up sp(3) by (auto simp: sep_sym [of "p + 60 + n"] intro!: sep_ordered)
  have dn: "differ_in (p + 60) (unat n) m m'" using d differ_mono by blast
  have e: "differ_in p (extent ((u, n) # ys)) m m'"
    using dn inside_from [of _ p 60 "unat n" "extent ((u, n) # ys)"] sp(3) by (auto simp: differ_in_def)
  have ys: "seg m' b p (p + 60 + n) 0 ys" "keeps (p + 60 + n) ys m m'"
  proof -
    have "m' = m" if "unat n = 0" using dn that by (auto simp: differ_in_def)
    then show "seg m' b p (p + 60 + n) 0 ys" "keeps (p + 60 + n) ys m m'"
      using sp(1,3) seg_apart [OF dn, of "p + 60 + n" ys] keeps_apart [OF dn, of "p + 60 + n" ys] out(2) by auto
  qed
  have "seg m' b (last_addr 0 (b + 64) xs) p 0 ((u, n) # ys)"
    using sp(1) ys(1) pebble_apart [OF dn out(1)] by simp
  note r = bucket_replace [OF rep e [unfolded p_def] this [unfolded p_def]]
  show "bucket_rep m' b (xs @ (u, n) # ys)" "keeps (b + 64) (xs @ (False, n) # ys) m m'" "same_header b m m'"
    using r ys(2) by (simp_all add: keeps_append p_def)
qed

lemma update_largest_rep:
  assumes rep: "bucket_rep m b bs"
  defines "m' \<equiv> store64 m (b_largest_free b) (largest 0 bs)"
  shows "bucket_update_largest m b = Some (largest 0 bs, m')" "bucket_rep m' b bs" "keeps (b + 64) bs m m'"
proof -
  have room: "unat b + 64 + extent bs < 18446744073709551616" and r: "bs \<noteq> []" "seg m b 0 (b + 64) 0 bs"
    "load64 m (b_first b) = b + 64"
    using rep by (simp_all add: bucket_rep_def)
  then have "unat (b + 64) = unat b + 64" by (simp add: unat_add_64)
  moreover then have "b + 64 \<noteq> 0" by auto
  ultimately show "bucket_update_largest m b = Some (largest 0 bs, m')"
    using largest_loop_seg [OF r(2,1)] room r(3) by (simp add: bucket_update_largest_def m'_def)
  have "differ_in b 64 m m'"
    using inside_from [of _ b 8 8 64] by (auto simp: differ_in_def m'_def layout intro!: c64.put_local)
  moreover have "load64 m' (b_first b) = load64 m (b_first b)" by (simp add: m'_def layout mem_simps sep_offsets)
  ultimately show "bucket_rep m' b bs" "keeps (b + 64) bs m m'" using header_change [OF rep] by blast+
qed

section \<open>Allocation\<close>

text \<open>A bucket whose lock is free, that uses first fit, and that does not exclude the size by its \<open>largest_free\<close>.\<close>

definition bucket_open :: "memory \<Rightarrow> u64 \<Rightarrow> u64 \<Rightarrow> bool" where
  "bucket_open m b r \<longleftrightarrow> \<not> bit (load32 m (b_spinlock b)) 0 \<and> load32 m (b_lflags b) AND BUCKET_FLAG_BEST = 0
     \<and> r \<le> load64 m (b_largest_free b)"

lemma differ_header:
  "differ_in b 64 m (store32 m (b_spinlock b) v)" "differ_in b 64 m (store64 m (b_largest_free b) w)"
  using inside_from [of _ b 24 4 64] inside_from [of _ b 8 8 64]
  by (auto simp: differ_in_def layout intro!: c32.put_local c64.put_local)

lemma lock_store:
  assumes "bucket_rep m b bs"
  shows "bucket_rep (store32 m (b_spinlock b) v) b bs" "keeps (b + 64) bs m (store32 m (b_spinlock b) v)"
  using header_change [OF assms differ_header(1)] by (simp_all add: layout mem_simps sep_offsets)

text \<open>A change that stays inside the bucket and keeps its size and its links to the other buckets.\<close>

definition inside_bucket :: "u64 \<Rightarrow> nat \<Rightarrow> memory \<Rightarrow> memory \<Rightarrow> bool" where
  "inside_bucket b e m m' \<longleftrightarrow> differ_in b (64 + e) m m' \<and> load64 m' (b_size b) = load64 m (b_size b)
     \<and> load64 m' (b_prev b) = load64 m (b_prev b) \<and> load64 m' (b_next b) = load64 m (b_next b)"

lemma inside_refl [simp]: "inside_bucket b e m m"
  by (simp add: inside_bucket_def differ_in_def)

lemma inside_trans: "inside_bucket b e m m' \<Longrightarrow> inside_bucket b e m' m'' \<Longrightarrow> inside_bucket b e m m''"
  unfolding inside_bucket_def using differ_trans by metis

lemma inside_header:
  "inside_bucket b e m (store32 m (b_spinlock b) v)" "inside_bucket b e m (store64 m (b_largest_free b) w)"
  using differ_mono [OF differ_header(1), of "64 + e"] differ_mono [OF differ_header(2), of "64 + e"]
  by (simp_all add: inside_bucket_def layout mem_simps sep_offsets)

lemma inside_same: "same_header b m m' \<Longrightarrow> differ_in b (64 + e) m m' \<Longrightarrow> inside_bucket b e m m'"
  using same_header_load(1) [of b m m' 16] same_header_load(1) [of b m m' 48] same_header_load(1) [of b m m' 56]
  by (simp add: inside_bucket_def layout)

lemma inside_blocks:
  assumes "bucket_rep m b (xs @ (u, n) # ys)" "differ_in (end_addr (b + 64) xs) (extent ((u, n) # ys)) m m'" "same_header b m m'"
  shows "inside_bucket b (extent (xs @ (u, n) # ys)) m m'"
  using inside_same [OF assms(3) block_inside [OF assms(1,2)]] .

lemma place_first_fit:
  assumes rep: "bucket_rep m b bs" and fit: "first_fit r bs = Some (xs, n, ys)" and r: "r AND 63 = 0"
    and ff: "load32 m (b_lflags b) AND BUCKET_FLAG_BEST = 0"
  shows "\<exists>m'. place_pebble m b r PEBBLE_FLAG_IN_USE = Some (end_addr (b + 64) xs, m') \<and> end_addr (b + 64) xs \<noteq> 0
    \<and> bucket_rep m' b (xs @ cut_block r n @ ys) \<and> keeps (b + 64) bs m m' \<and> same_header b m m'
    \<and> differ_in b (64 + extent bs) m m'"
proof -
  have bs: "bs = xs @ (False, n) # ys" "r \<le> n" using first_fit_some [OF fit] by auto
  note sp = bucket_split [OF rep [unfolded bs(1)]]
  have "seg m b 0 (b + 64) 0 bs" "bs \<noteq> []" "unat (b + 64) + extent bs < 18446744073709551616" "load64 m (b_first b) = b + 64"
    using rep sp(7) by (simp_all add: bucket_rep_def)
  moreover have "b + 64 \<noteq> 0" using sp(7) by auto
  ultimately have "first_loop m (load64 m (b_first b)) r = Some (end_addr (b + 64) xs)"
    using first_loop_seg [of m b 0 "b + 64" bs r] fit by simp
  then show ?thesis
    using take_rep [OF rep [unfolded bs(1)] bs(2) r] ff sp(4) by (auto simp: place_pebble_def bs(1))
qed

text \<open>Both places of \<open>kmalloc\<close> that take a block hold the lock of the bucket around \<open>place_pebble\<close> and \<open>bucket_update_largest\<close>.\<close>

lemma place_locked:
  assumes rep: "bucket_rep m b bs" and fit: "first_fit r bs = Some (xs, n, ys)" and r: "r AND 63 = 0"
    and opn: "bucket_open m b r"
  defines "bs' \<equiv> xs @ cut_block r n @ ys"
  obtains m1 m2 m3 m' where "acquire_at m (b_spinlock b) = Some m1" "load64 m1 (b_largest_free b) = load64 m (b_largest_free b)"
    "place_pebble m1 b r PEBBLE_FLAG_IN_USE = Some (end_addr (b + 64) xs, m2)" "end_addr (b + 64) xs \<noteq> 0"
    "bucket_update_largest m2 b = Some (largest 0 bs', m3)" "release_at m3 (b_spinlock b) = m'"
    "bucket_rep m' b bs'" "keeps (b + 64) bs m m'" "load32 m' (b_spinlock b) = 0"
    "load32 m' (b_lflags b) = load32 m (b_lflags b)" "load64 m' (b_largest_free b) = largest 0 bs'"
    "inside_bucket b (extent bs) m m'"
proof -
  have bs: "bs = xs @ (False, n) # ys" using first_fit_some [OF fit] by simp
  define m1 where "m1 = store32 m (b_spinlock b) (load32 m (b_spinlock b) OR 1)"
  have acq: "acquire_at m (b_spinlock b) = Some m1"
    using opn by (simp add: acquire_at_def acquire_spinlock_def bucket_open_def m1_def)
  note k1 = lock_store [OF rep, of "load32 m (b_spinlock b) OR 1", folded m1_def]
  have f1: "load32 m1 (b_lflags b) = load32 m (b_lflags b)" "load64 m1 (b_largest_free b) = load64 m (b_largest_free b)"
    by (simp_all add: m1_def layout mem_simps sep_offsets)
  obtain m2 where m2: "place_pebble m1 b r PEBBLE_FLAG_IN_USE = Some (end_addr (b + 64) xs, m2)" "end_addr (b + 64) xs \<noteq> 0"
      "bucket_rep m2 b bs'" "keeps (b + 64) bs m1 m2" "same_header b m1 m2" "differ_in b (64 + extent bs) m1 m2"
    using place_first_fit [OF k1(1) fit r] opn f1 unfolding bs'_def bucket_open_def by auto
  define m3 where "m3 = store64 m2 (b_largest_free b) (largest 0 bs')"
  note k3 = update_largest_rep [OF m2(3), folded m3_def]
  define m4 where "m4 = store32 m3 (b_spinlock b) 0"
  note k4 = lock_store [OF k3(2), of 0, folded m4_def]
  have rel: "release_at m3 (b_spinlock b) = m4" by (simp add: release_at_def release_spinlock_def m4_def)
  have "keeps (b + 64) bs m2 m4"
  proof (rule keeps_trans)
    show "keeps (b + 64) bs m2 m3" "keeps (b + 64) bs m3 m4"
      unfolding m3_def m4_def by (intro header_keeps differ_header; use rep in \<open>simp add: bucket_rep_def\<close>)+
  qed
  then have "keeps (b + 64) bs m m4" using k1(2) m2(4) keeps_trans by blast
  moreover have "load32 m4 (b_spinlock b) = 0" "load64 m4 (b_largest_free b) = largest 0 bs'"
    by (simp_all add: m4_def m3_def layout mem_simps sep_offsets)
  moreover have "load32 m4 (b_lflags b) = load32 m (b_lflags b)"
    using same_header_load(2) [OF m2(5), of 4] f1(1) by (simp add: m4_def m3_def layout mem_simps sep_offsets)
  moreover have "inside_bucket b (extent bs) m m1" "inside_bucket b (extent bs) m1 m2" "inside_bucket b (extent bs) m2 m3"
    "inside_bucket b (extent bs) m3 m4"
    unfolding m1_def m3_def m4_def using inside_same [OF m2(5,6)] by (simp_all add: inside_header m1_def)
  then have "inside_bucket b (extent bs) m m4" by (metis inside_trans)
  ultimately show ?thesis using that [OF acq f1(2) m2(1,2) k3(1) rel k4(1)] by blast
qed

lemma bucket_loop_fit:
  assumes rep: "bucket_rep m b bs" and fit: "first_fit r bs = Some (xs, n, ys)" and r: "r AND 63 = 0"
    and opn: "bucket_open m b r"
  defines "bs' \<equiv> xs @ cut_block r n @ ys"
  shows "\<exists>m'. bucket_loop m b r PEBBLE_FLAG_IN_USE = Some (end_addr (b + 64) xs + 60, m')
    \<and> bucket_rep m' b bs' \<and> keeps (b + 64) bs m m' \<and> load32 m' (b_spinlock b) = 0
    \<and> load32 m' (b_lflags b) = load32 m (b_lflags b) \<and> load64 m' (b_largest_free b) = largest 0 bs'
    \<and> inside_bucket b (extent bs) m m'"
proof -
  have "b \<noteq> 0" "r \<le> load64 m (b_largest_free b)" using rep opn by (simp_all add: bucket_rep_def bucket_open_def)
  moreover obtain m1 m2 m3 m' where "acquire_at m (b_spinlock b) = Some m1" "load64 m1 (b_largest_free b) = load64 m (b_largest_free b)"
    "place_pebble m1 b r PEBBLE_FLAG_IN_USE = Some (end_addr (b + 64) xs, m2)" "end_addr (b + 64) xs \<noteq> 0"
    "bucket_update_largest m2 b = Some (largest 0 bs', m3)" "release_at m3 (b_spinlock b) = m'"
    and m': "bucket_rep m' b bs' \<and> keeps (b + 64) bs m m' \<and> load32 m' (b_spinlock b) = 0
    \<and> load32 m' (b_lflags b) = load32 m (b_lflags b) \<and> load64 m' (b_largest_free b) = largest 0 bs'
    \<and> inside_bucket b (extent bs) m m'"
    using place_locked [OF rep fit r opn, folded bs'_def] by metis
  ultimately have "bucket_loop m b r PEBBLE_FLAG_IN_USE = Some (end_addr (b + 64) xs + 60, m')"
    by (subst bucket_loop.simps) (simp add: sizeof_pebble_def)
  then show ?thesis using m' by blast
qed

lemma request_64: "request_size sz AND 63 = 0"
proof -
  have e: "(63 :: u64) = mask 6" "(PAGESIZE - 1 :: u64) = mask 12"
    by (simp_all add: PAGESIZE_def mask_eq_exp_minus_1)
  show ?thesis
    unfolding request_size_def e by (rule bit_word_eqI) (auto simp: bit_and_iff bit_not_iff bit_mask_iff)
qed

text \<open>A block that the search has found: \<open>kmalloc\<close> answers it, zeroed.\<close>

lemma kmalloc_found:
  assumes "bucket_loop (mem s) (KHEAPSTART s) r PEBBLE_FLAG_IN_USE = Some (a, m')" "a \<noteq> 0"
    and "sz' = (if sz < 64 then 64 else sz)" "r = request_size sz'"
  shows "\<exists>s'. kmalloc s sz = Some (a, s') \<and> mem s' = filled m' a 0 (unat sz') \<and> same_regs s s'"
  using assms(1,2) unfolding kmalloc_def Let_def PEBBLE_MIN_SIZE_def assms(3) [symmetric] assms(4) [symmetric]
  by (simp add: memset_filled same_regs_def)

lemma kmalloc_fit:
  assumes rep: "bucket_rep (mem s) (KHEAPSTART s) bs" and fit: "first_fit r bs = Some (xs, n, ys)"
    and opn: "bucket_open (mem s) (KHEAPSTART s) r"
    and sz: "sz' = (if sz < 64 then 64 else sz)" "r = request_size sz'"
  defines "b \<equiv> KHEAPSTART s" and "bs' \<equiv> xs @ cut_block r n @ ys" and "a \<equiv> end_addr (KHEAPSTART s + 64) xs + 60"
  shows "\<exists>m' s'. kmalloc s sz = Some (a, s') \<and> mem s' = filled m' a 0 (unat sz')
    \<and> bucket_rep m' b bs' \<and> keeps (b + 64) bs (mem s) m' \<and> load32 m' (b_spinlock b) = 0
    \<and> load32 m' (b_lflags b) = load32 (mem s) (b_lflags b) \<and> load64 m' (b_largest_free b) = largest 0 bs'
    \<and> KHEAPSTART s' = b \<and> K_HEAP_END s' = K_HEAP_END s"
proof -
  obtain m' where m': "bucket_loop (mem s) b r PEBBLE_FLAG_IN_USE = Some (a, m')" "bucket_rep m' b bs'"
    "keeps (b + 64) bs (mem s) m'" "load32 m' (b_spinlock b) = 0"
    "load32 m' (b_lflags b) = load32 (mem s) (b_lflags b)" "load64 m' (b_largest_free b) = largest 0 bs'"
    using bucket_loop_fit [OF rep fit _ opn] request_64 [of sz'] unfolding sz(2) [symmetric] b_def bs'_def a_def by blast
  have bs: "bs = xs @ (False, n) # ys" using first_fit_some [OF fit] by simp
  have "unat a = unat (end_addr (b + 64) xs) + 60"
    using bucket_split(3) [OF rep [unfolded bs]] by (simp add: a_def b_def unat_add_64)
  then have "a \<noteq> 0" by auto
  from kmalloc_found [OF m'(1) [unfolded b_def] this sz] show ?thesis using m'(2-6) unfolding b_def same_regs_def by metis
qed

lemma cut_block_head:
  assumes rep: "bucket_rep m b bs" and fit: "first_fit r bs = Some (xs, n, ys)"
  obtains k zs where "cut_block r n @ ys = (True, k) # zs" "r \<le> k" "extent ((True, k) # zs) = extent ((False, n) # ys)"
proof -
  have bs: "bs = xs @ (False, n) # ys" "r \<le> n" using first_fit_some [OF fit] by auto
  have "unat (n - r - 60) = unat n - unat r - 60" "unat r + 60 < unat n" if "SPLIT_PEBBLE n r"
  proof -
    show lt: "unat r + 60 < unat n"
      using split_room [OF that] bucket_split(5) [OF rep [unfolded bs(1)]] bs(2) by (simp add: word_le_nat_alt)
    have "unat (n - r) = unat n - unat r" using bs(2) by (simp add: unat_diff_64)
    then show "unat (n - r - 60) = unat n - unat r - 60"
      using lt by (subst unat_diff_64) (auto simp: word_le_nat_alt)
  qed
  then show ?thesis
    using that [of r "(False, n - r - 60) # ys"] that [of n ys] bs(2)
    by (cases "SPLIT_PEBBLE n r") (simp_all add: cut_block_def)
qed

text \<open>Zeroing the payload stays inside the block when the rounded size covers the request.\<close>

lemma zeroed_block:
  assumes rep: "bucket_rep m b bs" and fit: "first_fit r bs = Some (xs, n, ys)" and sz: "0 < k" "k \<le> unat r"
  defines "bs' \<equiv> xs @ cut_block r n @ ys" and "a \<equiv> end_addr (b + 64) xs + 60"
  assumes rep': "bucket_rep m' b bs'" and m'': "m'' = filled m' a 0 k"
  shows "bucket_rep m'' b bs'" "keeps (b + 64) bs m' m''" "same_header b m' m''" "differ_in b (64 + extent bs) m' m''"
    "extent bs' = extent bs"
proof -
  have bs: "bs = xs @ (False, n) # ys" "r \<le> n" using first_fit_some [OF fit] by auto
  obtain j zs where j: "cut_block r n @ ys = (True, j) # zs" "r \<le> j" "extent ((True, j) # zs) = extent ((False, n) # ys)"
    by (rule cut_block_head [OF rep fit])
  let ?p = "end_addr (b + 64) xs"
  note sp = bucket_split [OF rep [unfolded bs(1)]]
  have u: "unat (?p + 60) = unat ?p + 60" using sp(3) by (simp add: unat_add_64)
  have d: "differ_in (?p + 60) k m' m''" by (simp add: m'' a_def differ_in_def filled_def)
  have kn: "k \<le> unat j" "k \<le> unat n" using j(2) sz(2) bs(2) by (simp_all add: word_le_nat_alt)
  note pc = payload_change [OF rep' [unfolded bs'_def j(1)] d kn(1)]
  show "bucket_rep m'' b bs'" "same_header b m' m''" using pc(1,3) by (simp_all add: bs'_def j(1))
  show e: "extent bs' = extent bs" using j(3) by (simp add: bs'_def bs(1) j(1))
  have "sep (?p + 60 + n) (extent ys) (?p + 60) (unat n)"
    using unat_next [OF sp(3)] sp(3) u sz(1) kn(2) by (subst sep_sym, intro sep_ordered) auto
  then have "keeps (?p + 60 + n) ys m' m''"
    using keeps_apart [OF differ_mono [OF d kn(2)]] sp(3) by simp
  then show "keeps (b + 64) bs m' m''" using pc(2) by (simp add: bs(1) keeps_append)
  have "differ_in ?p (extent ((True, j) # zs)) m' m''"
    using d kn(1) inside_from [of _ ?p 60 k "extent ((True, j) # zs)"] sp(3) j(3) by (auto simp: differ_in_def)
  from block_inside [OF rep' [unfolded bs'_def j(1)] this] show "differ_in b (64 + extent bs) m' m''"
    using e by (simp only: bs'_def j(1))
qed

lemma kmalloc_covered:
  assumes rep: "bucket_rep (mem s) (KHEAPSTART s) bs" and fit: "first_fit r bs = Some (xs, n, ys)"
    and opn: "bucket_open (mem s) (KHEAPSTART s) r"
    and sz: "sz' = (if sz < 64 then 64 else sz)" "r = request_size sz'" "unat sz' \<le> unat r"
  defines "b \<equiv> KHEAPSTART s" and "bs' \<equiv> xs @ cut_block r n @ ys" and "a \<equiv> end_addr (KHEAPSTART s + 64) xs + 60"
  shows "\<exists>s'. kmalloc s sz = Some (a, s') \<and> bucket_rep (mem s') b bs' \<and> keeps (b + 64) bs (mem s) (mem s')
    \<and> (\<forall>x. unat (x - a) < unat sz' \<longrightarrow> mem s' x = 0)
    \<and> load32 (mem s') (b_spinlock b) = 0 \<and> load32 (mem s') (b_lflags b) = load32 (mem s) (b_lflags b)
    \<and> load64 (mem s') (b_largest_free b) = largest 0 bs' \<and> KHEAPSTART s' = b"
proof -
  obtain m' s' where m': "kmalloc s sz = Some (a, s')" "mem s' = filled m' a 0 (unat sz')" "bucket_rep m' b bs'"
    "keeps (b + 64) bs (mem s) m'" "load32 m' (b_spinlock b) = 0"
    "load32 m' (b_lflags b) = load32 (mem s) (b_lflags b)" "load64 m' (b_largest_free b) = largest 0 bs'" "KHEAPSTART s' = b"
    using kmalloc_fit [OF rep fit opn sz(1,2)] unfolding b_def bs'_def a_def by blast
  have "0 < unat sz'" unfolding sz(1) by (simp add: word_less_nat_alt)
  note z = zeroed_block [OF rep fit this sz(3), folded b_def bs'_def a_def, OF m'(3,2)]
  have "keeps (b + 64) bs (mem s) (mem s')" using m'(4) z(2) keeps_trans by blast
  moreover have "mem s' x = 0" if "unat (x - a) < unat sz'" for x using that by (simp add: m'(2) filled_def)
  moreover have "load32 (mem s') (b_spinlock b) = 0" "load32 (mem s') (b_lflags b) = load32 (mem s) (b_lflags b)"
    "load64 (mem s') (b_largest_free b) = largest 0 bs'"
    using same_header_load(2) [OF z(3), of 24] same_header_load(2) [OF z(3), of 4] same_header_load(1) [OF z(3), of 8] m'(5-7)
    by (simp_all add: layout)
  ultimately show ?thesis using m'(1,8) z(1) by (intro exI [of _ s']) simp
qed

section \<open>Merging\<close>

text \<open>\<open>absorb_next\<close> and \<open>melt_prev\<close> write the same three fields: two neighbours become one block.\<close>

definition merge_at :: "block list \<Rightarrow> memory \<Rightarrow> u64 \<Rightarrow> u64 \<Rightarrow> u64 \<Rightarrow> memory" where
  "merge_at zs m p k v = link_back zs (cut_at m p k (if zs = [] then 0 else v)) v p"

lemma seg_merge:
  assumes seg: "seg m b q p 0 ((u, n) # (u', k) # zs)"
    and room: "unat p + extent ((u, n) # (u', k) # zs) < 18446744073709551616"
  defines "v \<equiv> p + 60 + n + 60 + k" and "m' \<equiv> merge_at zs m p (n + (k + 60)) (p + 60 + n + 60 + k)"
  shows "seg m' b q p 0 ((u, n + (k + 60)) # zs)" "differ_in p (extent ((u, n) # (u', k) # zs)) m m'"
    "keeps v zs m m'" "extent ((u, n + (k + 60)) # zs) = extent ((u, n) # (u', k) # zs)"
    "p + 60 + (n + (k + 60)) = v"
proof -
  have uv: "unat v = unat p + 60 + unat n + 60 + unat k"
    using unat_end_addr [of p "[(u, n), (u', k)]"] room by (simp add: v_def)
  have "unat (n + (k + 60)) = unat n + (unat k + 60)"
    using room by (simp add: unat_add_64)
  then show "extent ((u, n + (k + 60)) # zs) = extent ((u, n) # (u', k) # zs)" by simp
  show pv: "p + 60 + (n + (k + 60)) = v" by (simp add: v_def)
  have rz: "unat v + extent zs < 18446744073709551616" using uv room by simp
  have ez: "zs \<noteq> [] \<Longrightarrow> 60 \<le> extent zs" by (cases zs) auto
  have sp: "sep v (extent zs) p 60" "zs \<noteq> [] \<Longrightarrow> sep p 60 v 60"
    using uv room ez by (auto simp: sep_sym [of v] intro!: sep_ordered)
  let ?m1 = "cut_at m p (n + (k + 60)) (if zs = [] then 0 else v)"
  have pb: "pebble_at m b q p (p + 60 + n) u n" and sz: "seg m b (p + 60 + n) v 0 zs"
    using seg by (simp_all add: v_def)
  have s1: "seg ?m1 b (p + 60 + n) v 0 zs" using sz seg_apart [OF cut_differ sp(1)] by blast
  have m': "m' = link_back zs ?m1 v p" by (simp add: m'_def merge_at_def v_def)
  have "pebble_at m' b q p (if zs = [] then 0 else v) u (n + (k + 60))"
    using pebble_cut [OF pb] sp(2) unfolding m' cut_at_def by (subst link_back_pebble) blast+
  moreover have "seg m' b p v 0 zs" unfolding m' by (rule link_back_seg(1) [OF s1 rz])
  ultimately show "seg m' b q p 0 ((u, n + (k + 60)) # zs)"
    using pv by (cases "zs = []") simp_all
  show "keeps v zs m m'"
    unfolding m' by (rule keeps_trans [OF keeps_apart [OF cut_differ sp(1)] link_back_seg(2) [OF s1 rz]]) (use room in simp)
  show "differ_in p (extent ((u, n) # (u', k) # zs)) m m'"
    unfolding differ_in_def
  proof (intro allI impI)
    fix x assume x: "\<not> unat (x - p) < extent ((u, n) # (u', k) # zs)"
    then have "\<not> unat (x - p) < 60" by auto
    then have "?m1 x = m x" using cut_differ by (simp add: differ_in_def)
    moreover have "\<not> unat (x - v) < 60" if "zs \<noteq> []"
    proof
      assume "unat (x - v) < 60"
      moreover have "unat (60 + n + 60 + k) = 60 + unat n + 60 + unat k"
        using uv unat_end_addr [of 0 "[(u, n), (u', k)]"] room by simp
      ultimately show False
        using x inside_from [of x p "60 + n + 60 + k" 60 "extent ((u, n) # (u', k) # zs)"] ez [OF that] room
        by (simp add: v_def add.assoc)
    qed
    ultimately show "m' x = m x"
      unfolding m' using link_back_differ [of v ?m1 zs p] by (cases "zs = []") (auto simp: differ_in_def link_back_def)
  qed
qed

lemma merge_rep:
  assumes rep: "bucket_rep m b (xs @ (u, n) # (u', k) # zs)"
  defines "p \<equiv> end_addr (b + 64) xs"
  defines "m' \<equiv> merge_at zs m p (n + (k + 60)) (p + 60 + n + 60 + k)"
  shows "bucket_rep m' b (xs @ (u, n + (k + 60)) # zs)" "keeps (b + 64) (xs @ (False, n) # (False, k) # zs) m m'"
    "same_header b m m'" "inside_bucket b (extent (xs @ (u, n) # (u', k) # zs)) m m'"
proof -
  note sp = bucket_split [OF rep, folded p_def]
  note mg = seg_merge [OF sp(1,3), folded m'_def]
  note rp = bucket_replace [OF rep mg(2) [unfolded p_def] mg(1) [unfolded p_def] _ mg(4)]
  show "bucket_rep m' b (xs @ (u, n + (k + 60)) # zs)" "same_header b m m'" "inside_bucket b (extent (xs @ (u, n) # (u', k) # zs)) m m'"
    using rp inside_blocks [OF rep mg(2) [unfolded p_def]] by simp_all
  show "keeps (b + 64) (xs @ (False, n) # (False, k) # zs) m m'"
    using rp(2) mg(3) by (simp add: keeps_append p_def)
qed

text \<open>What the two do to the blocks of a bucket.\<close>

fun absorb :: "u64 \<Rightarrow> block list \<Rightarrow> block list" where
  "absorb n ((False, k) # zs) = (False, n + (k + 60)) # zs"
| "absorb n ys = (False, n) # ys"

definition neighbour_free :: "block list \<Rightarrow> bool" where
  "neighbour_free xs \<longleftrightarrow> xs \<noteq> [] \<and> \<not> fst (last xs)"

text \<open>The bucket header says first fit, and its \<open>largest_free\<close> is the largest block, in use or not.\<close>

definition header_ok :: "memory \<Rightarrow> u64 \<Rightarrow> block list \<Rightarrow> bool" where
  "header_ok m b bs \<longleftrightarrow> load32 m (b_lflags b) AND BUCKET_FLAG_BEST = 0 \<and> load64 m (b_largest_free b) = largest 0 bs"

lemma largest_sizes: "map snd bs = map snd cs \<Longrightarrow> largest a bs = largest a cs"
proof (induction bs arbitrary: cs a)
  case (Cons x bs)
  then obtain v ds where cs: "cs = v # ds" "snd x = snd v" "map snd bs = map snd ds" by (cases cs) auto
  show ?case using Cons.IH [OF cs(3)] cs(1,2) by (cases x; cases v) simp
qed simp

lemma header_ok_same:
  assumes "same_header b m m'" "map snd bs = map snd cs"
  shows "header_ok m' b bs = header_ok m b cs"
  using same_header_load(1) [OF assms(1), of 8] same_header_load(2) [OF assms(1), of 4] largest_sizes [OF assms(2)]
  by (simp add: header_ok_def layout)

lemma header_ok_lock: "header_ok (store32 m (b_spinlock b) v) b bs = header_ok m b bs"
  by (simp add: header_ok_def layout mem_simps sep_offsets)

lemma header_ok_largest:
  "load32 m (b_lflags b) AND BUCKET_FLAG_BEST = 0 \<Longrightarrow> header_ok (store64 m (b_largest_free b) (largest 0 bs)) b bs"
  by (simp add: header_ok_def layout mem_simps sep_offsets)

lemma largest_after:
  assumes rep: "bucket_rep m b bs" and k: "keeps (b + 64) cs m0 m" "same_header b m0 m" and h: "header_ok m0 b ds"
    and cs: "extent cs = extent bs" and ins: "inside_bucket b e m0 m"
  shows "\<exists>m'. bucket_update_largest m b = Some (largest 0 bs, m') \<and> bucket_rep m' b bs \<and> keeps (b + 64) cs m0 m'
    \<and> header_ok m' b bs \<and> inside_bucket b e m0 m'"
proof -
  note up = update_largest_rep [OF rep]
  have kk: "keeps (b + 64) cs m (store64 m (b_largest_free b) (largest 0 bs))"
    using rep cs by (intro header_keeps differ_header) (simp add: bucket_rep_def)
  have "header_ok (store64 m (b_largest_free b) (largest 0 bs)) b bs"
    using same_header_load(2) [OF k(2), of 4] h by (intro header_ok_largest) (simp add: header_ok_def layout)
  then show ?thesis using up(1,2) keeps_trans [OF k(1) kk] inside_trans [OF ins inside_header(2)] by blast
qed

text \<open>The fields that \<open>absorb_next\<close> and \<open>melt_prev\<close> read again between their writes.\<close>

lemma merge_reads:
  assumes p: "pebble_at m b q p v u n" and v: "pebble_at m b p v nx u' k" and sep: "sep v 60 p 60"
  defines "m1 \<equiv> store64 m (p_size p) (n + (k + 60))"
  defines "m2 \<equiv> store64 m1 (p_next p) nx"
  shows "load64 m1 (p_next p) = v" "load64 m1 (p_next v) = nx" "load64 m1 (p_prev v) = p"
    "load64 m2 (p_next p) = nx" "load64 m2 (p_next v) = nx" "load64 m2 (p_prev v) = p" "m2 = cut_at m p (n + (k + 60)) nx"
proof -
  have d: "differ_in p 60 m m1" "differ_in p 60 m m2"
    unfolding m1_def m2_def using differ_fields differ_trans by metis+
  have "pebble_at m1 b p v nx u' k" "pebble_at m2 b p v nx u' k"
    using v pebble_apart [OF d(1) sep] pebble_apart [OF d(2) sep] by blast+
  then show "load64 m1 (p_next v) = nx" "load64 m1 (p_prev v) = p" "load64 m2 (p_next v) = nx" "load64 m2 (p_prev v) = p"
    by (simp_all add: pebble_at_def)
  have "load64 m (p_next p) = v" using p by (simp add: pebble_at_def)
  then show "load64 m1 (p_next p) = v" "load64 m2 (p_next p) = nx"
    by (simp_all add: m1_def m2_def layout mem_simps sep_offsets)
  show "m2 = cut_at m p (n + (k + 60)) nx" by (simp add: m2_def m1_def cut_at_def)
qed

text \<open>Two neighbours at \<open>p\<close> and \<open>v\<close>, the second after the first.\<close>

lemma neighbours:
  assumes rep: "bucket_rep m b (xs @ (u, n) # (u', k) # zs)"
  defines "p \<equiv> end_addr (b + 64) xs"
  defines "v \<equiv> p + 60 + n"
  shows "pebble_at m b (last_addr 0 (b + 64) xs) p v u n" "pebble_at m b p v (if zs = [] then 0 else v + 60 + k) u' k"
    "sep v 60 p 60" "p \<noteq> 0" "v \<noteq> 0" "load64 m (b_first b) \<noteq> v" "zs \<noteq> [] \<Longrightarrow> v + 60 + k \<noteq> 0"
    "zs \<noteq> [] \<Longrightarrow> sep v 60 (v + 60 + k) 60"
proof -
  note sp = bucket_split [OF rep, folded p_def]
  show "pebble_at m b (last_addr 0 (b + 64) xs) p v u n" "pebble_at m b p v (if zs = [] then 0 else v + 60 + k) u' k"
    using sp(1) by (auto simp: v_def)
  have uv: "unat v = unat p + 60 + unat n" using unat_next [OF sp(3)] by (simp add: v_def)
  have uw: "unat (v + 60 + k) = unat v + 60 + unat k" using unat_next [of v u' k zs] uv sp(3) by simp
  show "sep v 60 p 60" using uv sp(3) by (subst sep_sym, intro sep_ordered) auto
  show "p \<noteq> 0" "v \<noteq> 0" using sp(4) uv by auto
  have "load64 m (b_first b) = b + 64" using rep by (simp add: bucket_rep_def)
  then show "load64 m (b_first b) \<noteq> v" using uv sp(6,7) by auto
  show "v + 60 + k \<noteq> 0" if "zs \<noteq> []" using uw by auto
  have "zs \<noteq> [] \<Longrightarrow> 60 \<le> extent zs" by (cases zs) auto
  then show "sep v 60 (v + 60 + k) 60" if "zs \<noteq> []" using that uv uw sp(3) by (intro sep_ordered) auto
qed

lemma bind_pair: "Option.bind x (\<lambda>(r, m). Some (p, m)) = map_option (\<lambda>(r, m). (p, m)) x"
  by (cases x) auto

lemma absorb_merge:
  assumes rep: "bucket_rep m b (xs @ (False, n) # (False, k) # zs)"
  defines "p \<equiv> end_addr (b + 64) xs"
  defines "m' \<equiv> merge_at zs m p (n + (k + 60)) (p + 60 + n + 60 + k)"
  shows "absorb_next m p = map_option (\<lambda>(r, m). (p, m)) (bucket_update_largest m' b)"
proof -
  define v where "v = p + 60 + n"
  define nx where "nx = (if zs = [] then 0 else v + 60 + k)"
  note nb = neighbours [OF rep, folded p_def, folded v_def, folded nx_def]
  note rd = merge_reads [OF nb(1,2,3)]
  have f: "IS_PEBBLE_FREE m p" "IS_PEBBLE_FREE m v" "load64 m (p_next p) = v" "load64 m (p_parent p) = b"
    "load64 m (p_size p) = n" "load64 m (p_size v) = k"
    using nb(1,2) by (simp_all add: pebble_at_def)
  have "pebble_at m' b (last_addr 0 (b + 64) xs) p nx False (n + (k + 60))"
    using bucket_split(1) [OF merge_rep(1) [OF rep]] by (auto simp: m'_def p_def nx_def v_def add.assoc)
  then have par: "load64 m' (p_parent p) = b" by (simp add: pebble_at_def)
  have m': "m' = (if nx \<noteq> 0 then store64 (cut_at m p (n + (k + 60)) nx) (p_prev nx) p else cut_at m p (n + (k + 60)) nx)"
    using nb(7) by (auto simp: m'_def merge_at_def link_back_def nx_def v_def)
  show ?thesis
    using f nb(4,5,6) rd par unfolding m' absorb_next_def Let_def sizeof_pebble_def
    by (cases "nx = 0") (simp_all add: bind_pair)
qed

lemma melt_merge:
  assumes rep: "bucket_rep m b (xs @ (False, n) # (False, k) # zs)"
  defines "p \<equiv> end_addr (b + 64) xs"
  defines "m' \<equiv> merge_at zs m p (n + (k + 60)) (p + 60 + n + 60 + k)"
  shows "melt_prev m (p + 60 + n) = map_option (\<lambda>(r, m). (p, m)) (bucket_update_largest m' b)"
proof -
  define v where "v = p + 60 + n"
  define nx where "nx = (if zs = [] then 0 else v + 60 + k)"
  note nb = neighbours [OF rep, folded p_def, folded v_def, folded nx_def]
  note rd = merge_reads [OF nb(1,2,3)]
  have f: "IS_PEBBLE_FREE m p" "IS_PEBBLE_FREE m v" "load64 m (p_prev v) = p" "load64 m (p_parent v) = b"
    "load64 m (p_size p) = n" "load64 m (p_size v) = k" "load64 m (p_next v) = nx"
    using nb(1,2) by (simp_all add: pebble_at_def)
  have "pebble_at m' b (last_addr 0 (b + 64) xs) p nx False (n + (k + 60))"
    using bucket_split(1) [OF merge_rep(1) [OF rep]] by (auto simp: m'_def p_def nx_def v_def add.assoc)
  then have par: "load64 m' (p_parent p) = b" by (simp add: pebble_at_def)
  have m': "m' = (if nx \<noteq> 0 then store64 (cut_at m p (n + (k + 60)) nx) (p_prev nx) p else cut_at m p (n + (k + 60)) nx)"
    using nb(7) by (auto simp: m'_def merge_at_def link_back_def nx_def v_def)
  have bk: "load64 m' (p_prev v) = p"
  proof -
    have "sep (p_prev v) 8 (p_prev nx) 8" if "nx \<noteq> 0"
      using that sep_sub [of v 60 "v + 60 + k" 60 44 8 44 8] nb(8) by (auto simp: nx_def layout split: if_splits)
    then show ?thesis using rd(6,7) unfolding m' by (cases "nx = 0") (simp_all add: mem_simps)
  qed
  show ?thesis
    unfolding v_def [symmetric] using f nb(4,5,6) rd par bk unfolding m' melt_prev_def Let_def sizeof_pebble_def
    by (cases "nx = 0") (simp_all add: bind_pair)
qed

lemma merged_rep:
  assumes rep: "bucket_rep m b (xs @ (False, n) # (False, k) # zs)" and h: "header_ok m b bs"
  defines "p \<equiv> end_addr (b + 64) xs"
  shows "\<exists>m'. map_option (\<lambda>(r, m). (p, m)) (bucket_update_largest (merge_at zs m p (n + (k + 60)) (p + 60 + n + 60 + k)) b)
      = Some (p, m') \<and> bucket_rep m' b (xs @ (False, n + (k + 60)) # zs)
    \<and> keeps (b + 64) (xs @ (False, n) # (False, k) # zs) m m' \<and> header_ok m' b (xs @ (False, n + (k + 60)) # zs)
    \<and> inside_bucket b (extent (xs @ (False, n) # (False, k) # zs)) m m'
    \<and> extent (xs @ (False, n + (k + 60)) # zs) = extent (xs @ (False, n) # (False, k) # zs)"
proof -
  note mr = merge_rep [OF rep, folded p_def]
  have e: "extent (xs @ (False, n) # (False, k) # zs) = extent (xs @ (False, n + (k + 60)) # zs)"
    using seg_merge(4) [OF bucket_split(1,3) [OF rep]] by simp
  from largest_after [OF mr(1-3) h this mr(4)] show ?thesis unfolding e by auto
qed

lemma absorb_rep:
  assumes rep: "bucket_rep m b (xs @ (False, n) # ys)" and h: "header_ok m b (xs @ (False, n) # ys)"
  defines "p \<equiv> end_addr (b + 64) xs"
  shows "\<exists>m'. absorb_next m p = Some (p, m') \<and> bucket_rep m' b (xs @ absorb n ys)
    \<and> keeps (b + 64) (xs @ (False, n) # ys) m m' \<and> header_ok m' b (xs @ absorb n ys)
    \<and> inside_bucket b (extent (xs @ (False, n) # ys)) m m' \<and> extent (xs @ absorb n ys) = extent (xs @ (False, n) # ys)"
proof (cases "ys \<noteq> [] \<and> \<not> fst (hd ys)")
  case True
  then obtain k zs where ys: "ys = (False, k) # zs" by (cases ys) auto
  show ?thesis
    using merged_rep [OF rep [unfolded ys] h] absorb_merge [OF rep [unfolded ys]] by (simp add: ys p_def)
next
  case False
  have "pebble_at m b (last_addr 0 (b + 64) xs) p (if ys = [] then 0 else p + 60 + n) False n"
    "seg m b p (p + 60 + n) 0 ys"
    using bucket_split(1) [OF rep] by (auto simp: p_def)
  then have "absorb_next m p = Some (p, m)" "absorb n ys = (False, n) # ys"
    using False by (cases ys; auto simp: absorb_next_def pebble_at_def)+
  then show ?thesis using rep h by (auto intro!: exI [of _ m])
qed

text \<open>The blocks before, and the size of the freed block, after it was joined with a free one before it.\<close>

definition melt :: "block list \<Rightarrow> u64 \<Rightarrow> block list \<times> u64" where
  "melt xs n = (if neighbour_free xs then (butlast xs, snd (last xs) + (n + 60)) else (xs, n))"

lemma melt_rep:
  assumes rep: "bucket_rep m b (xs @ (False, n) # ys)" and h: "header_ok m b (xs @ (False, n) # ys)"
  defines "xs' \<equiv> fst (melt xs n)" and "n' \<equiv> snd (melt xs n)"
  shows "\<exists>m'. melt_prev m (end_addr (b + 64) xs) = Some (end_addr (b + 64) xs', m')
    \<and> bucket_rep m' b (xs' @ (False, n') # ys) \<and> keeps (b + 64) (xs @ (False, n) # ys) m m'
    \<and> header_ok m' b (xs' @ (False, n') # ys)
    \<and> inside_bucket b (extent (xs @ (False, n) # ys)) m m' \<and> extent (xs' @ (False, n') # ys) = extent (xs @ (False, n) # ys)"
proof (cases "neighbour_free xs")
  case True
  then obtain zs k where xs: "xs = zs @ [(False, k)]"
    unfolding neighbour_free_def by (metis append_butlast_last_id prod.collapse)
  have r: "bucket_rep m b (zs @ (False, k) # (False, n) # ys)" using rep by (simp add: xs)
  have "melt xs n = (zs, k + (n + 60))" using True by (simp add: melt_def xs)
  then show ?thesis
    using merged_rep [OF r h] melt_merge [OF r] by (simp add: xs xs'_def n'_def)
next
  case False
  let ?p = "end_addr (b + 64) xs"
  note sp = bucket_split [OF rep]
  have pb: "load64 m (p_prev ?p) = last_addr 0 (b + 64) xs" using sp(1) by (simp add: pebble_at_def)
  have "melt_prev m ?p = Some (?p, m)"
  proof (cases "xs = []")
    case True
    then show ?thesis using pb by (simp add: melt_prev_def)
  next
    case ne: False
    then obtain zs k where xs: "xs = zs @ [(True, k)]"
      using False unfolding neighbour_free_def by (metis append_butlast_last_id prod.collapse)
    have "bucket_rep m b (zs @ (True, k) # (False, n) # ys)" using rep by (simp add: xs)
    from bucket_split(1) [OF this] have "\<not> IS_PEBBLE_FREE m (end_addr (b + 64) zs)" by (simp add: pebble_at_def)
    then show ?thesis using pb by (simp add: xs melt_prev_def)
  qed
  then show ?thesis using False rep h by (auto simp: melt_def xs'_def n'_def intro!: exI [of _ m])
qed

section \<open>Freeing\<close>

text \<open>The free list operation on blocks: the block after \<open>xs\<close> becomes free and is joined with free neighbours.\<close>

definition free_block :: "block list \<Rightarrow> u64 \<Rightarrow> block list \<Rightarrow> block list" where
  "free_block xs n ys = fst (melt xs n) @ absorb (snd (melt xs n)) ys"

lemma absorb_Cons: "\<exists>k zs. absorb n ys = (False, k) # zs"
  by (cases "(n, ys)" rule: absorb.cases) auto

lemma clear_flags_rep:
  assumes rep: "bucket_rep m b (xs @ (u, n) # ys)"
  defines "p \<equiv> end_addr (b + 64) xs"
  defines "m' \<equiv> store32 (store32 m (p_lflags p) PEBBLE_FLAG_FREE) (p_alignment p) 1"
  shows "bucket_rep m' b (xs @ (False, n) # ys)" "keeps (b + 64) (xs @ (False, n) # ys) m m'" "same_header b m m'"
    "inside_bucket b (extent (xs @ (False, n) # ys)) m m'"
proof -
  note sp = bucket_split [OF rep, folded p_def]
  have d: "differ_in p 60 m m'" unfolding m'_def using differ_fields differ_trans by metis
  have "seg (store32 m (p_lflags p) PEBBLE_FLAG_FREE) b (last_addr 0 (b + 64) xs) p 0 ((False, n) # ys)"
    using seg_set_flags [OF sp(1,3), of PEBBLE_FLAG_FREE] unfolding flag_bits .
  moreover have "pebble_at (store32 c (p_alignment p) 1) b q p nx v k = pebble_at c b q p nx v k" for c q nx v k
    by (simp add: pebble_stores)
  ultimately have "seg m' b (last_addr 0 (b + 64) xs) p 0 ((False, n) # ys)"
    unfolding m'_def using seg_after_header [OF differ_fields(6) sp(3)] by simp
  note r = bucket_replace [OF rep differ_mono [OF d, unfolded p_def] this [unfolded p_def]]
  show "bucket_rep m' b (xs @ (False, n) # ys)" "same_header b m m'" using r by simp_all
  have "differ_in p (extent ((u, n) # ys)) m m'" using differ_mono [OF d] by simp
  from inside_blocks [OF rep this [unfolded p_def]] show "inside_bucket b (extent (xs @ (False, n) # ys)) m m'" using r(3) by simp
  have "keeps p ((u, n) # ys) m m'" using keeps_header [OF d sp(3)] .
  then show "keeps (b + 64) (xs @ (False, n) # ys) m m'"
    using r(2) by (simp add: keeps_append p_def) (simp add: keeps_def)
qed

lemma keeps_melt:
  assumes "keeps p (fst (melt xs n) @ (False, snd (melt xs n)) # ys) m m'"
  shows "keeps p (xs @ (False, n) # ys) m m'"
proof (cases "neighbour_free xs")
  case True
  then obtain zs k where xs: "xs = zs @ [(False, k)]"
    unfolding neighbour_free_def by (metis append_butlast_last_id prod.collapse)
  have "melt xs n = (zs, k + (n + 60))" using True by (simp add: melt_def xs)
  then show ?thesis using assms unfolding xs by (simp add: keeps_append algebra_simps)
next
  case False
  then show ?thesis using assms by (simp add: melt_def)
qed

text \<open>\<open>kfree\<close> in any bucket: the block is joined with its free neighbours; a bucket left with one free block is handed to \<open>remove_bucket\<close>.\<close>

lemma kfree_steps:
  assumes rep: "bucket_rep (mem s) b (xs @ (u, n) # ys)"
    and free: "\<not> bit (load32 (mem s) (b_spinlock b)) 0" and h: "header_ok (mem s) b (xs @ (u, n) # ys)"
  shows "\<exists>m'. kfree s (end_addr (b + 64) xs + 60)
      = (if length (free_block xs n ys) = 1 then remove_bucket (s\<lparr>mem := m'\<rparr>) b else Some (s\<lparr>mem := m'\<rparr>))
    \<and> bucket_rep m' b (free_block xs n ys)
    \<and> keeps (b + 64) (xs @ (False, n) # ys) (mem s) m' \<and> load32 m' (b_spinlock b) = 0 \<and> header_ok m' b (free_block xs n ys)
    \<and> inside_bucket b (extent (xs @ (False, n) # ys)) (mem s) m' \<and> extent (free_block xs n ys) = extent (xs @ (False, n) # ys)"
proof -
  define p where "p = end_addr (b + 64) xs"
  define bs where "bs = xs @ (False, n) # ys"
  note sp = bucket_split [OF rep, folded p_def]
  have room: "unat b + 64 + extent bs < 18446744073709551616" using rep by (simp add: bucket_rep_def bs_def)
  have "unat (p + 60) = unat p + 60" using sp(3) by (simp add: unat_add_64)
  then have ptr: "p + 60 \<noteq> 0" by auto
  have pb: "load32 (mem s) (p_magic p) = KMALLOC_MAGIC_PEBBLE" "load64 (mem s) (p_parent p) = b"
    using sp(1) by (simp_all add: pebble_at_def)
  define m1 where "m1 = store32 (mem s) (b_spinlock b) (load32 (mem s) (b_spinlock b) OR 1)"
  have acq: "acquire_at (mem s) (b_spinlock b) = Some m1"
    using free by (simp add: acquire_at_def acquire_spinlock_def m1_def)
  define m3 where "m3 = store32 (store32 m1 (p_lflags p) PEBBLE_FLAG_FREE) (p_alignment p) 1"
  note k3 = clear_flags_rep [OF lock_store(1) [OF rep, of "load32 (mem s) (b_spinlock b) OR 1", folded m1_def],
      folded p_def, folded m3_def bs_def]
  have h3: "header_ok m3 b bs"
    using h header_ok_same [OF k3(3), of bs "xs @ (u, n) # ys"] header_ok_lock by (simp add: m1_def bs_def)
  define xs' where "xs' = fst (melt xs n)"
  define n' where "n' = snd (melt xs n)"
  define q where "q = end_addr (b + 64) xs'"
  obtain m4 where m4: "melt_prev m3 p = Some (q, m4)" "bucket_rep m4 b (xs' @ (False, n') # ys)" "keeps (b + 64) bs m3 m4"
      "header_ok m4 b (xs' @ (False, n') # ys)" "inside_bucket b (extent bs) m3 m4" "extent (xs' @ (False, n') # ys) = extent bs"
    using melt_rep [OF k3(1) [unfolded bs_def] h3 [unfolded bs_def]] unfolding p_def q_def xs'_def n'_def bs_def by blast
  obtain m5 where m5: "absorb_next m4 q = Some (q, m5)" "bucket_rep m5 b (xs' @ absorb n' ys)"
      "keeps (b + 64) (xs' @ (False, n') # ys) m4 m5" "header_ok m5 b (xs' @ absorb n' ys)"
      "inside_bucket b (extent bs) m4 m5" "extent (xs' @ absorb n' ys) = extent bs"
    using absorb_rep [OF m4(2,4)] unfolding q_def m4(6) by blast
  define cs where "cs = free_block xs n ys"
  have cs: "cs = xs' @ absorb n' ys" by (simp add: cs_def free_block_def xs'_def n'_def)
  obtain k zs where kz: "absorb n' ys = (False, k) # zs" using absorb_Cons by blast
  define m6 where "m6 = store32 m5 (b_spinlock b) 0"
  note k6 = lock_store [OF m5(2) [folded cs], of 0, folded m6_def]
  have par: "load64 m5 (p_parent q) = b" "load64 m6 (p_parent q) = b" "load64 m6 (b_first b) = b + 64"
    using bucket_split(1) [OF m5(2) [unfolded kz]] bucket_split(1) [OF k6(1) [unfolded cs kz]] k6(1)
    by (simp_all add: pebble_at_def q_def bucket_rep_def)
  note up = update_largest_rep [OF k6(1)]
  obtain v z where cz: "cs = v # z" "z = [] \<Longrightarrow> v = (False, k)" by (cases xs') (auto simp: cs kz)
  define m' where "m' = (if length cs = 1 then m6 else store64 m6 (b_largest_free b) (largest 0 cs))"
  have last: "IS_PEBBLE_FREE m6 (b + 64) \<and> load64 m6 (p_prev (b + 64)) = 0 \<and> load64 m6 (p_next (b + 64)) = 0 \<longleftrightarrow> length cs = 1"
  proof -
    have "seg m6 b 0 (b + 64) 0 cs" "unat (b + 64) + extent cs < 18446744073709551616"
      using k6(1) sp(7) by (simp_all add: bucket_rep_def)
    then show ?thesis
      using cz unat_next [of "b + 64" "fst v" "snd v" z] by (cases v) (auto simp: pebble_at_def unat_eq_0 [symmetric])
  qed
  have "kfree s (p + 60) = (if length cs = 1 then remove_bucket (s\<lparr>mem := m'\<rparr>) b else Some (s\<lparr>mem := m'\<rparr>))"
    using ptr pb acq m4(1) m5(1) par up(1) last unfolding m'_def
    by (simp add: kfree_def Let_def sizeof_pebble_def release_at_def release_spinlock_def m3_def [symmetric] m6_def [symmetric])
  moreover have "keeps (b + 64) bs (mem s) m1" "keeps (b + 64) bs m5 m6" "keeps (b + 64) bs m6 m'"
    unfolding m1_def m6_def m'_def by (auto intro!: header_keeps [OF room] differ_header)
  then have "keeps (b + 64) bs (mem s) m'"
    using k3(2) m4(3) m5(3) keeps_melt [of "b + 64" xs n ys m4 m5] keeps_trans unfolding xs'_def n'_def bs_def by blast
  moreover have "load32 m' (b_spinlock b) = 0"
    by (simp add: m'_def m6_def layout mem_simps sep_offsets)
  moreover have "header_ok m' b cs"
    using m5(4) header_ok_lock [of m5 b 0 cs] header_ok_largest [of m6 b cs] unfolding m6_def m'_def cs [symmetric]
    by (simp add: header_ok_def)
  moreover have "inside_bucket b (extent bs) (mem s) m1" "inside_bucket b (extent bs) m5 m6" "inside_bucket b (extent bs) m6 m'"
    unfolding m1_def m6_def m'_def by (simp_all add: inside_header)
  then have "inside_bucket b (extent bs) (mem s) m'"
    by (metis k3(4) m4(5) m5(5) inside_trans)
  ultimately show ?thesis
    unfolding p_def [symmetric] bs_def [symmetric] cs_def [symmetric] using k6(1) up(2) m5(6) cs by (intro exI [of _ m']) (simp add: m'_def)
qed

lemma kfree_rep:
  assumes rep: "bucket_rep (mem s) b (xs @ (u, n) # ys)" and b: "b = KHEAPSTART s"
    and free: "\<not> bit (load32 (mem s) (b_spinlock b)) 0" and h: "header_ok (mem s) b (xs @ (u, n) # ys)"
  shows "\<exists>s'. kfree s (end_addr (b + 64) xs + 60) = Some s' \<and> bucket_rep (mem s') b (free_block xs n ys)
    \<and> keeps (b + 64) (xs @ (False, n) # ys) (mem s) (mem s') \<and> load32 (mem s') (b_spinlock b) = 0 \<and> KHEAPSTART s' = b
    \<and> header_ok (mem s') b (free_block xs n ys)"
proof -
  obtain m' where m': "kfree s (end_addr (b + 64) xs + 60)
      = (if length (free_block xs n ys) = 1 then remove_bucket (s\<lparr>mem := m'\<rparr>) b else Some (s\<lparr>mem := m'\<rparr>))"
      "bucket_rep m' b (free_block xs n ys)" "keeps (b + 64) (xs @ (False, n) # ys) (mem s) m'" "load32 m' (b_spinlock b) = 0"
      "header_ok m' b (free_block xs n ys)"
    using kfree_steps [OF rep free h] by blast
  have "remove_bucket (s\<lparr>mem := m'\<rparr>) b = Some (s\<lparr>mem := m'\<rparr>)" using b by (simp add: remove_bucket_def)
  then show ?thesis using m' b by auto
qed

section \<open>The contract of the heap\<close>

text \<open>
  The heap of one bucket, seen by its clients: a list of blocks, an address for each, first fit and joining of
  free neighbours. \<open>covers sz\<close> are the requests for which the rounded size is large enough.
\<close>

locale block_heap =
  fixes alloc :: "'s \<Rightarrow> u64 \<Rightarrow> (u64 \<times> 's) option"
    and free :: "'s \<Rightarrow> u64 \<Rightarrow> 's option"
    and ok :: "'s \<Rightarrow> block list \<Rightarrow> bool"
    and addr :: "'s \<Rightarrow> block list \<Rightarrow> u64"
    and rounded :: "u64 \<Rightarrow> u64"
    and covers :: "u64 \<Rightarrow> bool"
  assumes alloc_ok: "ok s bs \<Longrightarrow> covers sz \<Longrightarrow> first_fit (rounded sz) bs = Some (xs, n, ys) \<Longrightarrow>
      \<exists>s'. alloc s sz = Some (addr s xs, s') \<and> ok s' (xs @ cut_block (rounded sz) n @ ys) \<and> addr s' = addr s"
    and free_ok: "ok s (xs @ (u, n) # ys) \<Longrightarrow> \<exists>s'. free s (addr s xs) = Some s' \<and> ok s' (free_block xs n ys) \<and> addr s' = addr s"
begin

text \<open>Allocating and freeing again restores the blocks, if no free block is beside another one there.\<close>

lemma alloc_free:
  assumes "ok s bs" "covers sz" "first_fit (rounded sz) bs = Some (xs, n, ys)" "\<not> neighbour_free xs" "ys = [] \<or> fst (hd ys)"
  shows "\<exists>s1 s2. alloc s sz = Some (addr s xs, s1) \<and> free s1 (addr s xs) = Some s2 \<and> ok s2 bs"
proof -
  have bs: "bs = xs @ (False, n) # ys" "rounded sz \<le> n" using first_fit_some [OF assms(3)] by auto
  obtain s1 where s1: "alloc s sz = Some (addr s xs, s1)" "ok s1 (xs @ cut_block (rounded sz) n @ ys)" "addr s1 = addr s"
    using alloc_ok [OF assms(1-3)] by blast
  have melt: "melt xs k = (xs, k)" for k using assms(4) by (simp add: melt_def)
  obtain s2 where "free s1 (addr s xs) = Some s2" "ok s2 bs"
  proof (cases "SPLIT_PEBBLE n (rounded sz)")
    case True
    have "rounded sz + (n - rounded sz - 60 + 60) = n" by simp
    then show ?thesis
      using that free_ok [of s1 xs True "rounded sz" "(False, n - rounded sz - 60) # ys"] s1 True bs(1)
      by (auto simp: cut_block_def free_block_def melt)
  next
    case False
    have "absorb n ys = (False, n) # ys" using assms(5) by (cases "(n, ys)" rule: absorb.cases) auto
    then show ?thesis
      using that free_ok [of s1 xs True n ys] s1 False bs(1) by (auto simp: cut_block_def free_block_def melt)
  qed
  then show ?thesis using s1(1) by blast
qed

end

text \<open>The kernel heap as an instance: the bucket at the start of the heap, with its lock free.\<close>

definition heap_ok :: "machine \<Rightarrow> block list \<Rightarrow> bool" where
  "heap_ok s bs \<longleftrightarrow> bucket_rep (mem s) (KHEAPSTART s) bs \<and> header_ok (mem s) (KHEAPSTART s) bs
     \<and> \<not> bit (load32 (mem s) (b_spinlock (KHEAPSTART s))) 0"

definition block_addr :: "machine \<Rightarrow> block list \<Rightarrow> u64" where
  "block_addr s xs = end_addr (KHEAPSTART s + 64) xs + 60"

definition kmalloc_rounded :: "u64 \<Rightarrow> u64" where
  "kmalloc_rounded sz = request_size (if sz < 64 then 64 else sz)"

definition kmalloc_covers :: "u64 \<Rightarrow> bool" where
  "kmalloc_covers sz \<longleftrightarrow> unat (if sz < 64 then 64 else sz) \<le> unat (kmalloc_rounded sz)"

lemma largest_ge: "a \<le> largest a bs \<and> ((u, n) \<in> set bs \<longrightarrow> n \<le> largest a bs)"
proof (induction bs arbitrary: a)
  case (Cons x bs)
  obtain v k where x: "x = (v, k)" by fastforce
  show ?case
    using Cons.IH [of "if k > a then k else a"] unfolding x
    by (simp split: if_splits) (meson le_less_trans less_imp_le not_le order_trans)+
qed simp

lemma heap_open:
  assumes "heap_ok s bs" "first_fit r bs = Some (xs, n, ys)"
  shows "bucket_open (mem s) (KHEAPSTART s) r"
proof -
  have "(False, n) \<in> set bs" "r \<le> n" using first_fit_some [OF assms(2)] by auto
  then have "r \<le> largest 0 bs" using largest_ge [of 0 bs False n] by (meson order_trans)
  then show ?thesis using assms(1) by (simp add: bucket_open_def heap_ok_def header_ok_def)
qed

lemma kmalloc_heap:
  assumes ok: "heap_ok s bs" and cov: "kmalloc_covers sz" and fit: "first_fit (kmalloc_rounded sz) bs = Some (xs, n, ys)"
  shows "\<exists>s'. kmalloc s sz = Some (block_addr s xs, s') \<and> heap_ok s' (xs @ cut_block (kmalloc_rounded sz) n @ ys)
    \<and> KHEAPSTART s' = KHEAPSTART s \<and> keeps (KHEAPSTART s + 64) bs (mem s) (mem s')
    \<and> (\<forall>x. unat (x - block_addr s xs) < unat (if sz < 64 then 64 else sz) \<longrightarrow> mem s' x = 0)"
  using kmalloc_covered [OF _ fit heap_open [OF ok fit] refl kmalloc_rounded_def] ok cov
  by (auto simp: heap_ok_def header_ok_def block_addr_def kmalloc_covers_def)

lemma kfree_heap:
  assumes "heap_ok s (xs @ (u, n) # ys)"
  shows "\<exists>s'. kfree s (block_addr s xs) = Some s' \<and> heap_ok s' (free_block xs n ys) \<and> KHEAPSTART s' = KHEAPSTART s
    \<and> keeps (KHEAPSTART s + 64) (xs @ (False, n) # ys) (mem s) (mem s')"
  using kfree_rep [OF _ refl, of s xs u n ys] assms by (auto simp: heap_ok_def block_addr_def)

interpretation kheap: block_heap kmalloc kfree heap_ok block_addr kmalloc_rounded kmalloc_covers
proof (unfold_locales, goal_cases)
  case (1 s bs sz xs n ys)
  then show ?case using kmalloc_heap [of s bs sz xs n ys] by (auto simp: block_addr_def [abs_def])
next
  case (2 s xs u n ys)
  then show ?case using kfree_heap [of s xs u n ys] by (auto simp: block_addr_def [abs_def])
qed

section \<open>A new bucket\<close>

definition bucket_bytes :: "u64 \<Rightarrow> u64" where
  "bucket_bytes sz = ((if sz < MIN_INITIAL_ALLOC then MIN_INITIAL_ALLOC else sz) + (PAGESIZE - 1)) AND NOT (PAGESIZE - 1)"

lemma unat_page_mask: "unat (w AND NOT (PAGESIZE - 1)) = 4096 * (unat w div 4096)"
proof -
  have e: "(PAGESIZE - 1 :: u64) = mask 12" by (simp add: PAGESIZE_def mask_eq_exp_minus_1)
  have "w AND NOT (mask 12) = w - take_bit 12 w"
  proof -
    have "(w AND NOT (mask 12)) + (w AND mask 12) = (w AND NOT (mask 12)) OR (w AND mask 12)"
      by (rule disjunctive_add) (auto simp: bit_and_iff bit_not_iff)
    also have "\<dots> = w" by (rule bit_word_eqI) (auto simp: bit_and_iff bit_not_iff bit_or_iff)
    finally show ?thesis by (simp add: take_bit_eq_mask algebra_simps)
  qed
  moreover have t: "unat (take_bit 12 w) = unat w mod 4096"
    by (subst unsigned_take_bit_eq) (simp add: take_bit_eq_mod)
  ultimately have "unat (w AND NOT (mask 12)) = unat w - unat w mod 4096"
    using unat_diff_64 [of "take_bit 12 w" w] by (simp add: word_le_nat_alt)
  then show ?thesis unfolding e by (simp add: minus_mod_eq_mult_div)
qed

lemma bucket_bytes_bound:
  assumes "unat sz + 4096 < 18446744073709551616"
  shows "69632 \<le> unat (bucket_bytes sz)" "unat sz \<le> unat (bucket_bytes sz)" "unat (bucket_bytes sz) \<le> max 69632 (unat sz + 4095)"
proof -
  define w where "w = (if sz < MIN_INITIAL_ALLOC then MIN_INITIAL_ALLOC else sz)"
  have w: "65660 \<le> unat w" "unat sz \<le> unat w" "unat w \<le> max 65660 (unat sz)"
    by (auto simp: w_def heap_consts word_less_nat_alt)
  have "unat (w + 4095) = unat w + 4095" using assms w(3) by (simp add: unat_add_64)
  then have u: "unat (bucket_bytes sz) = 4096 * ((unat w + 4095) div 4096)"
    unfolding bucket_bytes_def w_def [symmetric] unat_page_mask by (simp add: PAGESIZE_def)
  define q where "q = (unat w + 4095) div 4096"
  have q: "unat (bucket_bytes sz) = 4096 * q" "4096 * q \<le> unat w + 4095" "unat w + 4095 < 4096 * q + 4096"
    using u by (simp_all add: q_def dividend_less_times_div add.commute)
  then have "16 < q" using w(1) by linarith
  then show "69632 \<le> unat (bucket_bytes sz)" using q(1) by linarith
  show "unat sz \<le> unat (bucket_bytes sz)" using q w(2) by linarith
  show "unat (bucket_bytes sz) \<le> max 69632 (unat sz + 4095)"
  proof (cases "unat sz \<le> 65660")
    case True
    then have "q < 18" using q(2) w(3) by linarith
    then show ?thesis using q(1) by simp
  next
    case False
    then show ?thesis using q w(3) by linarith
  qed
qed

text \<open>The fifteen stores of \<open>create_bucket\<close>, by their offsets in the new bucket.\<close>

definition fresh_bucket :: "memory \<Rightarrow> u64 \<Rightarrow> u32 \<Rightarrow> u64 \<Rightarrow> u64 \<Rightarrow> memory" where
  "fresh_bucket m a fl pages n =
     (let m = store32 m a KMALLOC_MAGIC_BUCKET; m = store32 m (a + 4) fl; m = store64 m (a + 16) pages;
          m = store64 m (a + 8) n; m = store64 m (a + 48) 0; m = store64 m (a + 56) 0; m = store32 m (a + 24) 0;
          m = store64 m (a + 40) (a + 64); m = store32 m (a + 64) KMALLOC_MAGIC_PEBBLE; m = store32 m (a + 68) 0;
          m = store32 m (a + 76) 1; m = store64 m (a + 80) n; m = store64 m (a + 100) a; m = store64 m (a + 108) 0
      in store64 m (a + 116) 0)"

lemma fresh_reads:
  fixes m :: memory and a pages n :: u64 and fl :: u32
  defines "m' \<equiv> fresh_bucket m a fl pages n"
  shows "load32 m' (a + 4) = fl" "load64 m' (a + 8) = n" "load32 m' (a + 24) = 0" "load64 m' (a + 40) = a + 64"
    "load64 m' (a + 56) = 0" "load32 m' (a + 64) = KMALLOC_MAGIC_PEBBLE" "load32 m' (a + 68) = 0" "load64 m' (a + 80) = n"
    "load64 m' (a + 100) = a" "load64 m' (a + 108) = 0" "load64 m' (a + 116) = 0" "load64 m' (a + 16) = pages" "load64 m' (a + 48) = 0"
  by (simp_all add: m'_def fresh_bucket_def Let_def mem_simps sep_offsets)

lemma fresh_differ: "differ_in a 124 m (fresh_bucket m a fl pages n)"
proof -
  have 8: "store64 c (a + i) v x = c x" if "\<not> unat (x - a) < 124" "unat i + 8 \<le> 124" for c i v x
    using that inside_from [of x a i 8 124] by (intro c64.put_local) auto
  have 4: "store32 c (a + i) v x = c x" if "\<not> unat (x - a) < 124" "unat i + 4 \<le> 124" for c i v x
    using that inside_from [of x a i 4 124] by (intro c32.put_local) auto
  have 0: "store32 c a v x = c x" if "\<not> unat (x - a) < 124" for c v x using 4 [OF that, of 0] by simp
  show ?thesis by (simp add: differ_in_def fresh_bucket_def Let_def 8 4 0)
qed

lemma create_bucket_fresh:
  assumes mm: "mmap s (bucket_bytes sz div PAGESIZE) = Some (a, s1)" and a: "a \<noteq> 0"
    and sz: "unat sz + 4096 < 18446744073709551616" "unat a + unat (bucket_bytes sz) < 18446744073709551616"
  shows "\<exists>s2. create_bucket s sz flags = Some (a, s2) \<and> bucket_rep (mem s2) a [(False, bucket_bytes sz - 124)]
    \<and> header_ok (mem s2) a [(False, bucket_bytes sz - 124)] \<and> load32 (mem s2) (b_spinlock a) = 0
    \<and> load64 (mem s2) (b_size a) = bucket_bytes sz div PAGESIZE \<and> load64 (mem s2) (b_prev a) = 0 \<and> load64 (mem s2) (b_next a) = 0
    \<and> same_regs s1 s2 \<and> differ_in a 124 (mem s1) (mem s2)"
proof -
  let ?n = "bucket_bytes sz - 124"
  let ?fl = "push_bit 8 flags OR BUCKET_FLAG_FIRST"
  define s2 where "s2 = s1\<lparr>mem := fresh_bucket (mem s1) a ?fl (bucket_bytes sz div PAGESIZE) ?n\<rparr>"
  note rd = fresh_reads [of "mem s1" a ?fl "bucket_bytes sz div PAGESIZE" ?n]
  have un: "unat ?n = unat (bucket_bytes sz) - 124"
    using bucket_bytes_bound(1) [OF sz(1)] by (simp add: unat_diff_64 word_le_nat_alt)
  have "create_bucket s sz flags = Some (a, s2)"
    using mm a unfolding create_bucket_def Let_def bucket_bytes_def [symmetric] s2_def
    by (simp add: fresh_bucket_def layout sizeof_bucket_def sizeof_pebble_def PEBBLE_FLAG_FREE_def mem_simps sep_offsets Let_def add.assoc)
  moreover have "bucket_rep (mem s2) a [(False, ?n)]"
    using rd sz(2) un a bucket_bytes_bound(1) [OF sz(1)]
    by (simp add: s2_def bucket_rep_def pebble_at_def IS_PEBBLE_FREE_def layout PEBBLE_FLAG_FREE_def add.assoc)
  moreover have "(push_bit 8 flags OR BUCKET_FLAG_FIRST) AND BUCKET_FLAG_BEST = 0"
    by (rule bit_word_eqI) (auto simp: bit_simps BUCKET_FLAG_FIRST_def BUCKET_FLAG_BEST_def)
  then have "header_ok (mem s2) a [(False, ?n)]"
    using rd(1,2) by (auto simp: s2_def header_ok_def layout word_gt_0)
  ultimately show ?thesis
    using rd(3,5,12,13) fresh_differ by (intro exI [of _ s2]) (auto simp: s2_def layout same_regs_def)
qed

section \<open>Requests that are not covered\<close>

lemma unat_request:
  assumes "unat sz + 63 < 18446744073709551616"
  shows "unat (request_size sz) = 4096 * ((unat sz + 63) div 4096)"
  using assms unfolding request_size_def unat_page_mask by (simp add: PEBBLE_MIN_ALIGN_def unat_add_64)

text \<open>Rounding up to 64 and down to a page.\<close>

lemma page_floor:
  fixes j :: nat
  shows "4096 * ((j + 63) div 4096) \<le> j + 63"
    and "j \<le> 4096 * ((j + 63) div 4096) \<longleftrightarrow> j mod 4096 = 0 \<or> 4033 \<le> j mod 4096"
proof -
  define q where "q = j div 4096"
  define t where "t = j mod 4096"
  have j: "j = 4096 * q + t" "t < 4096" by (simp_all add: q_def t_def)
  show "4096 * ((j + 63) div 4096) \<le> j + 63" by simp
  have "(j + 63) div 4096 = (if 4033 \<le> t then q + 1 else q)"
  proof (cases "4033 \<le> t")
    case True
    then have "j + 63 = 4096 * (q + 1) + (t - 4033)" "t - 4033 < 4096" using j by auto
    then show ?thesis using True by (metis div_mult_self4 div_less add_0_right zero_neq_numeral)
  next
    case False
    then have "j + 63 = 4096 * q + (t + 63)" "t + 63 < 4096" using j by auto
    then show ?thesis using False by (metis div_mult_self4 div_less add_0_right zero_neq_numeral)
  qed
  then show "j \<le> 4096 * ((j + 63) div 4096) \<longleftrightarrow> j mod 4096 = 0 \<or> 4033 \<le> j mod 4096"
    using j(2) by (simp add: t_def [symmetric]) (use j in auto)
qed

lemma load32_filled_0:
  assumes "unat (a - b) + 4 \<le> n"
  shows "load32 (filled m b 0 n) a = 0"
proof -
  have "load32 (filled m b 0 n) a = load32 (\<lambda>_. 0) a"
  proof (rule c32.get_local)
    fix x assume "unat (x - a) < 4"
    then have "unat (x - b) < n"
      using assms unat_word_ariths(1) [of "x - a" "a - b"] by (simp add: mod_less_eq_dividend le_less_trans)
    then show "filled m b 0 n x = 0" by (simp add: filled_def)
  qed
  also have "\<dots> = 0"
    by (rule bit_word_eqI) (simp add: load32_def bit_simps bit_load)
  finally show ?thesis .
qed

lemma split_zero:
  assumes "200 \<le> unat n" "unat n + 63 < 18446744073709551616"
  shows "SPLIT_PEBBLE n 0"
proof -
  define w where "w = n + 63"
  have w: "unat w = unat n + 63" using assms(2) by (simp add: w_def unat_add_64)
  have "(w AND NOT 64) + (w AND 64) = (w AND NOT 64) OR (w AND 64)"
    by (rule disjunctive_add) (simp only: bit_and_iff bit_not_iff, blast)
  also have "\<dots> = w"
    by (rule bit_word_eqI) (simp only: bit_and_iff bit_not_iff bit_or_iff possible_bit_word, blast)
  finally have "unat w \<le> unat (w AND NOT 64) + unat (w AND 64)"
    by (metis unat_word_ariths(1) mod_less_eq_dividend)
  moreover have "unat (w AND 64) \<le> 64" using word_and_le1 [of w 64] by (simp add: word_le_nat_alt)
  ultimately have "124 < unat (w AND NOT 64)" using w assms(1) by linarith
  then have "(124 :: u64) < w AND NOT 64" by (simp only: word_less_nat_alt) simp
  moreover have "n + 64 - 1 = w" by (simp add: w_def)
  ultimately show ?thesis unfolding SPLIT_PEBBLE_def heap_consts by (simp only:) simp
qed

text \<open>
  The state after a small request: the first block has size 0, and the header of the second one, at the
  address that was handed out, is zero.
\<close>

definition wiped :: "memory \<Rightarrow> u64 \<Rightarrow> bool" where
  "wiped m b \<longleftrightarrow> b \<noteq> 0 \<and> load32 m (b + 4) AND BUCKET_FLAG_BEST = 0 \<and> \<not> bit (load32 m (b + 24)) 0
     \<and> load64 m (b + 40) = b + 64 \<and> load32 m (b + 68) AND 1 = 1 \<and> load64 m (b + 80) = 0 \<and> load64 m (b + 116) = b + 124
     \<and> load32 m (b + 128) = 0 \<and> load64 m (b + 140) = 0 \<and> load64 m (b + 176) = 0 \<and> b + 64 \<noteq> 0 \<and> b + 124 \<noteq> 0"

lemma kmalloc_wipes:
  assumes ok: "heap_ok s [(False, n)]" and n: "200 \<le> unat n" and sz: "unat sz \<le> 4032"
  shows "\<exists>s'. kmalloc s sz = Some (KHEAPSTART s + 124, s') \<and> wiped (mem s') (KHEAPSTART s) \<and> KHEAPSTART s' = KHEAPSTART s"
proof -
  define b where "b = KHEAPSTART s"
  define sz' where "sz' = (if sz < 64 then 64 else sz)"
  have sz': "64 \<le> unat sz'" "unat sz' \<le> 4032" using sz by (auto simp: sz'_def word_less_nat_alt)
  have r0: "request_size sz' = 0" using unat_request [of sz'] sz' by (intro word_eq_unatI) simp
  have rep: "bucket_rep (mem s) (KHEAPSTART s) [(False, n)]" and room: "unat b + 124 + unat n < 18446744073709551616"
    using ok by (auto simp: heap_ok_def b_def bucket_rep_def)
  have fit: "first_fit 0 [(False, n)] = Some ([], n, [])" by simp
  have split: "SPLIT_PEBBLE n 0" using n room by (intro split_zero) auto
  obtain m' s' where m': "kmalloc s sz = Some (b + 124, s')" "mem s' = filled m' (b + 124) 0 (unat sz')"
      "bucket_rep m' b [(True, 0), (False, n - 60)]" "load32 m' (b_spinlock b) = 0"
      "load32 m' (b_lflags b) = load32 (mem s) (b_lflags b)" "KHEAPSTART s' = b"
    using kmalloc_fit [OF rep fit heap_open [OF ok fit] sz'_def r0 [symmetric]] split
    by (auto simp: cut_block_def b_def add.assoc)
  have "unat (b + 64) = unat b + 64" "unat (b + 124) = unat b + 124" using room by (simp_all add: unat_add_64)
  then have "b + 64 \<noteq> 0" "b + 124 \<noteq> 0" "b \<noteq> 0" using rep by (auto simp: bucket_rep_def b_def)
  moreover have "load32 (mem s) (b + 4) AND BUCKET_FLAG_BEST = 0"
    using ok by (simp add: heap_ok_def header_ok_def b_def layout)
  moreover have "load64 m' (b + 40) = b + 64" "\<not> IS_PEBBLE_FREE m' (b + 64)" "load64 m' (b + 80) = 0" "load64 m' (b + 116) = b + 124"
    using m'(3) by (auto simp: bucket_rep_def pebble_at_def layout add.assoc)
  ultimately have "wiped (mem s') b"
    using sz' m'(4,5) unfolding wiped_def m'(2)
    by (simp add: layout IS_PEBBLE_FREE_def heap_consts mem_simps sep_offsets load32_filled_0 add.assoc and_one_eq)
  then show ?thesis using m'(1,6) unfolding b_def by blast
qed

lemma place_wiped:
  assumes w: "wiped m b"
  defines "m1 \<equiv> store32 m (b + 24) (load32 m (b + 24) OR 1)"
  shows "place_pebble m1 b 0 PEBBLE_FLAG_IN_USE = Some (b + 124, store32 m1 (b + 128) 1)"
    "bucket_update_largest (store32 m1 (b + 128) 1) b = Some (0, store64 (store32 m1 (b + 128) 1) (b + 8) 0)"
proof -
  have f: "first_loop m1 (b + 64) 0 = Some (b + 124)"
    using w unfolding m1_def wiped_def
    by (simp add: first_loop.simps [of _ "b + 64"] first_loop.simps [of _ "b + 124"] IS_PEBBLE_FREE_def heap_consts layout
        mem_simps sep_offsets add.assoc)
  have "\<not> SPLIT_PEBBLE 0 0" by (simp add: SPLIT_PEBBLE_def heap_consts)
  then have "take_pebble m1 (b + 124) 0 PEBBLE_FLAG_IN_USE = (b + 124, store32 m1 (b + 128) 1)"
    using w unfolding m1_def wiped_def
    by (simp add: take_pebble_def split_pebble_def layout mem_simps sep_offsets add.assoc heap_consts)
  then show "place_pebble m1 b 0 PEBBLE_FLAG_IN_USE = Some (b + 124, store32 m1 (b + 128) 1)"
    using w f unfolding wiped_def by (simp add: place_pebble_def layout m1_def mem_simps sep_offsets)
  show "bucket_update_largest (store32 m1 (b + 128) 1) b = Some (0, store64 (store32 m1 (b + 128) 1) (b + 8) 0)"
    using w unfolding m1_def wiped_def
    by (simp add: bucket_update_largest_def largest_loop.simps [of _ "b + 64"] largest_loop.simps [of _ "b + 124"]
        largest_loop.simps [of _ 0] layout mem_simps sep_offsets add.assoc)
qed

lemma kmalloc_wiped:
  assumes w: "wiped (mem s) (KHEAPSTART s)" and ptr: "KHEAPSTART s + 184 \<noteq> 0" and sz: "unat sz \<le> 4032"
  shows "\<exists>s'. kmalloc s sz = Some (KHEAPSTART s + 184, s')"
proof -
  define b where "b = KHEAPSTART s"
  define sz' where "sz' = (if sz < 64 then 64 else sz)"
  have "64 \<le> unat sz'" "unat sz' \<le> 4032" using sz by (auto simp: sz'_def word_less_nat_alt)
  then have r0: "request_size sz' = 0" using unat_request [of sz'] by (intro word_eq_unatI) simp
  have wb: "wiped (mem s) b" using w by (simp add: b_def)
  note pl = place_wiped [OF wb]
  have "b \<noteq> 0" "b + 124 \<noteq> 0" "\<not> bit (load32 (mem s) (b + 24)) 0" using wb by (simp_all add: wiped_def)
  then have "\<exists>m'. bucket_loop (mem s) b 0 PEBBLE_FLAG_IN_USE = Some (b + 184, m')"
    using pl by (subst bucket_loop.simps)
      (simp add: acquire_at_def acquire_spinlock_def b_spinlock_def sizeof_pebble_def add.assoc)
  then obtain m' where "bucket_loop (mem s) b 0 PEBBLE_FLAG_IN_USE = Some (b + 184, m')" by blast
  then show ?thesis
    using ptr unfolding kmalloc_def Let_def PEBBLE_MIN_SIZE_def sz'_def [symmetric] r0 b_def [symmetric] by simp
qed

section \<open>A shrink that closes a cycle\<close>

lemma largest_loop_cycle:
  assumes "largest_loop m v a = Some r" "v \<noteq> 0" "load64 m (p_next v) = v"
  shows False
proof -
  have "v \<noteq> 0 \<longrightarrow> load64 m (p_next v) \<noteq> v"
  proof (rule largest_loop.raw_induct [where P = "\<lambda>m v a r. v \<noteq> 0 \<longrightarrow> load64 m (p_next v) \<noteq> v", OF _ assms(1)], intro impI notI)
    fix loop m p c y
    assume IH: "\<And>m p c y. loop m p c = Some y \<Longrightarrow> p \<noteq> 0 \<longrightarrow> load64 m (p_next p) \<noteq> p"
      and body: "(if p \<noteq> 0 then loop m (load64 m (p_next p)) (if c < load64 m (p_size p) then load64 m (p_size p) else c) else Some c) = Some y"
      and p: "p \<noteq> 0" "load64 m (p_next p) = p"
    from body p have "loop m p (if c < load64 m (p_size p) then load64 m (p_size p) else c) = Some y" by simp
    from IH [OF this] p show False by simp
  qed
  then show False using assms by blast
qed

lemma split_4034:
  assumes p: "pebble_at m b q p (p + 4156) True 4096" and v: "p + 4156 \<noteq> 0" "sep (p + 4156) 60 p 60"
  defines "m' \<equiv> snd (split_pebble m p 4034)"
  shows "fst (split_pebble m p 4034) = p" "pebble_at m' b (p + 4156) (p + 4156) (p + 4156) True (- 60)"
    "pebble_at m' b q p (p + 4156) True 4096"
    "\<And>x. \<not> unat (x - p) < 60 \<Longrightarrow> \<not> unat (x - (p + 4156)) < 60 \<Longrightarrow> m' x = m x"
proof -
  define w where "w = p + 4156"
  note pw = p [folded w_def] and sw = v(2) [folded w_def]
  note new = copied_header [OF sw pw]
  have ps: "sep p 60 w 60" using sw by (simp add: sep_sym)
  define m4 where "m4 = split_new m p w (- 60)"
  have d4: "differ_in w 60 m m4" unfolding m4_def by (rule split_new_differ [OF sw pw])
  have w4: "pebble_at m4 b p w w True (- 60)"
    unfolding m4_def split_new_def by (rule pebble_fresh [OF new(1)])
  have p4: "pebble_at m4 b q p w True 4096" using pw pebble_apart [OF d4 ps] by blast
  define m5 where "m5 = store64 m4 (p_prev w) w"
  have w5: "pebble_at m5 b w w w True (- 60)" unfolding m5_def by (rule pebble_set_prev [OF w4])
  have p5: "pebble_at m5 b q p w True 4096" unfolding m5_def using p4 pebble_apart [OF differ_fields(3) ps] by blast
  have "pebble_at (snd (memcpy m w p sizeof_pebble)) b q p w True 4096" using pw pebble_apart [OF new(2) ps] by blast
  then have l: "load64 (snd (memcpy m w p sizeof_pebble)) (p_size p) = 4096" "load64 m4 (p_next p) = w" "load64 m (p_size p) = 4096"
    using p4 pw by (simp_all add: pebble_at_def)
  have sp: "SPLIT_PEBBLE 4096 4034" by (simp add: SPLIT_PEBBLE_def heap_consts)
  have rd: "(4034 + (PEBBLE_MIN_ALIGN - 1)) AND NOT (PEBBLE_MIN_ALIGN - 1) = 4096" by (simp add: PEBBLE_MIN_ALIGN_def)
  have np: "p + sizeof_pebble + 4096 = w" by (simp add: w_def sizeof_pebble_def)
  have "split_pebble m p 4034 = (p, cut_at m5 p 4096 w)"
    using l sp v(1) unfolding split_pebble_def Let_def rd np cut_at_def m5_def m4_def split_new_def w_def [symmetric]
    by (simp add: sizeof_pebble_def)
  then have m': "m' = cut_at m5 p 4096 w" and "fst (split_pebble m p 4034) = p" by (simp_all add: m'_def)
  show "fst (split_pebble m p 4034) = p" by fact
  show "pebble_at m' b q p (p + 4156) True 4096"
    unfolding m' cut_at_def w_def [symmetric] by (rule pebble_cut [OF p5])
  show "pebble_at m' b (p + 4156) (p + 4156) (p + 4156) True (- 60)"
    unfolding m' w_def [symmetric] using w5 pebble_apart [OF cut_differ sw] by blast
  show "m' x = m x" if "\<not> unat (x - p) < 60" "\<not> unat (x - (p + 4156)) < 60" for x
    using that d4 differ_fields(3) [of w m4 w] cut_differ [of p m5 4096 w]
    by (simp add: differ_in_def m' m5_def w_def)
qed

lemma krealloc_cycle:
  assumes ok: "heap_ok s ((True, 4096) # y # ys)"
  defines "b \<equiv> KHEAPSTART s"
  shows "\<exists>s'. krealloc s (b + 124) 4034 = Some (b + 124, s') \<and> bucket_update_largest (mem s') b = None
    \<and> load64 (mem s') (p_next (b + 4220)) = b + 4220 \<and> load64 (mem s') (p_size (b + 4220)) = - 60"
proof -
  obtain u k where y: "y = (u, k)" by fastforce
  have rep: "bucket_rep (mem s) b ([] @ (True, 4096) # (u, k) # ys)" and lock: "\<not> bit (load32 (mem s) (b_spinlock b)) 0"
    using ok by (simp_all add: heap_ok_def b_def y)
  define m1 where "m1 = store32 (mem s) (b_spinlock b) (load32 (mem s) (b_spinlock b) OR 1)"
  have acq: "acquire_at (mem s) (b_spinlock b) = Some m1"
    using lock by (simp add: acquire_at_def acquire_spinlock_def m1_def)
  have rep1: "bucket_rep m1 b ([] @ (True, 4096) # (u, k) # ys)" unfolding m1_def by (rule lock_store(1) [OF rep])
  define v where "v = b + 4220"
  have e: "b + 64 + 60 + 4096 = v" "b + 64 + 4156 = v" "4220 + b = v" by (simp_all add: v_def)
  note nb = neighbours [OF rep1, simplified, unfolded e]
  have room: "unat b + 64 + (60 + 4096 + (60 + unat k + extent ys)) < 18446744073709551616" and b0: "b \<noteq> 0"
    using rep by (simp_all add: bucket_rep_def)
  have ub: "unat (b + 124) = unat b + 124" "unat (b + 64) = unat b + 64" "unat v = unat b + 4220"
    using room by (simp_all add: unat_add_64 v_def)
  note sp = split_4034 [of m1 b 0 "b + 64", unfolded e, OF nb(1,5,3)]
  define m2 where "m2 = snd (split_pebble m1 (b + 64) 4034)"
  define m3 where "m3 = store32 m2 (b_spinlock b) 0"
  have sep: "sep v 60 b 64" "sep (b + 64) 60 b 64" "sep b 64 v 60" "sep b 64 (b + 64) 60"
    using ub room by (auto simp: sep_sym [of _ _ b 64] intro!: sep_ordered)
  have v3: "pebble_at m3 b v v v True (- 60)" "pebble_at m3 b 0 (b + 64) v True 4096"
    unfolding m3_def using sp(2,3) pebble_apart [OF differ_header(1) sep(1)] pebble_apart [OF differ_header(1) sep(2)]
    by (auto simp: m2_def)
  have "same_header b m1 m2"
    using sp(4) sep_apart [OF sep(3)] sep_apart [OF sep(4)] by (auto simp: same_header_def m2_def)
  then have "load64 m2 (b + 40) = load64 m1 (b + 40)" by (rule same_header_load) simp
  then have first: "load64 m3 (b_first b) = b + 64"
    using rep1 by (simp add: m3_def layout mem_simps sep_offsets bucket_rep_def)
  have "largest_loop m3 v a = None" for a
    using largest_loop_cycle [of m3 v a] nb(5) v3(1) by (cases "largest_loop m3 v a") (auto simp: pebble_at_def)
  then have "bucket_update_largest m3 b = None"
    using first v3(2) nb(4) by (simp add: bucket_update_largest_def largest_loop.simps [of m3 "b + 64"] pebble_at_def)
  moreover have "krealloc s (b + 124) 4034 = Some (b + 124, s\<lparr>mem := m3\<rparr>)"
  proof -
    have p: "load32 (mem s) (p_magic (b + 64)) = KMALLOC_MAGIC_PEBBLE" "load64 (mem s) (p_size (b + 64)) = 4096"
        "load64 (mem s) (p_parent (b + 64)) = b"
      using rep by (simp_all add: bucket_rep_def pebble_at_def)
    have par: "load64 m2 (p_parent (b + 64)) = b" using sp(3) by (simp add: m2_def pebble_at_def)
    have ptr: "b + 124 \<noteq> 0" "b + 124 - sizeof_pebble = b + 64" using ub by (auto simp: sizeof_pebble_def)
    show ?thesis
      using p par ptr acq nb(4) unfolding krealloc_def Let_def ptr(2)
      by (simp add: shrink_pebble_def release_at_def release_spinlock_def m2_def [symmetric] m3_def [symmetric] sizeof_pebble_def)
  qed
  ultimately show ?thesis
    using v3(1) unfolding v_def by (intro exI [of _ "s\<lparr>mem := m3\<rparr>"]) (simp add: pebble_at_def)
qed

section \<open>Properties\<close>

text \<open>The heap of the examples: one fresh bucket of seventeen pages at \<open>0x800000\<close>.\<close>

definition fresh_heap :: machine where
  "fresh_heap = boot_state\<lparr>mem := fresh_bucket (\<lambda>_. 0) 0x800000 0 17 69508, KHEAPSTART := 0x800000\<rparr>"

lemma fresh_heap_ok: "heap_ok fresh_heap [(False, 69508)]" "KHEAPSTART fresh_heap = 0x800000"
proof -
  note rd = fresh_reads [of "\<lambda>_. 0" "0x800000" 0 17 69508, simplified]
  show "heap_ok fresh_heap [(False, 69508)]"
    unfolding heap_ok_def bucket_rep_def header_ok_def pebble_at_def IS_PEBBLE_FREE_def fresh_heap_def layout
    by (simp add: rd heap_consts pebble_at_def IS_PEBBLE_FREE_def layout)
qed (simp add: fresh_heap_def)

lemma fresh_heap_request:
  "kmalloc_covers 4096" "kmalloc_rounded 4096 = 4096"
  "first_fit (kmalloc_rounded 4096) [(False, 69508)] = Some ([], 69508, [])"
  "cut_block 4096 69508 = [(True, 4096), (False, 65352)]"
  by (simp_all add: kmalloc_covers_def kmalloc_rounded_def request_size_def cut_block_def SPLIT_PEBBLE_def heap_consts)

lemma fresh_heap_used:
  "\<exists>s. kmalloc fresh_heap 4096 = Some (0x80007C, s) \<and> heap_ok s [(True, 4096), (False, 65352)] \<and> KHEAPSTART s = 0x800000"
  using kmalloc_heap [OF fresh_heap_ok(1) fresh_heap_request(1,3)] fresh_heap_request(2,4)
  by (auto simp: block_addr_def fresh_heap_ok(2))

text \<open>\<open>kmalloc\<close> refines first fit on a list of blocks, for a request that its rounding covers: it takes the first free
  block that is large enough, cuts it if there is room for another pebble, and returns the address of its payload, zeroed;
  the blocks tile the bucket as before, the lock is free again and no byte in a block in use has changed.\<close>
theorem kmalloc_allocates:
  assumes "heap_ok s bs" "kmalloc_covers sz" "first_fit (kmalloc_rounded sz) bs = Some (xs, n, ys)"
  shows "\<exists>s'. kmalloc s sz = Some (block_addr s xs, s') \<and> heap_ok s' (xs @ cut_block (kmalloc_rounded sz) n @ ys)
    \<and> keeps (KHEAPSTART s + 64) bs (mem s) (mem s')
    \<and> (\<forall>x. unat (x - block_addr s xs) < unat sz \<longrightarrow> mem s' x = 0)"
proof -
  have "unat sz \<le> unat (if sz < 64 then 64 else sz)" by (simp add: word_less_nat_alt)
  then show ?thesis using kmalloc_heap [OF assms] by (meson less_le_trans)
qed

theorem kmalloc_allocates_witness:
  "\<exists>s'. kmalloc fresh_heap 4096 = Some (0x80007C, s') \<and> heap_ok s' [(True, 4096), (False, 65352)] \<and> mem s' 0x80007C = 0"
  using kmalloc_allocates [OF fresh_heap_ok(1) fresh_heap_request(1,3)] fresh_heap_request(2,4)
  by (auto simp: block_addr_def fresh_heap_ok(2))

text \<open>\<open>kfree\<close> on a payload of the first bucket returns the block and joins it with a free block before and after it: the
  blocks still tile the bucket, the lock is free again, and no byte in another block in use has changed.\<close>
theorem kfree_releases:
  assumes "heap_ok s (xs @ (u, n) # ys)"
  shows "\<exists>s'. kfree s (block_addr s xs) = Some s' \<and> heap_ok s' (free_block xs n ys)
    \<and> keeps (KHEAPSTART s + 64) (xs @ (False, n) # ys) (mem s) (mem s')"
  using kfree_heap [OF assms] by blast

theorem kfree_releases_witness:
  "\<exists>s s'. heap_ok s [(True, 4096), (False, 65352)] \<and> kfree s 0x80007C = Some s' \<and> heap_ok s' [(False, 69508)]"
proof -
  obtain s where s: "heap_ok s [(True, 4096), (False, 65352)]" "KHEAPSTART s = 0x800000"
    using fresh_heap_used by blast
  then have ok: "heap_ok s ([] @ (True, 4096) # [(False, 65352)])" by simp
  show ?thesis
    using kfree_releases [OF ok] s by (auto simp: block_addr_def free_block_def melt_def neighbour_free_def)
qed

text \<open>Allocating and freeing again gives the same list of blocks, when the block that first fit took has no free
  neighbour: nothing is lost to fragmentation.\<close>
theorem kmalloc_kfree_round_trip:
  assumes "heap_ok s bs" "kmalloc_covers sz" "first_fit (kmalloc_rounded sz) bs = Some (xs, n, ys)"
    "\<not> neighbour_free xs" "ys = [] \<or> fst (hd ys)"
  shows "\<exists>s1 s2. kmalloc s sz = Some (block_addr s xs, s1) \<and> kfree s1 (block_addr s xs) = Some s2 \<and> heap_ok s2 bs"
  using assms by (rule kheap.alloc_free)

theorem kmalloc_kfree_round_trip_witness:
  "\<exists>s1 s2. kmalloc fresh_heap 4096 = Some (0x80007C, s1) \<and> kfree s1 0x80007C = Some s2 \<and> heap_ok s2 [(False, 69508)]"
  using kmalloc_kfree_round_trip [OF fresh_heap_ok(1) fresh_heap_request(1,3)]
  by (simp add: neighbour_free_def block_addr_def fresh_heap_ok(2))

text \<open>C28. Which requests get a block that is large enough. \<open>kmalloc\<close> rounds the request up to a multiple of 64 and then down to a whole
  page, takes the first free block of that size and hands it out whole when it is too small to be cut, so that the block it records is
  large enough exactly if the request is a multiple of 4096 or up to 63 bytes less, or the block was left uncut and happens to hold it.
  Every other request is answered with a block that is too small, of size 0 up to 4032 bytes if it is cut. The \<open>sz\<close> bytes from its
  address are zeroed all the same, and the header of the block behind it with them.\<close>
theorem kmalloc_grants:
  assumes "heap_ok s bs" "64 \<le> unat sz" "unat sz + 63 < 18446744073709551616"
    "r = of_nat (4096 * ((unat sz + 63) div 4096))" "first_fit r bs = Some (xs, n, ys)"
  shows "\<exists>s' k. kmalloc s sz = Some (block_addr s xs, s') \<and> load64 (mem s') (p_size (block_addr s xs - 60)) = k
    \<and> k = (if SPLIT_PEBBLE n r then r else n)
    \<and> (unat sz \<le> unat k \<longleftrightarrow>
        unat sz mod 4096 = 0 \<or> 4033 \<le> unat sz mod 4096 \<or> \<not> SPLIT_PEBBLE n r \<and> unat sz \<le> unat n)
    \<and> (unat sz \<le> 4032 \<and> SPLIT_PEBBLE n r \<longrightarrow> k = 0)
    \<and> (\<forall>x. unat (x - block_addr s xs) < unat sz \<longrightarrow> mem s' x = 0)
    \<and> (unat k + 4 \<le> unat sz \<longrightarrow> load32 (mem s') (p_magic (block_addr s xs + k)) = 0)"
proof -
  let ?p = "end_addr (KHEAPSTART s + 64) xs"
  define k where "k = (if SPLIT_PEBBLE n r then r else n)"
  have e: "sz = (if sz < 64 then 64 else sz)" using assms(2) by (simp add: word_less_nat_alt)
  note pf = page_floor [of "unat sz"]
  have r: "unat r = 4096 * ((unat sz + 63) div 4096)" "r = request_size sz"
    using unat_of_nat_64 [OF le_less_trans [OF pf(1) assms(3)]] unat_request [OF assms(3)] by (auto simp: assms(4) intro!: word_eq_unatI)
  have rep: "bucket_rep (mem s) (KHEAPSTART s) bs" using assms(1) by (simp add: heap_ok_def)
  obtain m' s' where m': "kmalloc s sz = Some (?p + 60, s')" "mem s' = filled m' (?p + 60) 0 (unat sz)"
      "bucket_rep m' (KHEAPSTART s) (xs @ cut_block r n @ ys)"
    using kmalloc_fit [OF rep assms(5) heap_open [OF assms(1,5)] e r(2)] by metis
  obtain zs where zs: "cut_block r n @ ys = (True, k) # zs" by (cases "SPLIT_PEBBLE n r") (auto simp: cut_block_def k_def)
  have "load64 m' (?p + 16) = k" using bucket_split(1) [OF m'(3) [unfolded zs]] by (auto simp: pebble_at_def layout)
  moreover have "sep (?p + 16) 8 (?p + 60) (unat sz)" using assms(3) by (simp add: sep_def)
  ultimately have size: "load64 (mem s') (p_size (?p + 60 - 60)) = k" by (simp add: m'(2) layout mem_simps)
  have "unat sz \<le> unat k \<longleftrightarrow> unat sz mod 4096 = 0 \<or> 4033 \<le> unat sz mod 4096 \<or> \<not> SPLIT_PEBBLE n r \<and> unat sz \<le> unat n"
  proof -
    have "unat r \<le> unat n" using first_fit_some [OF assms(5)] by (simp add: word_le_nat_alt)
    moreover have "unat sz \<le> unat r \<longleftrightarrow> unat sz mod 4096 = 0 \<or> 4033 \<le> unat sz mod 4096" using pf(2) by (simp add: r(1))
    ultimately show ?thesis by (auto simp: k_def)
  qed
  moreover have "k = 0" if "unat sz \<le> 4032" "SPLIT_PEBBLE n r" using that r(1) by (intro word_eq_unatI) (simp add: k_def)
  moreover have "load32 (mem s') (?p + 60 + k) = 0" if "unat k + 4 \<le> unat sz" using that by (simp add: m'(2) load32_filled_0)
  ultimately show ?thesis
    using m'(1) size unfolding block_addr_def by (intro exI [of _ s'] exI [of _ k]) (simp add: k_def [symmetric] m'(2) filled_def p_magic_def)
qed

theorem kmalloc_grants_witness:
  "\<exists>s'. kmalloc fresh_heap 5000 = Some (0x80007C, s') \<and> load64 (mem s') 0x800050 = 4096 \<and> load32 (mem s') 0x80107C = 0"
proof -
  have "first_fit 4096 [(False, 69508)] = Some ([], 69508, [])" "SPLIT_PEBBLE 69508 4096"
    by (simp_all add: SPLIT_PEBBLE_def heap_consts)
  then show ?thesis
    using kmalloc_grants [OF fresh_heap_ok(1), of 5000 4096 "[]" 69508 "[]"]
    by (auto simp: block_addr_def fresh_heap_ok(2) layout)
qed

text \<open>Two requests of at most 4032 bytes from a fresh bucket are handed overlapping blocks: the first one is given a block
  of size 0, zeroing its 64 or more bytes wipes the header of the pebble after it, and the second request starts 60 bytes
  after the first.\<close>
theorem kmalloc_small_overlap:
  assumes "heap_ok s [(False, n)]" "200 \<le> unat n" "unat sz1 \<le> 4032" "unat sz2 \<le> 4032"
  shows "\<exists>p s1 s2. kmalloc s sz1 = Some (p, s1) \<and> kmalloc s1 sz2 = Some (p + 60, s2)"
proof -
  have "unat (KHEAPSTART s) + 200 < 18446744073709551616"
    using assms(1,2) by (simp add: heap_ok_def bucket_rep_def)
  then have "unat (KHEAPSTART s + 184) = unat (KHEAPSTART s) + 184" by (simp add: unat_add_64)
  then have ptr: "KHEAPSTART s + 184 \<noteq> 0" by auto
  obtain s1 where s1: "kmalloc s sz1 = Some (KHEAPSTART s + 124, s1)" "wiped (mem s1) (KHEAPSTART s1)" "KHEAPSTART s1 = KHEAPSTART s"
    using kmalloc_wipes [OF assms(1-3)] by auto
  then obtain s2 where "kmalloc s1 sz2 = Some (KHEAPSTART s + 184, s2)"
    using kmalloc_wiped [OF s1(2) _ assms(4)] ptr by auto
  moreover have "KHEAPSTART s + 124 + 60 = KHEAPSTART s + 184" by simp
  ultimately show ?thesis using s1(1) by metis
qed

theorem kmalloc_small_overlap_witness:
  "\<exists>p s1 s2. kmalloc fresh_heap 64 = Some (p, s1) \<and> kmalloc s1 64 = Some (p + 60, s2)"
  using kmalloc_small_overlap [OF fresh_heap_ok(1), of 64 64] by simp

text \<open>C27. \<open>krealloc\<close> from 4096 to 4034 bytes destroys the block list: the test for a split ignores that the request is rounded up
  to 64, so the "rest" starts on the header of the next block, gets the size \<open>2^64 - 60\<close> and points to itself; from then on
  \<open>bucket_update_largest\<close>, which every later allocation and release runs, never returns.\<close>
theorem krealloc_shrink_cycle:
  assumes "heap_ok s ((True, 4096) # y # ys)"
  shows "\<exists>s'. krealloc s (KHEAPSTART s + 124) 4034 = Some (KHEAPSTART s + 124, s')
    \<and> bucket_update_largest (mem s') (KHEAPSTART s) = None
    \<and> load64 (mem s') (p_next (KHEAPSTART s + 4220)) = KHEAPSTART s + 4220
    \<and> load64 (mem s') (p_size (KHEAPSTART s + 4220)) = - 60"
  using krealloc_cycle [OF assms] .

theorem krealloc_shrink_cycle_witness:
  "\<exists>s s'. kmalloc fresh_heap 4096 = Some (0x80007C, s) \<and> krealloc s 0x80007C 4034 = Some (0x80007C, s')
    \<and> bucket_update_largest (mem s') 0x800000 = None"
proof -
  obtain s where s: "kmalloc fresh_heap 4096 = Some (0x80007C, s)" "heap_ok s [(True, 4096), (False, 65352)]" "KHEAPSTART s = 0x800000"
    using fresh_heap_used by blast
  show ?thesis using krealloc_shrink_cycle [OF s(2)] s by auto
qed

text \<open>C29. \<open>bucket_update_largest\<close> returns on every well-formed bucket and records the size of the largest block; blocks in use
  count as well, although the field is documented as the largest free block.\<close>
theorem bucket_update_largest_all:
  assumes "bucket_rep m b bs"
  shows "\<exists>r m'. bucket_update_largest m b = Some (r, m') \<and> load64 m' (b_largest_free b) = r \<and> bucket_rep m' b bs
    \<and> (\<forall>(u, n)\<in>set bs. n \<le> r) \<and> (r = 0 \<or> (\<exists>u. (u, r) \<in> set bs))"
proof -
  have "largest a bs = a \<or> (\<exists>u. (u, largest a bs) \<in> set bs)" for a
  proof (induction a bs rule: largest.induct)
    case (2 a u n bs)
    then show ?case by (cases "n > a") auto
  qed simp
  moreover have "load64 (store64 m (b_largest_free b) (largest 0 bs)) (b_largest_free b) = largest 0 bs"
    by (simp add: mem_simps)
  ultimately show ?thesis
    using update_largest_rep(1,2) [OF assms] largest_ge by blast
qed

theorem bucket_update_largest_all_witness:
  "\<exists>s r m'. heap_ok s [(True, 4096), (False, 65352)] \<and> bucket_update_largest (mem s) 0x800000 = Some (r, m') \<and> 4096 \<le> r"
proof -
  obtain s where s: "heap_ok s [(True, 4096), (False, 65352)]" "KHEAPSTART s = 0x800000"
    using fresh_heap_used by blast
  then have "bucket_rep (mem s) 0x800000 [(True, 4096), (False, 65352)]" by (simp add: heap_ok_def)
  from bucket_update_largest_all [OF this] show ?thesis using s(1) by auto
qed

text \<open>A new bucket is one free block: for any request below the top of the address space \<open>create_bucket\<close> asks for a whole number
  of pages, at least seventeen, and lays out in the range it gets one pebble whose payload reaches exactly to the end.\<close>
theorem create_bucket_tiles:
  assumes "mmap s (bucket_bytes sz div PAGESIZE) = Some (a, s1)" "a \<noteq> 0"
    "unat sz + 4096 < 18446744073709551616" "unat a + unat (bucket_bytes sz) < 18446744073709551616"
  shows "\<exists>s2. create_bucket s sz flags = Some (a, s2) \<and> bucket_rep (mem s2) a [(False, bucket_bytes sz - 124)]
    \<and> header_ok (mem s2) a [(False, bucket_bytes sz - 124)] \<and> unat sz \<le> unat (bucket_bytes sz)
    \<and> 64 + extent [(False, bucket_bytes sz - 124)] = unat (bucket_bytes sz)"
proof -
  note bb = bucket_bytes_bound [OF assms(3)]
  have "unat (bucket_bytes sz - 124) = unat (bucket_bytes sz) - 124"
    using bb(1) by (simp add: unat_diff_64 word_le_nat_alt)
  then show ?thesis using create_bucket_fresh [OF assms] bb by auto
qed

theorem create_bucket_tiles_witness:
  "\<exists>s2. create_bucket small_vmm 0 0 = Some (0x400000, s2) \<and> bucket_rep (mem s2) 0x400000 [(False, 69508)]"
proof -
  have b: "bucket_bytes 0 = 69632" "69632 div PAGESIZE = 17" by (simp_all add: bucket_bytes_def heap_consts)
  obtain s1 where "mmap small_vmm 17 = Some (0x400000, s1)"
    using mmap_one_page [OF small_vmm_ok(1), of 17] by (auto simp: small_vmm_ok(2,3))
  then show ?thesis
    using create_bucket_tiles [of small_vmm 0 "0x400000" s1 0] by (auto simp: b)
qed

end
