(* ===== verification/Buckets.thy ===== *)
theory Buckets
  imports Bucketalloc
begin

text \<open>
  The list of buckets of the kernel heap: \<^verbatim>\<open>kernel/src/klibc/bucketalloc.c\<close> chains its buckets from \<open>KHEAPSTART\<close> on in a doubly linked
  list, searches them in turn, maps a new one when none has room, and unmaps one that has become empty. Here the operations of
  \<open>Bucketalloc\<close> are shown on the whole list, with the virtual memory manager, the page tables and the frame list below them.
\<close>

section \<open>Chains of buckets\<close>

type_synonym bucket = "u64 \<times> block list"

definition bucket_size :: "bucket \<Rightarrow> nat" where
  "bucket_size c = 64 + extent (snd c)"

definition head_addr :: "bucket list \<Rightarrow> u64" where
  "head_addr cs = (case cs of [] \<Rightarrow> 0 | c # _ \<Rightarrow> fst c)"

definition bucket_ok :: "memory \<Rightarrow> u64 \<Rightarrow> u64 \<Rightarrow> bucket \<Rightarrow> bool" where
  "bucket_ok m q nx c \<longleftrightarrow> bucket_rep m (fst c) (snd c) \<and> header_ok m (fst c) (snd c) \<and> load32 m (b_spinlock (fst c)) = 0
     \<and> 4096 * unat (load64 m (b_size (fst c))) = bucket_size c
     \<and> load64 m (b_prev (fst c)) = q \<and> load64 m (b_next (fst c)) = nx"

fun chain :: "memory \<Rightarrow> u64 \<Rightarrow> bucket list \<Rightarrow> bool" where
  "chain m q [] \<longleftrightarrow> True"
| "chain m q (c # cs) \<longleftrightarrow> bucket_ok m q (head_addr cs) c \<and> chain m (fst c) cs"

definition apart :: "bucket \<Rightarrow> bucket \<Rightarrow> bool" where
  "apart c d \<longleftrightarrow> sep (fst c) (bucket_size c) (fst d) (bucket_size d)"

lemma apart_sym: "apart c d = apart d c"
  by (simp add: apart_def sep_sym)

definition heap_list :: "machine \<Rightarrow> bucket list \<Rightarrow> bool" where
  "heap_list s cs \<longleftrightarrow> cs \<noteq> [] \<and> head_addr cs = KHEAPSTART s \<and> chain (mem s) 0 cs \<and> pairwise apart (set cs) \<and> distinct cs"

text \<open>A bucket depends on its own bytes only.\<close>

definition same_bytes :: "u64 \<Rightarrow> nat \<Rightarrow> memory \<Rightarrow> memory \<Rightarrow> bool" where
  "same_bytes a n m m' \<longleftrightarrow> (\<forall>x. unat (x - a) < n \<longrightarrow> m' x = m x)"

lemma same_load:
  assumes "same_bytes b n m m'" "n < 18446744073709551616"
  shows "unat i + 8 \<le> n \<Longrightarrow> load64 m' (b + i) = load64 m (b + i)"
    and "unat i + 4 \<le> n \<Longrightarrow> load32 m' (b + i) = load32 m (b + i)"
  using assms inside_from [of _ b i 8 n] inside_from [of _ b i 4 n]
  by (auto simp: same_bytes_def intro!: c64.get_local c32.get_local)

lemma seg_same:
  "same_bytes p (extent bs) m m' \<Longrightarrow> extent bs < 18446744073709551616 \<Longrightarrow> seg m' b q p nx bs = seg m b q p nx bs"
proof (induction bs arbitrary: q p)
  case (Cons c bs)
  obtain u n where c: "c = (u, n)" by fastforce
  note f = same_load [OF Cons.prems]
  have "pebble_at m' b q p nx' u n = pebble_at m b q p nx' u n" for nx'
    using f(1) [of 16] f(1) [of 36] f(1) [of 44] f(1) [of 52] f(2) [of 0] f(2) [of 4]
    by (simp add: pebble_at_def IS_PEBBLE_FREE_def layout c)
  moreover have u: "unat (60 + n) = 60 + unat n" using Cons.prems(2) by (simp add: c unat_add_64)
  have "same_bytes (p + 60 + n) (extent bs) m m'"
    using Cons.prems u inside_from [of _ p "60 + n" "extent bs" "extent (c # bs)"]
    by (auto simp: same_bytes_def c add.assoc)
  ultimately show ?case using Cons.IH [of "p + 60 + n" p] Cons.prems(2) by (simp add: c)
qed simp

text \<open>The links to the neighbours may change.\<close>

definition relinked :: "bucket \<Rightarrow> memory \<Rightarrow> memory \<Rightarrow> bool" where
  "relinked c m m' \<longleftrightarrow> (\<forall>x. unat (x - fst c) < bucket_size c \<longrightarrow> \<not> unat (x - b_prev (fst c)) < 16 \<longrightarrow> m' x = m x)"

lemma relinked_payload:
  assumes "relinked c m m'" "bucket_ok m q nx c"
  shows "same_bytes (fst c + 64) (extent (snd c)) m m'"
  unfolding same_bytes_def
proof (intro allI impI)
  let ?b = "fst c" and ?e = "extent (snd c)"
  have room: "unat ?b + 64 + ?e < 18446744073709551616" using assms(2) by (simp add: bucket_ok_def bucket_rep_def)
  fix x assume x: "unat (x - (?b + 64)) < ?e"
  then have "unat (x - ?b) < 64 + ?e" using room inside_from [of x ?b 64 ?e "64 + ?e"] by auto
  moreover have "\<not> unat (x - (?b + 48)) < 16"
    using x room sep_apart [OF bucket_header_sep [OF room] x] inside_from [of x ?b 48 16 64] by auto
  ultimately show "m' x = m x" using assms(1) by (simp add: relinked_def bucket_size_def layout)
qed

lemma bucket_relinked:
  assumes "relinked c m m'" "bucket_ok m q nx c"
  shows "bucket_ok m' (load64 m' (b_prev (fst c))) (load64 m' (b_next (fst c))) c"
proof -
  obtain b bs where c: "c = (b, bs)" by fastforce
  have room: "unat b + 64 + extent bs < 18446744073709551616" using assms(2) by (simp add: bucket_ok_def c bucket_rep_def)
  have byte: "m' x = m x" if "unat (x - b) < 64 + extent bs" "\<not> unat (x - (b + 48)) < 16" for x
    using assms(1) that by (simp add: relinked_def c bucket_size_def layout)
  have head: "same_bytes b 48 m m'"
    unfolding same_bytes_def
  proof (intro allI impI)
    fix x assume "unat (x - b) < 48"
    moreover have "sep b 48 (b + 48) 16" by (simp add: sep_offsets)
    ultimately show "m' x = m x" using byte [of x] sep_apart by auto
  qed
  note f = same_load [OF head]
  have "same_bytes (b + 64) (extent bs) m m'" using relinked_payload [OF assms] by (simp add: c)
  then have "seg m' b 0 (b + 64) 0 bs = seg m b 0 (b + 64) 0 bs" using room by (intro seg_same) auto
  then show ?thesis
    using assms(2) f(1) [of 40] f(1) [of 8] f(1) [of 16] f(2) [of 24] f(2) [of 4]
    by (simp add: c bucket_ok_def bucket_rep_def header_ok_def layout)
qed

lemma bucket_same:
  assumes "same_bytes (fst c) (bucket_size c) m m'" "bucket_ok m q nx c"
  shows "bucket_ok m' q nx c"
proof -
  have "bucket_size c < 18446744073709551616" "64 \<le> bucket_size c"
    using assms(2) by (auto simp: bucket_ok_def bucket_rep_def bucket_size_def)
  then have "load64 m' (b_prev (fst c)) = q" "load64 m' (b_next (fst c)) = nx"
    using same_load(1) [OF assms(1), of 48] same_load(1) [OF assms(1), of 56] assms(2) by (simp_all add: bucket_ok_def layout)
  moreover have "relinked c m m'" using assms(1) by (simp add: relinked_def same_bytes_def)
  ultimately show ?thesis using bucket_relinked assms(2) by metis
qed

lemma differ_same:
  assumes "differ_in b k m m'" "sep a n b k"
  shows "same_bytes a n m m'"
  using assms sep_apart [OF assms(2)] by (auto simp: differ_in_def same_bytes_def)

lemma chain_same: "(\<forall>c\<in>set cs. same_bytes (fst c) (bucket_size c) m m') \<Longrightarrow> chain m q cs \<Longrightarrow> chain m' q cs"
  by (induction cs arbitrary: q) (auto intro: bucket_same)

section \<open>The search\<close>

text \<open>Taking and releasing a free lock restores the memory.\<close>

lemma store_load: "n \<le> 8 \<Longrightarrow> store n m a (load n m a) = m"
proof
  fix x assume n: "n \<le> 8"
  have "ucast (drop_bit (8 * unat (x - a)) (load n m a)) = m x" if "unat (x - a) < n"
  proof (rule bit_word_eqI)
    fix k assume "k < LENGTH(8)"
    then have "(8 * unat (x - a) + k) div 8 = unat (x - a)" "(8 * unat (x - a) + k) mod 8 = k" "8 * unat (x - a) + k < 8 * n"
      using that by auto
    then show "bit (ucast (drop_bit (8 * unat (x - a)) (load n m a)) :: u8) k = bit (m x) k"
      using \<open>k < LENGTH(8)\<close> n by (simp add: bit_simps bit_load)
  qed
  then show "store n m a (load n m a) x = m x" by (simp add: store_def)
qed

lemma store32_load: "store32 m a (load32 m a) = m"
proof -
  have "ucast (load32 m a) = load 4 m a"
    by (rule bit_word_eqI) (auto simp: load32_def bit_simps bit_load)
  then show ?thesis using store_load [of 4 m a] by (simp add: store32_def)
qed

lemma store64_load: "store64 m a (load64 m a) = m"
  using store_load [of 8 m a] by (simp add: store64_def load64_def)

lemma store32_twice: "store32 (store32 m a v) a w = store32 m a w"
  by (simp add: store32_def store_def fun_eq_iff)

lemma relock: "load32 m a = 0 \<Longrightarrow> store32 (store32 m a v) a 0 = m"
  using store32_load [of m a] by (simp add: store32_twice)

lemma place_no_fit:
  assumes rep: "bucket_rep m b bs" and fit: "first_fit r bs = None" and ff: "load32 m (b_lflags b) AND BUCKET_FLAG_BEST = 0"
  shows "place_pebble m b r fl = Some (0, m)"
proof -
  have r: "seg m b 0 (b + 64) 0 bs" "bs \<noteq> []" "load64 m (b_first b) = b + 64" "unat b + 64 + extent bs < 18446744073709551616"
    using rep by (simp_all add: bucket_rep_def)
  then have u: "unat (b + 64) = unat b + 64" by (simp add: unat_add_64)
  then have "b + 64 \<noteq> 0" by auto
  then have "first_loop m (b + 64) r = Some 0"
    using first_loop_seg [OF r(1,2), of r] fit r(4) u by simp
  then show ?thesis using ff r(3) by (simp add: place_pebble_def take_pebble_def)
qed

lemma bucket_loop_skip:
  assumes ok: "bucket_ok m q nx (b, bs)" and fit: "first_fit r bs = None"
  shows "bucket_loop m b r fl = bucket_loop m nx r fl"
proof -
  have rep: "bucket_rep m b bs" and hd: "load32 m (b_lflags b) AND BUCKET_FLAG_BEST = 0"
    and l0: "load32 m (b_spinlock b) = 0" and nx: "load64 m (b_next b) = nx" and b0: "b \<noteq> 0"
    using ok by (simp_all add: bucket_ok_def header_ok_def bucket_rep_def)
  define m1 where "m1 = store32 m (b_spinlock b) 1"
  have acq: "acquire_at m (b_spinlock b) = Some m1"
    by (simp add: acquire_at_def acquire_spinlock_def m1_def l0)
  have rel: "release_at m1 (b_spinlock b) = m"
    using relock [OF l0] by (simp add: release_at_def release_spinlock_def m1_def)
  have "place_pebble m1 b r fl = Some (0, m1)"
    using place_no_fit [OF lock_store(1) [OF rep] fit] hd by (simp add: m1_def layout mem_simps sep_offsets)
  then show ?thesis
    using b0 acq rel nx by (subst bucket_loop.simps) (simp add: Let_def)
qed

lemma bucket_loop_search:
  "chain m q (pre @ post) \<Longrightarrow> \<forall>c\<in>set pre. first_fit r (snd c) = None \<Longrightarrow>
    bucket_loop m (head_addr (pre @ post)) r fl = bucket_loop m (head_addr post) r fl"
proof (induction pre arbitrary: q)
  case (Cons c pre)
  then show ?case
    using bucket_loop_skip [of m q "head_addr (pre @ post)" "fst c" "snd c" r fl] Cons.IH [of "fst c"]
    by (simp add: head_addr_def [of "_ # _"])
qed simp

text \<open>One bucket changes, within its own bytes.\<close>

lemma chain_replace:
  assumes "chain m q (pre @ c # post)" "fst c' = fst c" "\<forall>d\<in>set (pre @ post). same_bytes (fst d) (bucket_size d) m m'"
    and "\<And>q. bucket_ok m q (head_addr post) c \<Longrightarrow> bucket_ok m' q (head_addr post) c'"
  shows "chain m' q (pre @ c' # post)"
  using assms
proof (induction pre arbitrary: q)
  case Nil
  then show ?case by (auto intro: chain_same)
next
  case (Cons d pre)
  moreover have "head_addr (pre @ c' # post) = head_addr (pre @ c # post)"
    using Cons.prems(2) by (cases pre) (simp_all add: head_addr_def)
  ultimately show ?case by (auto intro: bucket_same)
qed

lemma chain_member:
  assumes "chain m q (pre @ c # post)"
  obtains q' where "bucket_ok m q' (head_addr post) c"
  using assms by (induction pre arbitrary: q) auto

lemma heap_replace:
  assumes h: "heap_list s (pre @ c # post)" and d: "differ_in (fst c) (bucket_size c) (mem s) (mem s')"
    and c': "fst c' = fst c" "bucket_size c' = bucket_size c"
    and ok: "\<And>q. bucket_ok (mem s) q (head_addr post) c \<Longrightarrow> bucket_ok (mem s') q (head_addr post) c'"
    and r: "KHEAPSTART s' = KHEAPSTART s"
  shows "heap_list s' (pre @ c' # post)" "\<forall>d\<in>set (pre @ post). same_bytes (fst d) (bucket_size d) (mem s) (mem s')"
proof -
  have ap: "pairwise apart (set (pre @ c # post))" "distinct (pre @ c # post)" using h by (simp_all add: heap_list_def)
  then have apc: "apart d c" if "d \<in> set (pre @ post)" for d
    using that by (auto simp: pairwise_def)
  then show same: "\<forall>d\<in>set (pre @ post). same_bytes (fst d) (bucket_size d) (mem s) (mem s')"
    using differ_same [OF d] by (simp add: apart_def)
  have c: "apart d c' = apart d c" "apart c' d = apart c d" for d using c' by (simp_all add: apart_def)
  have "\<not> apart c c"
    using h chain_member [of "mem s" 0 pre c post] by (auto simp: heap_list_def apart_def sep_def bucket_size_def)
  then have "c' \<notin> set (pre @ post)" using c(2) [of c] apc [of c'] by blast
  moreover have "pairwise apart (insert c' (set (pre @ post)))"
    using ap(1) apc c unfolding pairwise_insert by (auto simp: apart_sym [of c] pairwise_insert)
  then have "pairwise apart (set (pre @ c' # post))" by simp
  moreover have "chain (mem s') 0 (pre @ c' # post)"
    using h chain_replace [OF _ c'(1) same ok] by (auto simp: heap_list_def)
  moreover have "head_addr (pre @ c' # post) = head_addr (pre @ c # post)"
    using c'(1) by (cases pre) (simp_all add: head_addr_def)
  ultimately show "heap_list s' (pre @ c' # post)"
    using h r by (auto simp: heap_list_def)
qed

lemma bucket_ok_open:
  assumes ok: "bucket_ok m q nx (b, bs)" and fit: "first_fit r bs = Some (xs, n, ys)"
  shows "bucket_open m b r"
proof -
  have "(False, n) \<in> set bs" "r \<le> n" using first_fit_some [OF fit] by auto
  then have "r \<le> largest 0 bs" using largest_ge [of 0 bs False n] by (meson order_trans)
  then show ?thesis using ok by (simp add: bucket_open_def bucket_ok_def header_ok_def)
qed

text \<open>A block taken from a bucket and zeroed: the bucket as it was, with the block cut.\<close>

lemma taken_bucket_ok:
  assumes ok: "bucket_ok m q nx (b, bs)" and fit: "first_fit r bs = Some (xs, n, ys)" and k: "0 < k" "k \<le> unat r"
  defines "bs' \<equiv> xs @ cut_block r n @ ys"
  assumes rep: "bucket_rep m' b bs'" and hd: "load32 m' (b_spinlock b) = 0" "load32 m' (b_lflags b) = load32 m (b_lflags b)"
      "load64 m' (b_largest_free b) = largest 0 bs'" and ins: "inside_bucket b (extent bs) m m'"
    and m'': "m'' = filled m' (end_addr (b + 64) xs + 60) 0 k"
  shows "bucket_ok m'' q nx (b, bs')" "keeps (b + 64) bs m' m''" "differ_in b (64 + extent bs) m m''" "extent bs' = extent bs"
proof -
  have rb: "bucket_rep m b bs" using ok by (simp add: bucket_ok_def)
  note z = zeroed_block [OF rb fit k, folded bs'_def, OF rep m'']
  show "keeps (b + 64) bs m' m''" "extent bs' = extent bs" using z by simp_all
  have "inside_bucket b (extent bs) m m''" using inside_trans [OF ins inside_same [OF z(3,4)]] .
  then show "bucket_ok m'' q nx (b, bs')" "differ_in b (64 + extent bs) m m''"
    using z(1,5) ok hd same_header_load(2) [OF z(3), of 24] same_header_load(2) [OF z(3), of 4] same_header_load(1) [OF z(3), of 8]
    by (simp_all add: bucket_ok_def header_ok_def layout bucket_size_def inside_bucket_def)
qed

section \<open>Inserting a bucket\<close>

lemma insert_bytes:
  assumes lock: "load32 m (b_spinlock h) = 0" and nz: "a \<noteq> 0" "h \<noteq> 0" and nx: "load64 m (b_next h) = nx"
    and ah: "sep a 64 h 64" and nxs: "nx \<noteq> 0 \<Longrightarrow> sep nx 64 a 64" "nx \<noteq> 0 \<Longrightarrow> sep nx 64 h 64"
  shows "\<exists>m'. insert_bucket m a h = Some m' \<and> load64 m' (b_prev a) = h \<and> load64 m' (b_next a) = nx \<and> load64 m' (b_next h) = a
    \<and> (nx \<noteq> 0 \<longrightarrow> load64 m' (b_prev nx) = a)
    \<and> (\<forall>x. \<not> unat (x - b_prev a) < 16 \<longrightarrow> \<not> unat (x - b_next h) < 8 \<longrightarrow> (nx \<noteq> 0 \<longrightarrow> \<not> unat (x - b_prev nx) < 8) \<longrightarrow> m' x = m x)"
proof -
  have ha: "sep h 64 a 64" "nx \<noteq> 0 \<Longrightarrow> sep a 64 nx 64" "nx \<noteq> 0 \<Longrightarrow> sep h 64 nx 64"
    using ah nxs by (simp_all add: sep_sym)
  note seps = sep_sub [OF ah] sep_sub [OF ha(1)] sep_sub [OF nxs(1)] sep_sub [OF nxs(2)] sep_sub [OF ha(2)] sep_sub [OF ha(3)]
  define m1 where "m1 = store32 m (h + 24) 1"
  define m2 where "m2 = store64 (store64 (store64 m1 (a + 56) nx) (h + 56) a) (a + 48) h"
  define m3 where "m3 = (if nx \<noteq> 0 then store64 m2 (nx + 48) a else m2)"
  define m4 where "m4 = store32 m3 (h + 24) 0"
  have "acquire_at m (b_spinlock h) = Some m1"
    using lock by (simp add: acquire_at_def acquire_spinlock_def m1_def layout)
  moreover have "UPDATE_NODE m1 a h = m3"
    using nx by (simp add: UPDATE_NODE_def Let_def m3_def m2_def m1_def layout mem_simps sep_offsets seps)
  ultimately have ins: "insert_bucket m a h = Some m4"
    using nz by (simp add: insert_bucket_def Let_def release_at_def release_spinlock_def m4_def layout)
  have reads: "load64 m4 (a + 48) = h" "load64 m4 (a + 56) = nx" "load64 m4 (h + 56) = a" "nx \<noteq> 0 \<longrightarrow> load64 m4 (nx + 48) = a"
    by (auto simp: m4_def m3_def m2_def mem_simps sep_offsets seps)
  have bytes: "m4 x = m x"
    if x: "\<not> unat (x - (a + 48)) < 16" "\<not> unat (x - (h + 56)) < 8" "nx \<noteq> 0 \<Longrightarrow> \<not> unat (x - (nx + 48)) < 8" for x
  proof (cases "unat (x - (h + 24)) < 4")
    case True
    have "store32 m (h + 24) 0 = m" using store32_load [of m "h + 24"] lock by (simp add: layout)
    from fun_cong [OF this, of x] show ?thesis using True by (simp add: m4_def store32_def store_def)
  next
    case False
    have "\<not> unat (x - (a + 48)) < 8" "\<not> unat (x - (a + 56)) < 8"
      using x(1) inside_from [of x "a + 48" 0 8 16] inside_from [of x "a + 48" 8 8 16] by (auto simp: add.assoc)
    then show ?thesis
      using x(2,3) False by (simp add: m4_def m3_def m2_def m1_def c64.put_local c32.put_local)
  qed
  show ?thesis using ins reads bytes by (intro exI [of _ m4]) (simp add: layout)
qed

text \<open>Each header is part of its bucket.\<close>

lemma bucket_header_bytes:
  assumes "bucket_ok m q nx c"
  shows "fst c \<noteq> 0" "64 \<le> bucket_size c" "bucket_size c < 18446744073709551616"
    "unat (x - b_prev (fst c)) < 16 \<Longrightarrow> unat (x - fst c) < bucket_size c"
    "unat (x - b_next (fst c)) < 8 \<Longrightarrow> unat (x - b_prev (fst c)) < 16"
proof -
  show "fst c \<noteq> 0" "64 \<le> bucket_size c" "bucket_size c < 18446744073709551616"
    using assms by (auto simp: bucket_ok_def bucket_rep_def bucket_size_def)
  then show "unat (x - b_prev (fst c)) < 16 \<Longrightarrow> unat (x - fst c) < bucket_size c"
    "unat (x - b_next (fst c)) < 8 \<Longrightarrow> unat (x - b_prev (fst c)) < 16"
    using inside_from [of x "fst c" 48 16 "bucket_size c"] inside_from [of x "fst c + 48" 8 8 16]
    by (auto simp: layout add.assoc)
qed

lemma chain_members: "chain m q cs \<Longrightarrow> c \<in> set cs \<Longrightarrow> \<exists>q nx. bucket_ok m q nx c"
  by (induction cs arbitrary: q) auto

text \<open>Where the links of the list are written: in the headers of the new bucket, of the first one and of the one after it.\<close>

lemma insert_local:
  assumes ch: "chain m 0 ((h, hbs) # rest)" and new: "bucket_ok m q0 nx0 (a, nbs)"
  defines "cs \<equiv> (h, hbs) # (a, nbs) # rest" and "nx \<equiv> head_addr rest"
  assumes ap: "pairwise apart (set cs)" "distinct cs"
  obtains m' where "insert_bucket m a h = Some m'" "load64 m' (b_prev a) = h" "load64 m' (b_next a) = nx" "load64 m' (b_next h) = a"
    "rest \<noteq> [] \<longrightarrow> load64 m' (b_prev nx) = a"
    "\<forall>c\<in>set cs. \<forall>x. unat (x - fst c) < bucket_size c \<longrightarrow> (c = (a, nbs) \<longrightarrow> \<not> unat (x - b_prev a) < 16) \<longrightarrow>
      (c = (h, hbs) \<longrightarrow> \<not> unat (x - b_next h) < 8) \<longrightarrow> (rest \<noteq> [] \<longrightarrow> c = hd rest \<longrightarrow> \<not> unat (x - b_prev nx) < 8) \<longrightarrow> m' x = m x"
    "\<forall>x. (\<forall>c\<in>set cs. \<not> unat (x - fst c) < bucket_size c) \<longrightarrow> m' x = m x"
proof -
  have ok: "\<exists>q nx. bucket_ok m q nx c" if "c \<in> set cs" for c
    using that ch new chain_members [OF ch, of c] by (auto simp: cs_def)
  have big: "64 \<le> bucket_size c" if "c \<in> set cs" for c using ok [OF that] bucket_header_bytes(2) by blast
  have sep: "sep (fst c) (bucket_size c) (fst d) (bucket_size d)" if "c \<in> set cs" "d \<in> set cs" "c \<noteq> d" for c d
    using ap(1) that by (auto simp: pairwise_def apart_def)
  have sep64: "sep (fst c) 64 (fst d) 64" if "c \<in> set cs" "d \<in> set cs" "c \<noteq> d" for c d
    using sep_sub_0 [OF sep [OF that] big [OF that(1)] big [OF that(2)]] by simp
  have mem: "(h, hbs) \<in> set cs" "(a, nbs) \<in> set cs" "(h, hbs) \<noteq> (a, nbs)" using ap(2) by (auto simp: cs_def)
  have nxb: "hd rest \<in> set cs" "fst (hd rest) = nx" "hd rest \<noteq> (h, hbs)" "hd rest \<noteq> (a, nbs)" if "rest \<noteq> []"
    using that ap(2) by (cases rest; auto simp: nx_def head_addr_def cs_def)+
  have nx0: "nx \<noteq> 0 \<longleftrightarrow> rest \<noteq> []"
  proof
    show "nx \<noteq> 0" if "rest \<noteq> []" using ok [OF nxb(1) [OF that]] bucket_header_bytes(1) nxb(2) [OF that] by metis
  qed (auto simp: nx_def head_addr_def)
  have h: "load32 m (b_spinlock h) = 0" "load64 m (b_next h) = nx" "load64 m (b_prev h) = 0" "h \<noteq> 0" "a \<noteq> 0"
    using ch new bucket_header_bytes(1) by (auto simp: bucket_ok_def nx_def bucket_rep_def)
  have "sep a 64 h 64" "nx \<noteq> 0 \<Longrightarrow> sep nx 64 a 64" "nx \<noteq> 0 \<Longrightarrow> sep nx 64 h 64"
    using sep64 [OF mem(2,1)] sep64 [OF nxb(1) mem(2)] sep64 [OF nxb(1) mem(1)] mem(3) nxb(2-4) nx0 by auto
  from insert_bytes [OF h(1,5,4,2) this]
  obtain m' where m': "insert_bucket m a h = Some m'" "load64 m' (b_prev a) = h" "load64 m' (b_next a) = nx" "load64 m' (b_next h) = a"
    "nx \<noteq> 0 \<Longrightarrow> load64 m' (b_prev nx) = a"
    and bytes: "\<And>x. \<not> unat (x - b_prev a) < 16 \<Longrightarrow> \<not> unat (x - b_next h) < 8 \<Longrightarrow> (nx \<noteq> 0 \<Longrightarrow> \<not> unat (x - b_prev nx) < 8) \<Longrightarrow> m' x = m x"
    by blast
  have inl: "unat (x - fst d) < bucket_size d" if "d \<in> set cs" "unat (x - b_prev (fst d)) < 16 \<or> unat (x - b_next (fst d)) < 8" for d x
    using that ok [OF that(1)] bucket_header_bytes(4,5) by blast
  have out: "\<not> unat (x - b_prev (fst d)) < 16 \<and> \<not> unat (x - b_next (fst d)) < 8"
    if "c \<in> set cs" "unat (x - fst c) < bucket_size c" "d \<in> set cs" "c \<noteq> d" for c d x
    using sep_apart [OF sep [OF that(1,3,4)] that(2)] inl [OF that(3)] by blast
  have "m' x = m x" if c: "c \<in> set cs" "unat (x - fst c) < bucket_size c"
    and "c = (a, nbs) \<longrightarrow> \<not> unat (x - b_prev a) < 16" "c = (h, hbs) \<longrightarrow> \<not> unat (x - b_next h) < 8"
      "rest \<noteq> [] \<longrightarrow> c = hd rest \<longrightarrow> \<not> unat (x - b_prev nx) < 8" for c x
    using that(3-5) out [OF c mem(1)] out [OF c mem(2)] out [OF c nxb(1)] nxb(2) nx0 by (intro bytes) fastforce+
  moreover have "m' x = m x" if "\<forall>c\<in>set cs. \<not> unat (x - fst c) < bucket_size c" for x
    using that mem nxb(1,2) nx0 inl by (intro bytes) fastforce+
  ultimately show ?thesis using that m' nx0 by blast
qed

lemma insert_chain:
  assumes ch: "chain m 0 ((h, hbs) # rest)" and new: "bucket_ok m q0 nx0 (a, nbs)"
  defines "cs \<equiv> (h, hbs) # (a, nbs) # rest"
  assumes ap: "pairwise apart (set cs)" "distinct cs"
  shows "\<exists>m'. insert_bucket m a h = Some m' \<and> chain m' 0 cs \<and> (\<forall>c\<in>set cs. relinked c m m')
    \<and> (\<forall>x. (\<forall>c\<in>set cs. \<not> unat (x - fst c) < bucket_size c) \<longrightarrow> m' x = m x)"
proof -
  define nx where "nx = head_addr rest"
  obtain m' where m': "insert_bucket m a h = Some m'" "load64 m' (b_prev a) = h" "load64 m' (b_next a) = nx" "load64 m' (b_next h) = a"
    "rest \<noteq> [] \<longrightarrow> load64 m' (b_prev nx) = a"
    and keep: "\<forall>c\<in>set cs. \<forall>x. unat (x - fst c) < bucket_size c \<longrightarrow> (c = (a, nbs) \<longrightarrow> \<not> unat (x - b_prev a) < 16) \<longrightarrow>
      (c = (h, hbs) \<longrightarrow> \<not> unat (x - b_next h) < 8) \<longrightarrow> (rest \<noteq> [] \<longrightarrow> c = hd rest \<longrightarrow> \<not> unat (x - b_prev nx) < 8) \<longrightarrow> m' x = m x"
    and outside: "\<forall>x. (\<forall>c\<in>set cs. \<not> unat (x - fst c) < bucket_size c) \<longrightarrow> m' x = m x"
    by (rule insert_local [OF ch new ap [unfolded cs_def], folded cs_def nx_def])
  have ok: "\<exists>q nx. bucket_ok m q nx c" if "c \<in> set cs" for c
    using that ch new chain_members [OF ch, of c] by (auto simp: cs_def)
  have inl: "unat (x - fst d) < bucket_size d" if "d \<in> set cs" "unat (x - b_prev (fst d)) < 16 \<or> unat (x - b_next (fst d)) < 8" for d x
    using that ok [OF that(1)] bucket_header_bytes(4,5) by blast
  have mem: "(h, hbs) \<in> set cs" "(a, nbs) \<in> set cs" "(h, hbs) \<noteq> (a, nbs)" "rest \<noteq> [] \<Longrightarrow> hd rest \<noteq> (h, hbs) \<and> fst (hd rest) = nx"
    using ap(2) by (cases rest; auto simp: cs_def nx_def head_addr_def)+
  have rl: "relinked c m m'" if c: "c \<in> set cs" for c
    using bucket_header_bytes(5) ok [OF c] mem(4) unfolding relinked_def by (intro allI impI keep [rule_format, OF c]) (auto 0 3)
  have "load64 m' (b_prev h) = load64 m (b_prev h)"
    using inl [OF mem(1)] mem(3) mem(4) sep_apart [of "b_prev h" 8 "b_next h" 8]
    by (intro c64.get_local keep [rule_format, OF mem(1)]) (auto simp: layout sep_offsets)
  then have "bucket_ok m' 0 a (h, hbs)"
    using bucket_relinked [OF rl [OF mem(1)], of 0 nx] ch m'(4) by (simp add: nx_def bucket_ok_def [of m])
  moreover have "bucket_ok m' h nx (a, nbs)"
    using bucket_relinked [OF rl [OF mem(2)] new] m'(2,3) by simp
  moreover have "chain m' a rest"
  proof (cases rest)
    case (Cons d ds)
    then have d: "d \<in> set cs" "nx = fst d" "hd rest = d" and ds: "set ds \<subseteq> set cs" "d \<notin> set ds" "(h, hbs) \<notin> set ds" "(a, nbs) \<notin> set ds"
      using ap(2) by (auto simp: cs_def nx_def head_addr_def)
    have nd: "d \<noteq> (h, hbs)" "d \<noteq> (a, nbs)" using ap(2) Cons by (auto simp: cs_def)
    have "load64 m' (b_next (fst d)) = load64 m (b_next (fst d))"
      using inl [OF d(1)] nd sep_apart [of "b_next (fst d)" 8 "b_prev (fst d)" 8]
      by (intro c64.get_local keep [rule_format, OF d(1)]) (simp_all add: d(2) layout sep_offsets)
    then have "bucket_ok m' a (head_addr ds) d"
      using bucket_relinked [OF rl [OF d(1)], of h "head_addr ds"] ch m'(5) d(2) Cons
      by (simp add: bucket_ok_def [of m _ _ d])
    moreover have "same_bytes (fst c) (bucket_size c) m m'" if "c \<in> set ds" for c
      using that ds d(3) unfolding same_bytes_def by (intro allI impI keep [rule_format, of c]) auto
    ultimately show ?thesis using ch chain_same [of ds m m' "fst d"] Cons by simp
  qed simp
  ultimately have "chain m' 0 cs" by (simp add: cs_def nx_def head_addr_def [of "_ # _"])
  then show ?thesis using m'(1) rl outside by blast
qed

section \<open>Removing a bucket\<close>

lemma chain_tail:
  assumes "chain m q (pre @ d # ys)" "\<forall>e\<in>set pre. same_bytes (fst e) (bucket_size e) m m'"
    and "\<And>q'. bucket_ok m q' (head_addr ys) d \<Longrightarrow> chain m (fst d) ys \<Longrightarrow> chain m' q' (d # zs)"
  shows "chain m' q (pre @ d # zs)"
  using assms
proof (induction pre arbitrary: q)
  case (Cons e pre)
  moreover have "head_addr (pre @ d # zs) = head_addr (pre @ d # ys)" by (cases pre) (simp_all add: head_addr_def)
  ultimately show ?case by (auto intro: bucket_same)
qed (metis append_Nil chain.simps(2))

text \<open>The two writes of \<open>remove_bucket\<close>: the neighbours of the bucket are joined.\<close>

definition unlink :: "memory \<Rightarrow> u64 \<Rightarrow> u64 \<Rightarrow> memory" where
  "unlink m d nx = (let m = store64 m (b_next d) nx in if nx \<noteq> 0 then store64 m (b_prev nx) d else m)"

lemma unlink_bytes:
  "\<not> unat (x - b_next d) < 8 \<Longrightarrow> (nx \<noteq> 0 \<Longrightarrow> \<not> unat (x - b_prev nx) < 8) \<Longrightarrow> unlink m d nx x = m x"
  by (simp add: unlink_def Let_def c64.put_local)

lemma link_inside:
  assumes "bucket_ok m q nx e" "unat (x - b_prev (fst e)) < 8 \<or> unat (x - b_next (fst e)) < 8"
  shows "unat (x - fst e) < bucket_size e"
  using assms(2) bucket_header_bytes(5) [OF assms(1), of x] by (intro bucket_header_bytes(4) [OF assms(1)]) auto

lemma unlink_local:
  assumes ch: "chain m q (pre @ d # c # post)"
  defines "cs \<equiv> pre @ d # c # post"
  assumes ap: "pairwise apart (set cs)" "distinct cs"
  defines "m' \<equiv> unlink m (fst d) (head_addr post)"
  shows "\<forall>e\<in>set cs. \<forall>x. unat (x - fst e) < bucket_size e \<longrightarrow> (e = d \<longrightarrow> \<not> unat (x - b_next (fst d)) < 8) \<longrightarrow>
      (post \<noteq> [] \<longrightarrow> e = hd post \<longrightarrow> \<not> unat (x - b_prev (head_addr post)) < 8) \<longrightarrow> m' x = m x"
    and "\<forall>x. (\<forall>e\<in>set (pre @ d # post). \<not> unat (x - fst e) < bucket_size e) \<longrightarrow> m' x = m x"
proof -
  define nx where "nx = head_addr post"
  have ok: "\<exists>q nx. bucket_ok m q nx e" if "e \<in> set cs" for e
    using that chain_members [OF ch] by (simp add: cs_def)
  have out: "\<not> unat (x - b_prev (fst f)) < 8 \<and> \<not> unat (x - b_next (fst f)) < 8"
    if "e \<in> set cs" "unat (x - fst e) < bucket_size e" "f \<in> set cs" "e \<noteq> f" for e f x
  proof -
    have "sep (fst e) (bucket_size e) (fst f) (bucket_size f)" using ap(1) that by (auto simp: pairwise_def apart_def)
    from sep_apart [OF this that(2)] show ?thesis using ok [OF that(3)] link_inside by blast
  qed
  have mem: "d \<in> set cs" "post \<noteq> [] \<Longrightarrow> hd post \<in> set cs \<and> hd post \<noteq> d \<and> fst (hd post) = nx" "nx \<noteq> 0 \<Longrightarrow> post \<noteq> []"
    using ap(2) by (cases post; auto simp: cs_def nx_def head_addr_def)+
  have "m' x = m x" if e: "e \<in> set cs" "unat (x - fst e) < bucket_size e" "e = d \<Longrightarrow> \<not> unat (x - b_next (fst d)) < 8"
      "post \<noteq> [] \<Longrightarrow> e = hd post \<Longrightarrow> \<not> unat (x - b_prev nx) < 8" for e x
    unfolding m'_def using out [OF e(1,2) mem(1)] out [OF e(1,2)] mem(2,3) e(3,4) unfolding nx_def [symmetric]
    by (intro unlink_bytes) fastforce+
  then show "\<forall>e\<in>set cs. \<forall>x. unat (x - fst e) < bucket_size e \<longrightarrow> (e = d \<longrightarrow> \<not> unat (x - b_next (fst d)) < 8) \<longrightarrow>
      (post \<noteq> [] \<longrightarrow> e = hd post \<longrightarrow> \<not> unat (x - b_prev (head_addr post)) < 8) \<longrightarrow> m' x = m x"
    unfolding nx_def by blast
  show "\<forall>x. (\<forall>e\<in>set (pre @ d # post). \<not> unat (x - fst e) < bucket_size e) \<longrightarrow> m' x = m x"
  proof (intro allI impI)
    fix x assume x: "\<forall>e\<in>set (pre @ d # post). \<not> unat (x - fst e) < bucket_size e"
    have "\<not> unat (x - b_next (fst d)) < 8" using x ok [OF mem(1)] link_inside by fastforce
    moreover have "\<not> unat (x - b_prev nx) < 8" if "nx \<noteq> 0"
      using x ok [of "hd post"] link_inside mem(2,3) that by (metis Un_iff list.set_intros(2) list.set_sel(1) set_append)
    ultimately show "m' x = m x" unfolding m'_def nx_def [symmetric] by (intro unlink_bytes) auto
  qed
qed

lemma unlink_chain:
  assumes ch: "chain m q (pre @ d # c # post)"
  defines "cs \<equiv> pre @ d # c # post"
  assumes ap: "pairwise apart (set cs)" "distinct cs"
  defines "m' \<equiv> unlink m (fst d) (head_addr post)"
  shows "chain m' q (pre @ d # post)" "\<forall>e\<in>set (pre @ d # post). relinked e m m'"
proof -
  define nx where "nx = head_addr post"
  note keep = unlink_local(1) [OF ch ap [unfolded cs_def], folded cs_def nx_def m'_def, rule_format]
  have m': "m' = unlink m (fst d) nx" by (simp add: m'_def nx_def)
  have ok: "\<exists>q nx. bucket_ok m q nx e" if "e \<in> set cs" for e
    using that chain_members [OF ch] by (simp add: cs_def)
  have inl: "unat (x - fst e) < bucket_size e"
    if "e \<in> set cs" "unat (x - b_prev (fst e)) < 8 \<or> unat (x - b_next (fst e)) < 8" for e x
    using ok [OF that(1)] link_inside that(2) by blast
  have mem: "d \<in> set cs" "post \<noteq> [] \<Longrightarrow> hd post \<in> set cs \<and> hd post \<noteq> d \<and> fst (hd post) = nx" "nx \<noteq> 0 \<Longrightarrow> post \<noteq> []"
    using ap(2) by (cases post; auto simp: cs_def nx_def head_addr_def)+
  show rl: "\<forall>e\<in>set (pre @ d # post). relinked e m m'"
  proof
    fix e assume "e \<in> set (pre @ d # post)"
    then have e: "e \<in> set cs" by (auto simp: cs_def)
    then obtain q nx' where "bucket_ok m q nx' e" using ok by blast
    from bucket_header_bytes(5) [OF this] show "relinked e m m'"
      using mem(2) unfolding relinked_def by (intro allI impI keep [OF e]) auto
  qed
  have nd: "sep (b_prev (fst d)) 8 (b_next (fst d)) 8" "sep (b_next nx) 8 (b_prev nx) 8" by (simp_all add: layout sep_offsets)
  show "chain m' q (pre @ d # post)"
  proof (rule chain_tail [OF ch])
    show "\<forall>e\<in>set pre. same_bytes (fst e) (bucket_size e) m m'"
      using ap(2) mem(2) unfolding same_bytes_def by (intro ballI allI impI keep) (auto simp: cs_def)
    fix q' assume d: "bucket_ok m q' (head_addr (c # post)) d" and c: "chain m (fst d) (c # post)"
    have "load64 m' (b_prev (fst d)) = load64 m (b_prev (fst d))"
      using inl [OF mem(1)] mem(2) sep_apart [OF nd(1)] by (intro c64.get_local keep [OF mem(1)]) auto
    moreover have "load64 m' (b_next (fst d)) = nx"
    proof (cases "nx = 0")
      case False
      then have "hd post \<in> set cs" "hd post \<noteq> d" "fst (hd post) = nx" using mem by auto
      then have "sep (fst d) (bucket_size d) nx (bucket_size (hd post))" "64 \<le> bucket_size (hd post)" "64 \<le> bucket_size d"
        using ap(1) mem(1) by (auto simp: pairwise_def apart_def bucket_size_def)
      then have "sep (b_next (fst d)) 8 (b_prev nx) 8" using sep_sub [of "fst d" "bucket_size d" nx "bucket_size (hd post)" 56 8 48 8] by (simp add: layout)
      then show ?thesis using False by (simp add: m' unlink_def mem_simps)
    qed (simp add: m' unlink_def mem_simps)
    ultimately have "bucket_ok m' q' nx d"
      using bucket_relinked [of d m m' q' "head_addr (c # post)"] rl d by (simp add: bucket_ok_def [of m])
    moreover have "chain m' (fst d) post"
    proof (cases post)
      case (Cons e es)
      then have e: "e \<in> set cs" "hd post = e" "fst e = nx" "e \<noteq> d" and es: "set es \<subseteq> set cs" "e \<notin> set es" "d \<notin> set es"
        using ap(2) by (auto simp: cs_def nx_def head_addr_def)
      have "load64 m' (b_next (fst e)) = load64 m (b_next (fst e))"
        using inl [OF e(1)] e(4) sep_apart [OF nd(2)] unfolding e(3) [symmetric]
        by (intro c64.get_local keep [OF e(1)]) (simp_all add: e(3) [symmetric])
      moreover have "nx \<noteq> 0" using ok [OF e(1)] e(3) bucket_header_bytes(1) by metis
      then have "load64 m' (b_prev nx) = fst d" by (simp add: m' unlink_def mem_simps)
      ultimately have "bucket_ok m' (fst d) (head_addr es) e"
        using bucket_relinked [of e m m' "fst c" "head_addr es"] rl c Cons e(3) by (simp add: bucket_ok_def [of m _ _ e])
      moreover have "same_bytes (fst f) (bucket_size f) m m'" if "f \<in> set es" for f
        using that es e(2) unfolding same_bytes_def by (intro allI impI keep [of f]) auto
      ultimately show ?thesis using c chain_same [of es m m' "fst e"] Cons by simp
    qed simp
    ultimately show "chain m' q' (d # post)" by (simp add: nx_def)
  qed
qed

section \<open>The heap above the virtual memory manager\<close>

text \<open>
  The state of the whole heap: the manager with its free frames, the lock of the heap range free, and the buckets in a list
  from \<open>KHEAPSTART\<close> on, below the end of the range and apart from the page tables, the free frames and the free list.
\<close>

definition kernel_heap :: "nat \<Rightarrow> machine \<Rightarrow> u64 list \<Rightarrow> bucket list \<Rightarrow> bool" where
  "kernel_heap cap s fs cs \<longleftrightarrow> vmm_ok cap s fs \<and> \<not> bit (kheap_spinlock s) 0 \<and> heap_list s cs
     \<and> (\<forall>c\<in>set cs. unat (fst c) + bucket_size c \<le> unat (K_HEAP_END s) \<and> off_vmm cap s fs (fst c) (bucket_size c))"

lemma unat_bucket_bytes_div: "unat (bucket_bytes sz div PAGESIZE) * 4096 = unat (bucket_bytes sz)"
  "(bucket_bytes sz div PAGESIZE) * 0x1000 = bucket_bytes sz"
proof -
  show u: "unat (bucket_bytes sz div PAGESIZE) * 4096 = unat (bucket_bytes sz)"
    unfolding bucket_bytes_def by (simp add: unat_div unat_page_mask) (simp add: PAGESIZE_def)
  have "of_nat (unat (bucket_bytes sz div PAGESIZE) * 4096) = (of_nat (unat (bucket_bytes sz)) :: u64)" by (simp only: u)
  then show "(bucket_bytes sz div PAGESIZE) * 0x1000 = bucket_bytes sz" by simp
qed

lemma heap_list_end:
  assumes "kernel_heap cap s fs cs"
  shows "K_HEAP_END s \<noteq> 0"
proof -
  obtain c where c: "c \<in> set cs" using assms by (cases cs) (auto simp: kernel_heap_def heap_list_def)
  then obtain q nx where "bucket_ok (mem s) q nx c"
    using assms chain_members [of "mem s" 0 cs c] unfolding kernel_heap_def heap_list_def by blast
  then have "fst c \<noteq> 0" by (rule bucket_header_bytes(1))
  moreover have "unat (fst c) \<le> unat (K_HEAP_END s)" using assms c by (auto simp: kernel_heap_def)
  ultimately show ?thesis by (auto simp: unat_eq_0)
qed

text \<open>A bucket mapped at the end of the range: the others are as they were, the manager is in order again.\<close>

lemma create_bucket_vmm:
  assumes vm: "vmm_ok cap s (f # fs)" "\<not> bit (kheap_spinlock s) 0" "K_HEAP_END s \<noteq> 0"
    and low: "\<forall>c\<in>set cs. unat (fst c) + bucket_size c \<le> unat (K_HEAP_END s) \<and> off_vmm cap s (f # fs) (fst c) (bucket_size c)"
    and n: "3 \<le> length fs" and sz: "unat sz \<le> 16777216"
  defines "a \<equiv> K_HEAP_END s" and "bb \<equiv> bucket_bytes sz" and "new \<equiv> (K_HEAP_END s, [(False, bucket_bytes sz - 124)])"
  assumes room: "unat a + unat bb < 18446744073709551616" and off: "off_vmm cap s (f # fs) a (unat bb)"
  shows "\<exists>s' fs'. create_bucket s sz flags = Some (a, s') \<and> vmm_ok cap s' fs' \<and> vmm_within s (f # fs) s' fs'
    \<and> (\<forall>c\<in>set cs. same_bytes (fst c) (bucket_size c) (mem s) (mem s')) \<and> bucket_ok (mem s') 0 0 new
    \<and> K_HEAP_END s' = a + bb \<and> kheap_spinlock s' = 0
    \<and> (\<forall>b. translate s' b = (if page_of b = page_of a then Some f else translate s b))"
proof -
  have sz': "unat sz + 4096 < 18446744073709551616" using sz by simp
  note bb = bucket_bytes_bound [OF sz', folded bb_def]
  have "1 \<le> unat (bb div PAGESIZE)" "unat (bb div PAGESIZE) \<le> 4096"
    using bb sz unat_bucket_bytes_div(1) [of sz, folded bb_def] by linarith+
  with mmap_one_page [OF vm(1) n vm(2)] obtain s1 fs1 where mm: "mmap s (bb div PAGESIZE) = Some (a, s1)" "vmm_ok cap s1 fs1"
      "K_HEAP_END s1 = a + bb" "kheap_spinlock s1 = 0" "cr3 s1 = cr3 s" "KHEAPSTART s1 = KHEAPSTART s" "vmm_frameAlloc s1 = vmm_frameAlloc s"
      "PHYSICAL_ADDRESS_OFFSET s1 = PHYSICAL_ADDRESS_OFFSET s" "vmm_changes cap s (f # fs) s1 fs1"
      "\<And>b. translate s1 b = (if page_of b = page_of a then Some f else translate s b)"
    using vm(3) room bb(1) unat_bucket_bytes_div(2) [of sz, folded bb_def] unfolding a_def by fastforce
  obtain s2 where s2: "create_bucket s sz flags = Some (a, s2)" "bucket_rep (mem s2) a [(False, bb - 124)]"
      "header_ok (mem s2) a [(False, bb - 124)]" "load32 (mem s2) (b_spinlock a) = 0" "load64 (mem s2) (b_next a) = 0"
      "same_regs s1 s2" "differ_in a 124 (mem s1) (mem s2)" "load64 (mem s2) (b_size a) = bb div PAGESIZE" "load64 (mem s2) (b_prev a) = 0"
    using create_bucket_fresh [OF mm(1) [unfolded bb_def] _ sz', of flags] vm(3) room unfolding a_def bb_def by blast
  have pages: "set (vmm_pages s1 fs1) \<subseteq> set (vmm_pages s (f # fs))" using mm(9) by (simp add: vmm_changes_def)
  have d: "differ_in a (unat bb) (mem s1) (mem s2)" using differ_mono [OF s2(7)] bb(1) by simp
  have out: "mem s2 x = mem s1 x" if "unat (x - t) < k" "sep t k a (unat bb)" for t k x
    using d sep_apart [OF that(2,1)] by (simp add: differ_in_def)
  have "mem s2 x = mem s1 x" if "t \<in> set (vmm_pages s1 fs1)" "unat (x - t) < 4096" for t x
    using that pages off by (intro out [of x t 4096]) (auto simp: off_vmm_def)
  moreover have "mem s2 x = mem s1 x" if "unat (x - vmm_frameAlloc s1) < 24 + 8 * cap" for x
    using that off mm(7) by (intro out) (auto simp: off_vmm_def)
  ultimately have v2: "vmm_ok cap s2 fs1" "vmm_pages s2 fs1 = vmm_pages s1 fs1" "\<And>b. translate s2 b = translate s1 b"
    using vmm_ok_outside [OF mm(2) s2(6)] by blast+
  have "same_bytes (fst c) (bucket_size c) (mem s) (mem s2)" if c: "c \<in> set cs" for c
  proof -
    have "unat (fst c) + bucket_size c \<le> unat a" and ov: "off_vmm cap s (f # fs) (fst c) (bucket_size c)" and "0 < bucket_size c"
      using low c by (auto simp: a_def bucket_size_def)
    then have "sep (fst c) (bucket_size c) a (unat bb)" using room bb(1) by (intro sep_ordered) auto
    then show ?thesis using off_vmm_same [OF mm(9) ov] out by (simp add: same_bytes_def)
  qed
  moreover have "bucket_ok (mem s2) 0 0 new"
    using s2(2-5,8,9) unat_bucket_bytes_div(1) [of sz] bb(1)
    by (simp add: bucket_ok_def new_def a_def [symmetric] bb_def [symmetric] bucket_size_def mult.commute unat_diff_64 word_le_nat_alt)
  ultimately show ?thesis
    using s2(1,6) v2 mm pages by (intro exI [of _ s2] exI [of _ fs1]) (auto simp: same_regs_def vmm_within_def)
qed

lemma relinked_keeps:
  assumes "relinked c m m'" "bucket_ok m q nx c"
  shows "keeps (fst c + 64) (snd c) m m'"
proof -
  have "extent (snd c) < 18446744073709551616" using bucket_header_bytes(3) [OF assms(2)] by (simp add: bucket_size_def)
  then show ?thesis
    using relinked_payload [OF assms] payload_inside by (fastforce simp: keeps_def same_bytes_def)
qed

lemma heap_keeps:
  assumes "heap_list s cs" "c \<in> set cs" "relinked c (mem s) m'"
  shows "keeps (fst c + 64) (snd c) (mem s) m'"
  using assms chain_members [of "mem s" 0 cs c] relinked_keeps unfolding heap_list_def by blast

text \<open>Whatever is written inside the buckets leaves the manager in order.\<close>

lemma kernel_heap_update:
  assumes kh: "vmm_ok cap s fs" "\<not> bit (kheap_spinlock s) 0" and regs: "same_regs s s'" and h: "heap_list s' cs"
    and c: "\<And>c. c \<in> set cs \<Longrightarrow> unat (fst c) + bucket_size c \<le> unat (K_HEAP_END s) \<and> off_vmm cap s fs (fst c) (bucket_size c)"
    and out: "\<And>x. (\<forall>c\<in>set cs. \<not> unat (x - fst c) < bucket_size c) \<Longrightarrow> mem s' x = mem s x"
  shows "kernel_heap cap s' fs cs" "translate s' b = translate s b" "vmm_pages s' fs = vmm_pages s fs"
proof -
  have "mem s' x = mem s x" if "t \<in> set (vmm_pages s fs)" "unat (x - t) < 4096" for t x
    using that c sep_apart [of t 4096] by (intro out) (fastforce simp: off_vmm_def)
  moreover have "mem s' x = mem s x" if "unat (x - vmm_frameAlloc s) < 24 + 8 * cap" for x
    using that c sep_apart [of "vmm_frameAlloc s" "24 + 8 * cap"] by (intro out) (fastforce simp: off_vmm_def)
  ultimately have v: "vmm_ok cap s' fs" "vmm_pages s' fs = vmm_pages s fs" "\<And>b. translate s' b = translate s b"
    using vmm_ok_outside [OF kh(1) regs] by blast+
  then show "translate s' b = translate s b" "vmm_pages s' fs = vmm_pages s fs" by simp_all
  show "kernel_heap cap s' fs cs"
    using v(1,2) kh(2) h c regs by (simp add: kernel_heap_def same_regs_def off_vmm_def)
qed

lemma kernel_heap_take:
  assumes kh: "kernel_heap cap s fs (pre @ c # post)" and d: "differ_in (fst c) (bucket_size c) (mem s) (mem s')"
    and c': "fst c' = fst c" "bucket_size c' = bucket_size c"
    and ok: "\<And>q. bucket_ok (mem s) q (head_addr post) c \<Longrightarrow> bucket_ok (mem s') q (head_addr post) c'"
    and r: "same_regs s s'"
  shows "kernel_heap cap s' fs (pre @ c' # post)" "translate s' b = translate s b"
    "\<forall>d\<in>set (pre @ post). same_bytes (fst d) (bucket_size d) (mem s) (mem s')" "vmm_pages s' fs = vmm_pages s fs"
proof -
  have hl: "heap_list s (pre @ c # post)" using kh by (simp add: kernel_heap_def)
  note h = heap_replace [OF hl d c' ok]
  have kc: "KHEAPSTART s' = KHEAPSTART s" using r by (simp add: same_regs_def)
  show "\<forall>d\<in>set (pre @ post). same_bytes (fst d) (bucket_size d) (mem s) (mem s')" using h(2) kc by blast
  have "mem s' x = mem s x" if "\<forall>e\<in>set (pre @ c' # post). \<not> unat (x - fst e) < bucket_size e" for x
    using that d c' by (simp add: differ_in_def)
  moreover have "unat (fst e) + bucket_size e \<le> unat (K_HEAP_END s) \<and> off_vmm cap s fs (fst e) (bucket_size e)"
    if "e \<in> set (pre @ c' # post)" for e
    using kh c' that by (auto simp: kernel_heap_def)
  moreover have "vmm_ok cap s fs" "\<not> bit (kheap_spinlock s) 0" using kh by (simp_all add: kernel_heap_def)
  ultimately show "kernel_heap cap s' fs (pre @ c' # post)" "translate s' b = translate s b" "vmm_pages s' fs = vmm_pages s fs"
    using kernel_heap_update [OF _ _ r h(1) [OF _ kc], of cap fs] by blast+
qed

lemma grow_insert:
  assumes kh: "kernel_heap cap s (f # fs) (c # cs)" and n: "3 \<le> length fs" and sz: "unat sz \<le> 16777216"
  defines "a \<equiv> K_HEAP_END s" and "bb \<equiv> bucket_bytes sz" and "new \<equiv> (K_HEAP_END s, [(False, bucket_bytes sz - 124)])"
  assumes room: "unat a + unat bb < 18446744073709551616" and off: "off_vmm cap s (f # fs) a (unat bb)"
  shows "\<exists>s' fs' m'. create_bucket s sz flags = Some (a, s') \<and> insert_bucket (mem s') a (KHEAPSTART s') = Some m'
    \<and> kernel_heap cap (s'\<lparr>mem := m'\<rparr>) fs' (c # new # cs) \<and> vmm_within s (f # fs) (s'\<lparr>mem := m'\<rparr>) fs' \<and> K_HEAP_END s' = a + bb
    \<and> (\<forall>d\<in>set (c # cs). keeps (fst d + 64) (snd d) (mem s) m')
    \<and> (\<forall>b. translate (s'\<lparr>mem := m'\<rparr>) b = (if page_of b = page_of a then Some f else translate s b))"
proof -
  have hl: "heap_list s (c # cs)" and low: "\<And>d. d \<in> set (c # cs) \<Longrightarrow> unat (fst d) + bucket_size d \<le> unat a \<and> off_vmm cap s (f # fs) (fst d) (bucket_size d)"
    using kh by (auto simp: kernel_heap_def a_def)
  obtain s2 fs2 where s2: "create_bucket s sz flags = Some (a, s2)" "vmm_ok cap s2 fs2" "vmm_within s (f # fs) s2 fs2"
    "\<forall>d\<in>set (c # cs). same_bytes (fst d) (bucket_size d) (mem s) (mem s2)" "bucket_ok (mem s2) 0 0 new"
    "K_HEAP_END s2 = a + bb" "kheap_spinlock s2 = 0"
    "\<And>b. translate s2 b = (if page_of b = page_of a then Some f else translate s b)"
    using create_bucket_vmm [OF _ _ heap_list_end [OF kh] _ n sz, where cap = cap and cs = "c # cs" and flags = flags] kh [unfolded kernel_heap_def] room off unfolding a_def bb_def new_def by blast
  note w = s2(3) [unfolded vmm_within_def]
  have bb: "bucket_size new = unat bb" "69632 \<le> unat bb"
    using bucket_bytes_bound(1) [of sz] sz by (simp_all add: new_def bucket_size_def bb_def unat_diff_64 word_le_nat_alt)
  have ap: "apart d new" if "d \<in> set (c # cs)" for d
    using low [OF that] room bb by (auto simp: apart_def new_def a_def [symmetric] bucket_size_def [of d] intro!: sep_ordered)
  then have ap2: "\<forall>d\<in>set (c # cs). apart d new \<and> apart new d" using apart_sym by blast
  have nn: "new \<notin> set (c # cs)" using low [of new] bb by (auto simp: new_def a_def)
  have ch: "chain (mem s2) 0 (c # cs)" using hl chain_same [OF s2(4), of 0] by (simp add: heap_list_def)
  have pw: "pairwise apart (set (c # new # cs))" "distinct (c # new # cs)"
    using hl nn ap2 by (auto simp: heap_list_def pairwise_insert)
  have h: "fst c = KHEAPSTART s" using hl by (simp add: heap_list_def head_addr_def)
  obtain m' where m': "insert_bucket (mem s2) a (fst c) = Some m'" "chain m' 0 (c # new # cs)"
      "\<forall>d\<in>set (c # new # cs). relinked d (mem s2) m'"
      "\<forall>x. (\<forall>d\<in>set (c # new # cs). \<not> unat (x - fst d) < bucket_size d) \<longrightarrow> m' x = mem s2 x"
    using insert_chain [of "mem s2" "fst c" "snd c" cs 0 0 "fst new" "snd new"] ch s2(5) pw by (auto simp: new_def a_def)
  let ?t = "s2\<lparr>mem := m'\<rparr>"
  have "heap_list ?t (c # new # cs)" using m'(2) pw h w by (simp add: heap_list_def head_addr_def)
  moreover have "unat (fst d) + bucket_size d \<le> unat (K_HEAP_END s2) \<and> off_vmm cap s2 fs2 (fst d) (bucket_size d)"
    if "d \<in> set (c # new # cs)" for d
    using that low [of d] off bb(1) room s2(6) w by (auto simp: off_vmm_def new_def a_def [symmetric] unat_add_64)
  ultimately have "kernel_heap cap ?t fs2 (c # new # cs)" "\<And>b. translate ?t b = translate s2 b" "vmm_pages ?t fs2 = vmm_pages s2 fs2"
    using kernel_heap_update [of cap s2 fs2 ?t "c # new # cs"] s2(2,7) m'(4) by (auto simp: same_regs_def)
  moreover have "keeps (fst d + 64) (snd d) (mem s) m'" if d: "d \<in> set (c # cs)" for d
    using s2(4) m'(3) d by (intro heap_keeps [OF hl d]) (auto simp: relinked_def same_bytes_def)
  moreover have "vmm_within s (f # fs) ?t fs2" if "vmm_pages ?t fs2 = vmm_pages s2 fs2"
    using vmm_within_trans [OF s2(3) vmm_within_regs [of s2 ?t]] that by (simp add: same_regs_def)
  ultimately show ?thesis
    using s2(1,6,8) m'(1) h w by (intro exI [of _ s2] exI [of _ fs2] exI [of _ m']) auto
qed

section \<open>Growing the list\<close>

lemma kernel_heap_say:
  "kernel_heap cap (say e s) fs cs = kernel_heap cap s fs cs" "off_vmm cap (say e s) fs a n = off_vmm cap s fs a n"
  "vmm_within (say e s) fs s' fs' = vmm_within s fs s' fs'"
  using vmm_ok_cong [of "say e s" s] by (simp_all add: kernel_heap_def heap_list_def off_vmm_def map_root_def vmm_within_def)

lemma bucket_bytes_small: "bucket_bytes (if sz < 64 then 64 else sz) = bucket_bytes sz"
  by (simp add: bucket_bytes_def heap_consts word_less_nat_alt)

text \<open>Without room in the list: a new bucket is mapped, put second, and asked.\<close>

lemma kmalloc_grow:
  assumes kh: "kernel_heap cap s (f # fs) (c # cs)" and n: "3 \<le> length fs" and sz: "unat sz \<le> 16777216"
    and none: "\<forall>d\<in>set (c # cs). first_fit (kmalloc_rounded sz) (snd d) = None"
  defines "a \<equiv> K_HEAP_END s" and "bb \<equiv> bucket_bytes sz" and "r \<equiv> kmalloc_rounded sz"
    and "new \<equiv> (K_HEAP_END s, [(False, bucket_bytes sz - 124)])"
  assumes room: "unat a + unat bb < 18446744073709551616" and off: "off_vmm cap s (f # fs) a (unat bb)"
  shows "\<exists>t fs'. kernel_heap cap t fs' (c # new # cs) \<and> vmm_within s (f # fs) t fs' \<and> K_HEAP_END t = a + bb
    \<and> (\<forall>d\<in>set (c # cs). keeps (fst d + 64) (snd d) (mem s) (mem t))
    \<and> (\<forall>b. translate t b = (if page_of b = page_of a then Some f else translate s b))
    \<and> kmalloc s sz = (do {
        m \<leftarrow> acquire_at (mem t) (b_spinlock a);
        (ret, m) \<leftarrow> place_pebble m a r PEBBLE_FLAG_IN_USE;
        (x, m) \<leftarrow> bucket_update_largest m a;
        let ret = (if ret \<noteq> 0 then ret + 60 else 0);
        let m = release_at m (b_spinlock a);
        Some (ret, t\<lparr>mem := if ret \<noteq> 0 then snd (memset m ret 0 (if sz < 64 then 64 else sz)) else m\<rparr>)
      })"
proof -
  define sz' where "sz' = (if sz < 64 then 64 else sz)"
  define s0 where "s0 = say (Serial_printf ('' '' @ [CHR 0x0A] @ ''Largest bucket free pebble size %ul '' @ [CHR 0x0A])
      [Va_int (load64 (mem s) (b_largest_free (KHEAPSTART s)))]) s"
  have s0: "kernel_heap cap s0 (f # fs) (c # cs)" "mem s0 = mem s" "K_HEAP_END s0 = a" "off_vmm cap s0 (f # fs) a (unat bb)"
    "\<And>b. translate s0 b = translate s b"
    using kh off by (simp_all add: s0_def kernel_heap_say a_def map_root_def)
  have e0: "s0\<lparr>mem := mem s\<rparr> = s0" using s0(2) [symmetric] by simp
  have "unat sz' \<le> 16777216" using sz by (simp add: sz'_def)
  moreover have bb: "bucket_bytes sz' = bb" by (simp add: sz'_def bb_def bucket_bytes_small)
  ultimately obtain s2 fs2 m2 where g: "create_bucket s0 sz' 0 = Some (a, s2)" "insert_bucket (mem s2) a (KHEAPSTART s2) = Some m2"
      "kernel_heap cap (s2\<lparr>mem := m2\<rparr>) fs2 (c # new # cs)" "K_HEAP_END s2 = a + bb" "vmm_within s0 (f # fs) (s2\<lparr>mem := m2\<rparr>) fs2"
      "\<forall>d\<in>set (c # cs). keeps (fst d + 64) (snd d) (mem s) m2"
      "\<And>b. translate (s2\<lparr>mem := m2\<rparr>) b = (if page_of b = page_of a then Some f else translate s b)"
    using grow_insert [OF s0(1) n, of sz' 0] room s0(2-5) unfolding new_def bb_def by (auto simp: a_def [symmetric])
  have c0: "create_bucket (s0\<lparr>mem := mem s\<rparr>) sz' 0 = Some (a, s2)" using g(1) e0 by simp
  have "chain (mem s) 0 (c # cs)" "head_addr (c # cs) = KHEAPSTART s" using kh by (auto simp: kernel_heap_def heap_list_def)
  then have "bucket_loop (mem s) (KHEAPSTART s) r PEBBLE_FLAG_IN_USE = Some (0, mem s)"
    using bucket_loop_search [of "mem s" 0 "c # cs" "[]" r PEBBLE_FLAG_IN_USE] none
    by (simp add: r_def head_addr_def [of "[]"] bucket_loop.simps [of _ 0])
  moreover have "request_size sz' = r" by (simp add: r_def kmalloc_rounded_def sz'_def)
  moreover have "a \<noteq> 0" using heap_list_end [OF kh] by (simp add: a_def)
  ultimately have "kmalloc s sz = (do {
        m \<leftarrow> acquire_at m2 (b_spinlock a);
        (ret, m) \<leftarrow> place_pebble m a r PEBBLE_FLAG_IN_USE;
        (x, m) \<leftarrow> bucket_update_largest m a;
        let ret = (if ret \<noteq> 0 then ret + 60 else 0);
        let m = release_at m (b_spinlock a);
        Some (ret, s2\<lparr>mem := if ret \<noteq> 0 then snd (memset m ret 0 sz') else m\<rparr>)
      })"
    using c0 g(2) s0(2) unfolding kmalloc_def Let_def PEBBLE_MIN_SIZE_def sz'_def [symmetric] s0_def [symmetric]
    by (simp add: sizeof_pebble_def Let_def) (auto simp: Option.bind_assoc sizeof_pebble_def split: prod.splits intro!: Option.bind_cong)
  moreover have "vmm_within s (f # fs) (s2\<lparr>mem := m2\<rparr>) fs2" using g(5) by (simp add: s0_def kernel_heap_say)
  ultimately show ?thesis using g(3,4,6,7) unfolding sz'_def by (intro exI [of _ "s2\<lparr>mem := m2\<rparr>"] exI [of _ fs2]) simp
qed

lemma kmalloc_grow_fit:
  assumes kh: "kernel_heap cap s (f # fs) (c # cs)" and n: "3 \<le> length fs" and sz: "unat sz \<le> 16777216"
    and none: "\<forall>d\<in>set (c # cs). first_fit (kmalloc_rounded sz) (snd d) = None"
  defines "a \<equiv> K_HEAP_END s" and "bb \<equiv> bucket_bytes sz" and "r \<equiv> kmalloc_rounded sz"
  assumes room: "unat a + unat bb < 18446744073709551616" and off: "off_vmm cap s (f # fs) a (unat bb)"
    and cov: "kmalloc_covers sz" and fit: "r \<le> bb - 124"
  shows "\<exists>s' fs'. kmalloc s sz = Some (a + 124, s') \<and> kernel_heap cap s' fs' (c # (a, cut_block r (bb - 124)) # cs) \<and> vmm_within s (f # fs) s' fs' \<and> K_HEAP_END s' = a + bb
    \<and> (\<forall>d\<in>set (c # cs). keeps (fst d + 64) (snd d) (mem s) (mem s'))
    \<and> (\<forall>x. unat (x - (a + 124)) < unat (if sz < 64 then 64 else sz) \<longrightarrow> mem s' x = 0)
    \<and> (\<forall>b. translate s' b = (if page_of b = page_of a then Some f else translate s b))"
proof -
  define sz' where "sz' = (if sz < 64 then 64 else sz)"
  define bs where "bs = [(False, bb - 124)]"
  obtain t fs' where t: "kernel_heap cap t fs' (c # (a, bs) # cs)" "K_HEAP_END t = a + bb" "vmm_within s (f # fs) t fs'"
      "\<forall>d\<in>set (c # cs). keeps (fst d + 64) (snd d) (mem s) (mem t)"
      "\<And>b. translate t b = (if page_of b = page_of a then Some f else translate s b)"
    and km: "kmalloc s sz = (do {
        m \<leftarrow> acquire_at (mem t) (b_spinlock a);
        (ret, m) \<leftarrow> place_pebble m a r PEBBLE_FLAG_IN_USE;
        (x, m) \<leftarrow> bucket_update_largest m a;
        let ret = (if ret \<noteq> 0 then ret + 60 else 0);
        let m = release_at m (b_spinlock a);
        Some (ret, t\<lparr>mem := if ret \<noteq> 0 then snd (memset m ret 0 sz') else m\<rparr>)
      })"
    using kmalloc_grow [OF kh n sz none] room off unfolding a_def bb_def r_def bs_def sz'_def by blast
  have ff: "first_fit r bs = Some ([], bb - 124, [])" using fit by (simp add: bs_def)
  have k: "0 < unat sz'" "unat sz' \<le> unat r" using cov by (auto simp: sz'_def kmalloc_covers_def r_def word_less_nat_alt)
  have r64: "r AND 63 = 0" using request_64 by (simp add: r_def kmalloc_rounded_def)
  obtain q where ok: "bucket_ok (mem t) q (head_addr cs) (a, bs)"
    using t(1) by (auto simp: kernel_heap_def heap_list_def)
  then have rep: "bucket_rep (mem t) a bs" by (simp add: bucket_ok_def)
  obtain m1 m2 m3 m' where m: "acquire_at (mem t) (b_spinlock a) = Some m1" "place_pebble m1 a r PEBBLE_FLAG_IN_USE = Some (a + 64, m2)"
      "a + 64 \<noteq> 0" "bucket_update_largest m2 a = Some (largest 0 (cut_block r (bb - 124)), m3)" "release_at m3 (b_spinlock a) = m'"
    and m': "bucket_rep m' a (cut_block r (bb - 124))" "load32 m' (b_spinlock a) = 0" "load32 m' (b_lflags a) = load32 (mem t) (b_lflags a)"
      "load64 m' (b_largest_free a) = largest 0 (cut_block r (bb - 124))" "inside_bucket a (extent bs) (mem t) m'"
    by (rule place_locked [OF rep ff r64 bucket_ok_open [OF ok ff], simplified]) blast
  define s' where "s' = t\<lparr>mem := filled m' (a + 124) 0 (unat sz')\<rparr>"
  have tk: "bucket_ok (mem s') q' (head_addr cs) (a, cut_block r (bb - 124))" "differ_in a (64 + extent bs) (mem t) (mem s')"
      "extent (cut_block r (bb - 124)) = extent bs"
    if "bucket_ok (mem t) q' (head_addr cs) (a, bs)" for q'
    using taken_bucket_ok [OF that ff k, of m' "mem s'"] m' by (simp_all add: s'_def add.assoc)
  have "unat (a + 124) = unat a + 124"
    using rep by (intro unat_add_64 [THEN trans]) (auto simp: bucket_rep_def bs_def)
  then have "a + 124 \<noteq> 0" by auto
  then have "kmalloc s sz = Some (a + 124, s')"
    unfolding km using m by (simp add: memset_filled s'_def Let_def add.assoc)
  moreover have kt: "kernel_heap cap s' fs' ([c] @ (a, cut_block r (bb - 124)) # cs)" "\<And>b. translate s' b = translate t b"
      "\<forall>d\<in>set ([c] @ cs). same_bytes (fst d) (bucket_size d) (mem t) (mem s')" "vmm_pages s' fs' = vmm_pages t fs'"
    using t(1) tk(1) tk(2,3) [OF ok]
    by (intro kernel_heap_take [of cap t fs' "[c]" "(a, bs)" cs s' "(a, cut_block r (bb - 124))"];
      simp add: bucket_size_def s'_def same_regs_def)+
  moreover have "keeps (fst d + 64) (snd d) (mem s) (mem s')" if d: "d \<in> set (c # cs)" for d
  proof -
    have "keeps (fst d + 64) (snd d) (mem t) (mem s')"
    proof (rule heap_keeps)
      show "heap_list t (c # (a, bs) # cs)" "d \<in> set (c # (a, bs) # cs)" using t(1) d by (auto simp: kernel_heap_def)
      show "relinked d (mem t) (mem s')" using kt(3) d by (auto simp: relinked_def same_bytes_def bucket_size_def)
    qed
    then show ?thesis using t(4) d keeps_trans by blast
  qed
  moreover have "vmm_within s (f # fs) s' fs'"
    using vmm_within_trans [OF t(3) vmm_within_regs [of t s']] kt(4) by (simp add: s'_def same_regs_def)
  ultimately show ?thesis using t(2,5) kt(1,2) by (intro exI [of _ s'] exI [of _ fs']) (simp add: s'_def sz'_def filled_def)
qed

lemma kmalloc_grow_no_fit:
  assumes kh: "kernel_heap cap s (f # fs) (c # cs)" and n: "3 \<le> length fs" and sz: "unat sz \<le> 16777216"
    and none: "\<forall>d\<in>set (c # cs). first_fit (kmalloc_rounded sz) (snd d) = None"
  defines "a \<equiv> K_HEAP_END s" and "bb \<equiv> bucket_bytes sz"
  assumes room: "unat a + unat bb < 18446744073709551616" and off: "off_vmm cap s (f # fs) a (unat bb)"
    and fit: "bb - 124 < kmalloc_rounded sz"
  shows "\<exists>s' fs'. kmalloc s sz = Some (0, s') \<and> kernel_heap cap s' fs' (c # (a, [(False, bb - 124)]) # cs) \<and> vmm_within s (f # fs) s' fs' \<and> K_HEAP_END s' = a + bb
    \<and> (\<forall>d\<in>set (c # cs). keeps (fst d + 64) (snd d) (mem s) (mem s'))
    \<and> (\<forall>b. translate s' b = (if page_of b = page_of a then Some f else translate s b))"
proof -
  let ?bs = "[(False, bb - 124)]" and ?r = "kmalloc_rounded sz"
  obtain t fs' where t: "kernel_heap cap t fs' (c # (a, ?bs) # cs)" "K_HEAP_END t = a + bb" "vmm_within s (f # fs) t fs'"
      "\<forall>d\<in>set (c # cs). keeps (fst d + 64) (snd d) (mem s) (mem t)"
      "\<And>b. translate t b = (if page_of b = page_of a then Some f else translate s b)"
    and km: "kmalloc s sz = (do {
        m \<leftarrow> acquire_at (mem t) (b_spinlock a);
        (ret, m) \<leftarrow> place_pebble m a ?r PEBBLE_FLAG_IN_USE;
        (x, m) \<leftarrow> bucket_update_largest m a;
        let ret = (if ret \<noteq> 0 then ret + 60 else 0);
        let m = release_at m (b_spinlock a);
        Some (ret, t\<lparr>mem := if ret \<noteq> 0 then snd (memset m ret 0 (if sz < 64 then 64 else sz)) else m\<rparr>)
      })"
    using kmalloc_grow [OF kh n sz none] room off unfolding a_def bb_def by blast
  obtain q where ok: "bucket_ok (mem t) q (head_addr cs) (a, ?bs)"
    using t(1) by (auto simp: kernel_heap_def heap_list_def)
  then have rep: "bucket_rep (mem t) a ?bs" and l: "load32 (mem t) (b_spinlock a) = 0" and h: "header_ok (mem t) a ?bs"
    by (simp_all add: bucket_ok_def)
  define m1 where "m1 = store32 (mem t) (b_spinlock a) 1"
  have acq: "acquire_at (mem t) (b_spinlock a) = Some m1" by (simp add: acquire_at_def acquire_spinlock_def m1_def l)
  have r1: "bucket_rep m1 a ?bs" "header_ok m1 a ?bs" using lock_store(1) [OF rep] h header_ok_lock by (simp_all add: m1_def)
  have ff: "first_fit ?r ?bs = None" using fit by simp
  have "place_pebble m1 a ?r PEBBLE_FLAG_IN_USE = Some (0, m1)"
    using place_no_fit [OF r1(1) ff] r1(2) by (simp add: header_ok_def)
  moreover have "store64 m1 (b_largest_free a) (largest 0 ?bs) = m1"
    using store64_load [of m1 "b_largest_free a"] r1(2) by (simp add: header_ok_def)
  then have "bucket_update_largest m1 a = Some (largest 0 ?bs, m1)"
    using update_largest_rep(1) [OF r1(1)] by simp
  moreover have "release_at m1 (b_spinlock a) = mem t"
    using relock [OF l] by (simp add: release_at_def release_spinlock_def m1_def)
  ultimately have "kmalloc s sz = Some (0, t)" unfolding km by (simp add: acq Let_def)
  then show ?thesis using t by blast
qed

section \<open>Freeing in the list\<close>

lemma kfree_bucket:
  assumes kh: "kernel_heap cap s fs (pre @ (b, xs @ (u, n) # ys) # post)"
  defines "bs \<equiv> free_block xs n ys"
  obtains m' where "kfree s (end_addr (b + 64) xs + 60) = (if length bs = 1 then remove_bucket (s\<lparr>mem := m'\<rparr>) b else Some (s\<lparr>mem := m'\<rparr>))"
    "kernel_heap cap (s\<lparr>mem := m'\<rparr>) fs (pre @ (b, bs) # post)" "\<forall>v. translate (s\<lparr>mem := m'\<rparr>) v = translate s v"
    "vmm_pages (s\<lparr>mem := m'\<rparr>) fs = vmm_pages s fs" "bucket_size (b, bs) = 64 + extent (xs @ (u, n) # ys)"
    "\<forall>c\<in>set (pre @ (b, xs @ (False, n) # ys) # post). keeps (fst c + 64) (snd c) (mem s) m'"
proof -
  let ?c = "(b, xs @ (u, n) # ys)"
  have hl: "heap_list s (pre @ ?c # post)" using kh by (simp add: kernel_heap_def)
  then obtain q where ok: "bucket_ok (mem s) q (head_addr post) ?c"
    using chain_member [of "mem s" 0 pre ?c post] by (auto simp: heap_list_def)
  have "bucket_rep (mem s) b (xs @ (u, n) # ys)" "\<not> bit (load32 (mem s) (b_spinlock b)) 0" "header_ok (mem s) b (xs @ (u, n) # ys)"
    using ok by (simp_all add: bucket_ok_def)
  from kfree_steps [OF this, folded bs_def] obtain m' where
    m': "kfree s (end_addr (b + 64) xs + 60) = (if length bs = 1 then remove_bucket (s\<lparr>mem := m'\<rparr>) b else Some (s\<lparr>mem := m'\<rparr>))"
      "bucket_rep m' b bs" "keeps (b + 64) (xs @ (False, n) # ys) (mem s) m'" "load32 m' (b_spinlock b) = 0" "header_ok m' b bs"
      "inside_bucket b (extent (xs @ (u, n) # ys)) (mem s) m'" "extent bs = extent (xs @ (u, n) # ys)"
    by auto
  let ?t = "s\<lparr>mem := m'\<rparr>"
  have bk: "bucket_ok (mem ?t) q' (head_addr post) (b, bs)" if "bucket_ok (mem s) q' (head_addr post) ?c" for q'
    using that m' by (simp add: bucket_ok_def bucket_size_def inside_bucket_def)
  have d: "differ_in b (bucket_size ?c) (mem s) m'" "bucket_size (b, bs) = bucket_size ?c" "same_regs s ?t"
    using m'(6,7) by (simp_all add: inside_bucket_def bucket_size_def same_regs_def)
  note kt = kernel_heap_take [OF kh _ _ _ bk d(3), simplified, OF d(1,2)]
  have "keeps (fst c + 64) (snd c) (mem s) m'" if c: "c \<in> set (pre @ post)" for c
    using kt(3) c by (intro heap_keeps [OF hl]) (auto simp: relinked_def same_bytes_def)
  then have "\<forall>c\<in>set (pre @ (b, xs @ (False, n) # ys) # post). keeps (fst c + 64) (snd c) (mem s) m'"
    using m'(3) by auto
  then show ?thesis using that [OF m'(1)] kt(1,2,4) d(2) by (simp add: bucket_size_def)
qed

text \<open>The manager changes its own memory only.\<close>

lemma kernel_heap_vmm:
  assumes kh: "kernel_heap cap s fs cs" and v: "vmm_ok cap s' fs'" "vmm_changes cap s fs s' fs'" and r: "same_regs s s'"
  shows "kernel_heap cap s' fs' cs" "\<forall>c\<in>set cs. keeps (fst c + 64) (snd c) (mem s) (mem s')"
proof -
  have hl: "heap_list s cs" using kh by (simp add: kernel_heap_def)
  have same: "same_bytes (fst c) (bucket_size c) (mem s) (mem s')" if "c \<in> set cs" for c
    using off_vmm_same [OF v(2)] kh that by (auto simp: kernel_heap_def same_bytes_def)
  then show "\<forall>c\<in>set cs. keeps (fst c + 64) (snd c) (mem s) (mem s')"
    by (intro ballI heap_keeps [OF hl]) (auto simp: relinked_def same_bytes_def)
  have "chain (mem s') 0 cs" using hl chain_same [of cs "mem s" "mem s'" 0] same by (simp add: heap_list_def)
  then have "heap_list s' cs" using hl r by (simp add: heap_list_def same_regs_def)
  then show "kernel_heap cap s' fs' cs"
    using kh v r by (auto simp: kernel_heap_def same_regs_def vmm_changes_def off_vmm_def)
qed

lemma bucket_address_inj:
  assumes "heap_list s cs" "c \<in> set cs" "d \<in> set cs" "c \<noteq> d"
  shows "fst c \<noteq> fst d" "unat i + k \<le> 64 \<Longrightarrow> unat j + l \<le> 64 \<Longrightarrow> 0 < k \<Longrightarrow> 0 < l \<Longrightarrow> sep (fst c + i) k (fst d + j) l"
proof -
  have "sep (fst c) (bucket_size c) (fst d) (bucket_size d)" using assms by (auto simp: heap_list_def pairwise_def apart_def)
  then have "sep (fst c) 64 (fst d) 64" by (rule sep_sub_0) (simp_all add: bucket_size_def)
  then show "fst c \<noteq> fst d" "unat i + k \<le> 64 \<Longrightarrow> unat j + l \<le> 64 \<Longrightarrow> 0 < k \<Longrightarrow> 0 < l \<Longrightarrow> sep (fst c + i) k (fst d + j) l"
    using sep_sub by (auto simp: sep_def)
qed

lemma chain_pair: "chain m q (pre @ d # c # post) \<Longrightarrow> bucket_ok m (fst d) (head_addr post) c"
  by (induction pre arbitrary: q) auto

lemma remove_bucket_unlinks:
  assumes hl: "heap_list s (pre @ d # c # post)"
  shows "remove_bucket s (fst c)
    = munmap (s\<lparr>mem := unlink (mem s) (fst d) (head_addr post)\<rparr>) (fst c) (load64 (mem s) (b_size (fst c)))"
proof -
  let ?cs = "pre @ d # c # post" and ?nx = "head_addr post"
  have ch: "chain (mem s) 0 ?cs" using hl by (simp add: heap_list_def)
  have c: "bucket_ok (mem s) (fst d) ?nx c" by (rule chain_pair [OF ch])
  obtain q where d: "bucket_ok (mem s) q (head_addr (c # post)) d" by (rule chain_member [OF ch])
  have cd: "c \<noteq> d" "c \<in> set ?cs" "d \<in> set ?cs" using hl by (auto simp: heap_list_def)
  have "fst (hd ?cs) = KHEAPSTART s" "hd ?cs \<noteq> c" "hd ?cs \<in> set ?cs"
    using hl by (cases pre; auto simp: heap_list_def head_addr_def)+
  then have nk: "fst c \<noteq> KHEAPSTART s" using bucket_address_inj(1) [OF hl, of "hd ?cs" c] cd by metis
  have nz: "fst c \<noteq> 0" "fst d \<noteq> 0" using bucket_header_bytes(1) c d by blast+
  have r: "load64 (mem s) (b_prev (fst c)) = fst d" "load64 (mem s) (b_next (fst c)) = ?nx" using c by (simp_all add: bucket_ok_def)
  have s1: "sep (fst c + i) 8 (fst d + 56) 8" if "unat i + 8 \<le> 64" for i
    using bucket_address_inj(2) [OF hl cd(2,3,1) that] by simp
  have s2: "sep (fst c + 16) 8 (?nx + 48) 8" if "?nx \<noteq> 0"
  proof -
    obtain e es where e: "post = e # es" using \<open>?nx \<noteq> 0\<close> by (cases post) (auto simp: head_addr_def)
    then have "c \<noteq> e" "e \<in> set ?cs" using hl by (auto simp: heap_list_def)
    then show ?thesis using bucket_address_inj(2) [OF hl cd(2), of e 16 8 48 8] e by (simp add: head_addr_def)
  qed
  show ?thesis
    using nk nz r s1 [of 56] s1 [of 48] s1 [of 16] s2 by (simp add: remove_bucket_def Let_def unlink_def layout mem_simps)
qed

lemma remove_bucket_heap:
  assumes kh: "kernel_heap cap s fs (pre @ d # c # post)" and small: "bucket_size c \<le> 16777216"
    and nf: "null_free (mem s) (PHYSICAL_ADDRESS_OFFSET s) 4 (map_root s 0)" and root: "active_pml4_table s = map_root s 0"
  shows "\<exists>s'. remove_bucket s (fst c) = Some s' \<and> kernel_heap cap s' fs (pre @ d # post) \<and> vmm_within s fs s' fs \<and> K_HEAP_END s' = K_HEAP_END s
    \<and> (\<forall>e\<in>set (pre @ d # post). keeps (fst e + 64) (snd e) (mem s) (mem s'))
    \<and> (\<forall>v. translate s' v = (if page_of v = page_of (fst c) \<and> translate s v \<noteq> Some 0 then None else translate s v))"
proof -
  let ?cs = "pre @ d # c # post" and ?ds = "pre @ d # post"
  let ?t = "s\<lparr>mem := unlink (mem s) (fst d) (head_addr post)\<rparr>"
  have hl: "heap_list s ?cs" and vm: "vmm_ok cap s fs" "\<not> bit (kheap_spinlock s) 0" using kh by (simp_all add: kernel_heap_def)
  then have ch: "chain (mem s) 0 ?cs" "pairwise apart (set ?cs)" "distinct ?cs" "head_addr ?ds = KHEAPSTART s"
    by (cases pre; simp add: heap_list_def head_addr_def)+
  note ul = unlink_chain [OF ch(1-3)] unlink_local(2) [OF ch(1-3)]
  have "pairwise apart (set ?ds)" using ch(2) by (rule pairwise_subset) auto
  then have ht: "heap_list ?t ?ds" using ul(1) ch(3,4) by (simp add: heap_list_def)
  have low: "unat (fst e) + bucket_size e \<le> unat (K_HEAP_END s) \<and> off_vmm cap s fs (fst e) (bucket_size e)" if "e \<in> set ?ds" for e
    using kh that by (auto simp: kernel_heap_def)
  have regs: "same_regs s ?t" by (simp add: same_regs_def)
  have kt: "kernel_heap cap ?t fs ?ds" "\<And>v. translate ?t v = translate s v" "vmm_pages ?t fs = vmm_pages s fs"
    by (rule kernel_heap_update [OF vm regs ht low]; use ul(3) in simp)+
  have "null_free (mem ?t) (PHYSICAL_ADDRESS_OFFSET ?t) 4 (map_root ?t 0)" "active_pml4_table ?t = map_root ?t 0"
    using nf kt(3) root by (simp_all add: null_free_def map_root_def active_pml4_table_def)
  note mu = munmap_page_vmm [OF _ this, of cap fs "fst c"]
  have vt: "vmm_ok cap ?t fs" using kt(1) by (simp add: kernel_heap_def)
  note kv = kernel_heap_vmm [OF kt(1) mu(1-3) [OF vt]]
  have ok: "bucket_ok (mem s) (fst d) (head_addr post) c" by (rule chain_pair [OF ch(1)])
  then have sz: "4096 * unat (load64 (mem s) (b_size (fst c))) = bucket_size c" "unat (fst c) + bucket_size c < 18446744073709551616"
      "64 \<le> bucket_size c"
    by (simp_all add: bucket_ok_def bucket_rep_def bucket_size_def)
  then have one: "1 \<le> unat (load64 (mem s) (b_size (fst c)))" by linarith
  then have "unat (load64 (mem s) (b_size (fst c))) \<le> 4096" "unat (fst c) + 4096 < 18446744073709551616"
    using sz small by linarith+
  with one have "remove_bucket s (fst c) = Some (munmap_page ?t (fst c))"
    unfolding remove_bucket_unlinks [OF hl] by (rule munmap_one_page)
  moreover have "keeps (fst e + 64) (snd e) (mem s) (mem (munmap_page ?t (fst c)))" if "e \<in> set ?ds" for e
    using kv(2) that ul(2) heap_keeps [OF hl, of e "mem ?t"] by (auto intro: keeps_trans)
  moreover have "K_HEAP_END (munmap_page ?t (fst c)) = K_HEAP_END s" using mu(3) [OF vt] by (simp add: same_regs_def)
  moreover have "vmm_within s fs (munmap_page ?t (fst c)) fs"
    using mu(2) [OF vt] kt(3) by (intro vmm_within_regs [OF same_regs_trans [OF regs mu(3) [OF vt]]]) (simp add: vmm_changes_def)
  ultimately show ?thesis using kv(1) mu(4) [OF vt] kt(2) by (intro exI [of _ "munmap_page ?t (fst c)"]) simp
qed

text \<open>Requests that the rounding covers: up to 64 KiB they fit the smallest bucket, above that never the one mapped for them.\<close>

lemma unat_rounded:
  assumes "64 \<le> unat sz" "unat sz \<le> 16777216"
  shows "unat (kmalloc_rounded sz) = 4096 * ((unat sz + 63) div 4096)"
  using unat_request [of sz] assms by (simp add: kmalloc_rounded_def word_less_nat_alt)

lemma rounded_small:
  assumes "unat sz \<le> 65536"
  shows "bucket_bytes sz = 69632" "kmalloc_rounded sz \<le> 69632 - 124"
proof -
  have "sz < MIN_INITIAL_ALLOC" using assms by (simp add: heap_consts word_less_nat_alt)
  then show "bucket_bytes sz = 69632" by (simp add: bucket_bytes_def heap_consts)
  show "kmalloc_rounded sz \<le> 69632 - 124"
  proof (cases "unat sz < 64")
    case True
    then show ?thesis by (simp add: kmalloc_rounded_def request_size_def word_less_nat_alt heap_consts)
  next
    case False
    have "(unat sz + 63) div 4096 \<le> 16" using assms by simp
    then show ?thesis using unat_rounded [of sz] False assms by (simp add: word_le_nat_alt)
  qed
qed

lemma rounded_large:
  assumes "65536 < unat sz" "unat sz \<le> 16777216" "kmalloc_covers sz"
  shows "bucket_bytes sz - 124 < kmalloc_rounded sz"
proof -
  define k where "k = (unat sz + 63) div 4096"
  have r: "unat (kmalloc_rounded sz) = 4096 * k" using unat_rounded assms(1,2) by (simp add: k_def)
  have c: "unat sz \<le> 4096 * k"
    using assms(1,3) r by (simp add: kmalloc_covers_def word_less_nat_alt)
  moreover have "4096 * k \<le> unat sz + 63" by (simp add: k_def)
  moreover have "16 < k" using c assms(1) by linarith
  ultimately have lo: "69569 \<le> unat sz" "unat sz \<le> 4096 * k" "4096 * k \<le> unat sz + 63" by linarith+
  then have "\<not> sz < MIN_INITIAL_ALLOC" by (simp add: heap_consts word_less_nat_alt)
  moreover have "unat (sz + 4095) = unat sz + 4095" using assms(2) by (simp add: unat_add_64)
  moreover have "(unat sz + 4095) div 4096 = k" using lo by (intro div_nat_eqI) auto
  ultimately have b: "unat (bucket_bytes sz) = 4096 * k"
    unfolding bucket_bytes_def unat_page_mask by (simp add: PAGESIZE_def)
  then have "unat (bucket_bytes sz - 124) = 4096 * k - 124" using lo by (simp add: unat_diff_64 word_le_nat_alt)
  then show ?thesis using r lo by (simp add: word_less_nat_alt)
qed

lemma kmalloc_grow_small:
  assumes "kernel_heap cap s (f # fs) (c # cs)" "3 \<le> length fs" "unat sz \<le> 65536" "kmalloc_covers sz"
    "\<forall>d\<in>set (c # cs). first_fit (kmalloc_rounded sz) (snd d) = None"
    "unat (K_HEAP_END s) + 69632 < 18446744073709551616" "off_vmm cap s (f # fs) (K_HEAP_END s) 69632"
  shows "\<exists>s' fs'. kmalloc s sz = Some (K_HEAP_END s + 124, s')
    \<and> kernel_heap cap s' fs' (c # (K_HEAP_END s, cut_block (kmalloc_rounded sz) 69508) # cs) \<and> vmm_within s (f # fs) s' fs' \<and> K_HEAP_END s' = K_HEAP_END s + 69632
    \<and> (\<forall>d\<in>set (c # cs). keeps (fst d + 64) (snd d) (mem s) (mem s'))
    \<and> (\<forall>x. unat (x - (K_HEAP_END s + 124)) < unat (if sz < 64 then 64 else sz) \<longrightarrow> mem s' x = 0)
    \<and> (\<forall>v. translate s' v = (if page_of v = page_of (K_HEAP_END s) then Some f else translate s v))"
  using kmalloc_grow_fit [OF assms(1,2) _ assms(5)] assms(3,4,6,7) rounded_small [OF assms(3)] by simp

lemma kfree_heap_unmap:
  assumes "kernel_heap cap s fs (pre @ d # (b, xs @ (u, n) # ys) # post)" "length (free_block xs n ys) = 1"
    "64 + extent (xs @ (u, n) # ys) \<le> 16777216"
    "null_free (mem s) (PHYSICAL_ADDRESS_OFFSET s) 4 (map_root s 0)" "active_pml4_table s = map_root s 0"
  shows "\<exists>s'. kfree s (end_addr (b + 64) xs + 60) = Some s' \<and> kernel_heap cap s' fs (pre @ d # post) \<and> vmm_within s fs s' fs \<and> K_HEAP_END s' = K_HEAP_END s
    \<and> (\<forall>c\<in>set (pre @ d # post). keeps (fst c + 64) (snd c) (mem s) (mem s'))
    \<and> (\<forall>v. translate s' v = (if page_of v = page_of b \<and> translate s v \<noteq> Some 0 then None else translate s v))"
proof -
  have kh: "kernel_heap cap s fs ((pre @ [d]) @ (b, xs @ (u, n) # ys) # post)" using assms(1) by simp
  let ?bs = "free_block xs n ys"
  obtain m' where m': "kfree s (end_addr (b + 64) xs + 60) = (if length ?bs = 1 then remove_bucket (s\<lparr>mem := m'\<rparr>) b else Some (s\<lparr>mem := m'\<rparr>))"
      "kernel_heap cap (s\<lparr>mem := m'\<rparr>) fs ((pre @ [d]) @ (b, ?bs) # post)" "\<forall>v. translate (s\<lparr>mem := m'\<rparr>) v = translate s v"
      "vmm_pages (s\<lparr>mem := m'\<rparr>) fs = vmm_pages s fs" "bucket_size (b, ?bs) = 64 + extent (xs @ (u, n) # ys)"
      "\<forall>c\<in>set ((pre @ [d]) @ (b, xs @ (False, n) # ys) # post). keeps (fst c + 64) (snd c) (mem s) m'"
    using kfree_bucket [OF kh] by metis
  let ?t = "s\<lparr>mem := m'\<rparr>"
  have "null_free (mem ?t) (PHYSICAL_ADDRESS_OFFSET ?t) 4 (map_root ?t 0)" "active_pml4_table ?t = map_root ?t 0"
    using assms(4,5) m'(4) by (simp_all add: null_free_def map_root_def active_pml4_table_def)
  moreover have "bucket_size (b, ?bs) \<le> 16777216" using m'(5) assms(3) by simp
  ultimately obtain s' where s': "remove_bucket ?t b = Some s'" "kernel_heap cap s' fs (pre @ d # post)" "vmm_within ?t fs s' fs" "K_HEAP_END s' = K_HEAP_END s"
      "\<forall>e\<in>set (pre @ d # post). keeps (fst e + 64) (snd e) m' (mem s')"
      "\<forall>v. translate s' v = (if page_of v = page_of b \<and> translate ?t v \<noteq> Some 0 then None else translate ?t v)"
    using remove_bucket_heap [of cap ?t fs pre d "(b, ?bs)" post] m'(2) by auto
  moreover have "vmm_within s fs ?t fs" using vmm_within_regs [of s ?t fs fs] m'(4) by (simp add: same_regs_def)
  ultimately show ?thesis using vmm_within_trans [of s fs ?t fs s' fs] m'(1,3,6) assms(2) by (intro exI [of _ s']) (auto intro: keeps_trans)
qed

section \<open>The first bucket of the list as a heap of blocks\<close>

lemma kmalloc_heap_list:
  assumes "kernel_heap cap s fs (pre @ (b, bs) # post)" "\<forall>c\<in>set pre. first_fit (kmalloc_rounded sz) (snd c) = None"
    "first_fit (kmalloc_rounded sz) bs = Some (xs, n, ys)" "kmalloc_covers sz"
  shows "\<exists>s'. kmalloc s sz = Some (end_addr (b + 64) xs + 60, s')
    \<and> kernel_heap cap s' fs (pre @ (b, xs @ cut_block (kmalloc_rounded sz) n @ ys) # post)
    \<and> (\<forall>c\<in>set (pre @ (b, bs) # post). keeps (fst c + 64) (snd c) (mem s) (mem s'))
    \<and> (\<forall>x. unat (x - (end_addr (b + 64) xs + 60)) < unat (if sz < 64 then 64 else sz) \<longrightarrow> mem s' x = 0)
    \<and> (\<forall>v. translate s' v = translate s v) \<and> vmm_within s fs s' fs \<and> K_HEAP_END s' = K_HEAP_END s"
proof -
  define sz' where "sz' = (if sz < 64 then 64 else sz)"
  let ?r = "kmalloc_rounded sz" and ?cs = "pre @ (b, bs) # post"
  define bs' where "bs' = xs @ cut_block ?r n @ ys"
  define a where "a = end_addr (b + 64) xs + 60"
  note fit = assms(3)
  have r: "?r = request_size sz'" by (simp add: kmalloc_rounded_def sz'_def)
  have k: "0 < unat sz'" "unat sz' \<le> unat ?r" using assms(4) by (auto simp: sz'_def kmalloc_covers_def word_less_nat_alt)
  have hl: "heap_list s ?cs" using assms(1) by (simp add: kernel_heap_def)
  then have ch: "chain (mem s) 0 ?cs" "head_addr ?cs = KHEAPSTART s" by (simp_all add: heap_list_def)
  obtain q where ok: "bucket_ok (mem s) q (head_addr post) (b, bs)" by (rule chain_member [OF ch(1)])
  then have rep: "bucket_rep (mem s) b bs" by (simp add: bucket_ok_def)
  obtain m' where m': "bucket_loop (mem s) b ?r PEBBLE_FLAG_IN_USE = Some (a, m')" "bucket_rep m' b bs'"
    "keeps (b + 64) bs (mem s) m'" "load32 m' (b_spinlock b) = 0" "load32 m' (b_lflags b) = load32 (mem s) (b_lflags b)"
    "load64 m' (b_largest_free b) = largest 0 bs'" "inside_bucket b (extent bs) (mem s) m'"
    using bucket_loop_fit [OF rep fit _ bucket_ok_open [OF ok fit]] request_64 [of sz'] unfolding r [symmetric] a_def bs'_def by blast
  have "unat a = unat (end_addr (b + 64) xs) + 60"
    using bucket_split(3) [OF rep [unfolded first_fit_some [OF fit, THEN conjunct1]]] by (simp add: a_def unat_add_64)
  then have "a \<noteq> 0" by auto
  moreover have "bucket_loop (mem s) (KHEAPSTART s) ?r PEBBLE_FLAG_IN_USE = Some (a, m')"
    using bucket_loop_search [OF ch(1) assms(2)] m'(1) ch(2) by (simp add: head_addr_def [of "_ # _"])
  ultimately obtain s' where s': "kmalloc s sz = Some (a, s')" "mem s' = filled m' a 0 (unat sz')" "same_regs s s'"
    using kmalloc_found [OF _ _ sz'_def r] by blast
  note t = taken_bucket_ok [OF _ fit k, folded bs'_def, OF _ m'(2,4-7) s'(2) [unfolded a_def]]
  have kt: "kernel_heap cap s' fs (pre @ (b, bs') # post)" "\<And>v. translate s' v = translate s v"
      "\<forall>c\<in>set (pre @ post). same_bytes (fst c) (bucket_size c) (mem s) (mem s')" "vmm_pages s' fs = vmm_pages s fs"
    using t(3,4) [OF ok]
    by (intro kernel_heap_take [OF assms(1), of s' "(b, bs')"] t(1) s'(3); simp add: bucket_size_def)+
  have "keeps (fst c + 64) (snd c) (mem s) (mem s')" if c: "c \<in> set (pre @ post)" for c
    using kt(3) c by (intro heap_keeps [OF hl]) (auto simp: relinked_def same_bytes_def)
  moreover have "keeps (b + 64) bs (mem s) (mem s')" using t(2) [OF ok] m'(3) keeps_trans by blast
  ultimately have "keeps (fst c + 64) (snd c) (mem s) (mem s')" if "c \<in> set ?cs" for c using that by auto
  moreover have "vmm_within s fs s' fs" "K_HEAP_END s' = K_HEAP_END s"
    using vmm_within_regs [OF s'(3), of fs fs] kt(4) s'(3) by (simp_all add: same_regs_def)
  ultimately show ?thesis
    using s'(1,2) kt(1,2) unfolding bs'_def a_def sz'_def by (intro exI [of _ s']) (simp add: filled_def)
qed

lemma kfree_heap_list:
  assumes "kernel_heap cap s fs (pre @ (b, xs @ (u, n) # ys) # post)" "pre = [] \<or> length (free_block xs n ys) \<noteq> 1"
  shows "\<exists>s'. kfree s (end_addr (b + 64) xs + 60) = Some s' \<and> kernel_heap cap s' fs (pre @ (b, free_block xs n ys) # post)
    \<and> (\<forall>c\<in>set (pre @ (b, xs @ (False, n) # ys) # post). keeps (fst c + 64) (snd c) (mem s) (mem s'))
    \<and> (\<forall>v. translate s' v = translate s v) \<and> vmm_within s fs s' fs \<and> K_HEAP_END s' = K_HEAP_END s"
proof -
  obtain m' where m': "kfree s (end_addr (b + 64) xs + 60)
      = (if length (free_block xs n ys) = 1 then remove_bucket (s\<lparr>mem := m'\<rparr>) b else Some (s\<lparr>mem := m'\<rparr>))"
      "kernel_heap cap (s\<lparr>mem := m'\<rparr>) fs (pre @ (b, free_block xs n ys) # post)" "\<forall>v. translate (s\<lparr>mem := m'\<rparr>) v = translate s v"
      "\<forall>c\<in>set (pre @ (b, xs @ (False, n) # ys) # post). keeps (fst c + 64) (snd c) (mem s) m'"
      "vmm_pages (s\<lparr>mem := m'\<rparr>) fs = vmm_pages s fs"
    using kfree_bucket [OF assms(1)] by metis
  have "vmm_within s fs (s\<lparr>mem := m'\<rparr>) fs" using vmm_within_regs [of s "s\<lparr>mem := m'\<rparr>"] m'(5) by (simp add: same_regs_def)
  moreover have "b = KHEAPSTART s" if "pre = []" using assms(1) that by (simp add: kernel_heap_def heap_list_def head_addr_def)
  then have "kfree s (end_addr (b + 64) xs + 60) = Some (s\<lparr>mem := m'\<rparr>)"
    using m'(1) assms(2) by (auto simp: remove_bucket_def)
  ultimately show ?thesis using m'(2-4) by (intro exI [of _ "s\<lparr>mem := m'\<rparr>"]) simp
qed

text \<open>With the other buckets and the memory manager around it, the first bucket keeps the contract of \<open>block_heap\<close>.\<close>

interpretation lheap: block_heap kmalloc kfree "\<lambda>s bs. kernel_heap cap s fs ((b, bs) # post)" "\<lambda>s xs. end_addr (b + 64) xs + 60"
  kmalloc_rounded kmalloc_covers for cap fs b post
proof (unfold_locales, goal_cases)
  case (1 s bs sz xs n ys)
  then show ?case using kmalloc_heap_list [where pre = "[]"] by fastforce
next
  case (2 s xs u n ys)
  then show ?case using kfree_heap_list [where pre = "[]"] by fastforce
qed

section \<open>Growing a block\<close>

text \<open>
  \<open>krealloc\<close> copies the new size from the old block and so reads past its end, possibly into the block it writes; the bytes that
  were in the old block are copied all the same.
\<close>

lemma copy_up_outside:
  "unat (x - d) < unat i \<or> \<not> unat (x - d) < unat n \<Longrightarrow> copy_up m d src i n x = m x"
proof (induction m d src i n rule: copy_up.induct)
  case (1 m d src i n)
  show ?case
  proof (cases "i < n")
    case True
    then have "unat (i + 1) = unat i + 1" "unat i < unat n" by (simp_all add: unat_Suc_64 word_less_nat_alt)
    moreover then have "x \<noteq> d + i" using 1(2) by auto
    moreover have "copy_up (m(d + i := m (src + i))) d src (i + 1) n x = (m(d + i := m (src + i))) x"
      using 1(2) calculation(1) by (intro 1(1) [OF True]) auto
    ultimately show ?thesis using True by (subst copy_up.simps) simp
  qed (subst copy_up.simps, simp)
qed

lemma copy_up_byte:
  "i \<le> j \<Longrightarrow> j < n \<Longrightarrow> \<not> unat (src + j - d) < unat n \<Longrightarrow> copy_up m d src i n (d + j) = m (src + j)"
proof (induction m d src i n rule: copy_up.induct)
  case (1 m d src i n)
  have lt: "i < n" using 1(2,3) by simp
  have u: "unat (i + 1) = unat i + 1" using lt by (simp add: unat_Suc_64)
  show ?case
  proof (cases "i = j")
    case True
    then show ?thesis using lt u copy_up_outside [of "d + j" d "i + 1" n] by (subst copy_up.simps) simp
  next
    case False
    then have "i + 1 \<le> j" using 1(2) by (intro inc_le) simp
    then have "copy_up (m(d + i := m (src + i))) d src (i + 1) n (d + j) = (m(d + i := m (src + i))) (src + j)"
      using 1(3,4) by (rule 1(1) [OF lt])
    moreover have "src + j \<noteq> d + i" using 1(4) lt by (auto simp: word_less_nat_alt)
    ultimately show ?thesis using lt by (subst copy_up.simps) simp
  qed
qed

lemma end_addr_flags: "map snd xs = map snd ys \<Longrightarrow> end_addr p xs = end_addr p ys"
proof (induction xs arbitrary: p ys)
  case (Cons x xs)
  then obtain y zs where "ys = y # zs" "snd x = snd y" "map snd xs = map snd zs" by (cases ys) auto
  then show ?case using Cons.IH by (cases x; cases y) simp
qed simp

text \<open>A block in use is still there after another was cut, at the same address.\<close>

lemma other_block:
  assumes bs: "xs @ (False, n) # ys = us @ (True, k) # vs" and e: "extent zs = extent [(False, n)]"
  obtains us' vs' where "xs @ zs @ ys = us' @ (True, k) # vs'" "end_addr p us' = end_addr p us"
    "set (payloads (end_addr p xs) zs) \<subseteq> set (payloads p (us' @ (False, k) # vs'))"
proof -
  consider ws where "xs = us @ (True, k) # ws" "vs = ws @ (False, n) # ys" | ws where "us = xs @ (False, n) # ws" "ys = ws @ (True, k) # vs"
    using bs by (auto simp: append_eq_append_conv2 append_eq_Cons_conv Cons_eq_append_conv)
  then show ?thesis
  proof cases
    case (1 ws)
    have "end_addr p (us @ (True, k) # ws) = end_addr p (us @ (False, k) # ws)" by (rule end_addr_flags) simp
    then show ?thesis using that [of us "ws @ zs @ ys"] 1 by auto
  next
    case (2 ws)
    have "end_addr q zs = q + 60 + n" for q using e by (simp add: end_addr_extent)
    then show ?thesis using that [of "xs @ zs @ ws" vs] 2 by auto
  qed
qed

text \<open>A write inside one block.\<close>

lemma heap_write_block:
  assumes kh: "kernel_heap cap s fs (pre @ (b, xs @ (u, n) # ys) # post)"
    and d: "differ_in (end_addr (b + 64) xs + 60) k (mem s) m'" "k \<le> unat n"
  shows "kernel_heap cap (s\<lparr>mem := m'\<rparr>) fs (pre @ (b, xs @ (u, n) # ys) # post)" "keeps (b + 64) (xs @ (False, n) # ys) (mem s) m'"
    "\<forall>c\<in>set (pre @ post). keeps (fst c + 64) (snd c) (mem s) m'" "vmm_pages (s\<lparr>mem := m'\<rparr>) fs = vmm_pages s fs"
proof -
  let ?bs = "xs @ (u, n) # ys" and ?p = "end_addr (b + 64) xs"
  have hl: "heap_list s (pre @ (b, ?bs) # post)" using kh by (simp add: kernel_heap_def)
  then obtain q where "bucket_ok (mem s) q (head_addr post) (b, ?bs)"
    using chain_member [of "mem s" 0 pre "(b, ?bs)" post] by (auto simp: heap_list_def)
  then have rep: "bucket_rep (mem s) b ?bs" by (simp add: bucket_ok_def)
  note pc = payload_change [OF rep d]
  show "keeps (b + 64) (xs @ (False, n) # ys) (mem s) m'" by (rule pc(2))
  have "differ_in ?p (extent ((u, n) # ys)) (mem s) m'"
    using d inside_from [of _ ?p 60 k "extent ((u, n) # ys)"] bucket_split(3) [OF rep] by (auto simp: differ_in_def)
  from inside_blocks [OF rep this pc(3)] have ins: "inside_bucket b (extent ?bs) (mem s) m'" .
  have ok: "bucket_ok (mem (s\<lparr>mem := m'\<rparr>)) q' (head_addr post) (b, ?bs)" if "bucket_ok (mem s) q' (head_addr post) (b, ?bs)" for q'
    using that pc(1) ins header_ok_same [OF pc(3), of ?bs ?bs] same_header_load(2) [OF pc(3), of 24]
    by (simp add: bucket_ok_def inside_bucket_def layout)
  have d': "differ_in b (bucket_size (b, ?bs)) (mem s) m'" "same_regs s (s\<lparr>mem := m'\<rparr>)"
    using ins by (simp_all add: inside_bucket_def bucket_size_def same_regs_def)
  note kt = kernel_heap_take [OF kh _ _ _ ok d'(2), simplified, OF d'(1)]
  show "kernel_heap cap (s\<lparr>mem := m'\<rparr>) fs (pre @ (b, ?bs) # post)" "vmm_pages (s\<lparr>mem := m'\<rparr>) fs = vmm_pages s fs"
    using kt(1,4) by simp_all
  show "\<forall>c\<in>set (pre @ post). keeps (fst c + 64) (snd c) (mem s) m'"
    using kt(3) by (intro ballI heap_keeps [OF hl]) (auto simp: relinked_def same_bytes_def)
qed

lemma keeps_block:
  assumes "keeps p bs m m'" "(True, a, n) \<in> set (payloads p bs)" "unat i < unat n"
  shows "m' (a + i) = m (a + i)"
  using assms by (fastforce simp: keeps_def)

text \<open>The blocks in use are apart from every other block.\<close>

lemma blocks_apart:
  assumes kh: "kernel_heap cap s fs (pre @ (b, xs @ (u, j) # ys) # post)" and n: "n \<le> unat j"
    and o: "(True, a, k) \<in> set (payloads (b + 64) (xs @ (False, j) # ys))" "i < k"
  shows "\<not> unat (a + i - (end_addr (b + 64) xs + 60)) < n"
proof -
  let ?d = "end_addr (b + 64) xs + 60"
  define m where "m = (\<lambda>x. if unat (x - ?d) < n then mem s x + 1 else mem s x)"
  have "differ_in ?d n (mem s) m" by (simp add: differ_in_def m_def)
  from keeps_block [OF heap_write_block(2) [OF kh this n] o(1), of i] o(2) have "m (a + i) = mem s (a + i)"
    by (simp add: word_less_nat_alt)
  then show ?thesis by (auto simp: m_def)
qed

lemma cut_other_block:
  assumes rep: "bucket_rep m b bs" and fit: "first_fit (kmalloc_rounded sz) bs = Some (xs, n, ys)" and cov: "kmalloc_covers sz"
    and bs: "bs = us @ (True, k) # vs"
  obtains j zs us' vs' where "cut_block (kmalloc_rounded sz) n = (True, j) # zs" "unat sz \<le> unat j"
    "xs @ cut_block (kmalloc_rounded sz) n @ ys = us' @ (True, k) # vs'" "end_addr p us' = end_addr p us"
    "(True, end_addr p xs + 60, j) \<in> set (payloads p (us' @ (False, k) # vs'))"
    "(True, end_addr p us + 60, k) \<in> set (payloads p (xs @ (False, j) # zs @ ys))"
proof -
  let ?r = "kmalloc_rounded sz"
  obtain j zs where j: "cut_block ?r n = (True, j) # zs" by (cases "SPLIT_PEBBLE n ?r") (auto simp: cut_block_def)
  obtain j' zs' where "cut_block ?r n @ ys = (True, j') # zs'" "?r \<le> j'" "extent ((True, j') # zs') = extent ((False, n) # ys)"
    by (rule cut_block_head [OF rep fit])
  then have jr: "?r \<le> j" "extent (cut_block ?r n) = extent [(False, n)]" "extent ((False, j) # zs) = extent [(False, n)]"
    by (auto simp: j)
  have eq: "xs @ (False, n) # ys = us @ (True, k) # vs" using bs first_fit_some [OF fit] by simp
  obtain us' vs' where uv: "xs @ cut_block ?r n @ ys = us' @ (True, k) # vs'" "end_addr p us' = end_addr p us"
      "set (payloads (end_addr p xs) (cut_block ?r n)) \<subseteq> set (payloads p (us' @ (False, k) # vs'))"
    by (rule other_block [OF eq jr(2), of p])
  obtain us'' vs'' where "xs @ ((False, j) # zs) @ ys = us'' @ (True, k) # vs''" "end_addr p us'' = end_addr p us"
    by (rule other_block [OF eq jr(3), of p])
  then have "(True, end_addr p us + 60, k) \<in> set (payloads p (xs @ (False, j) # zs @ ys))" by simp
  moreover have "unat (if sz < 64 then 64 else sz) \<le> unat ?r" using cov by (simp add: kmalloc_covers_def)
  then have "unat sz \<le> unat j" using jr(1) by (simp add: word_le_nat_alt word_less_nat_alt split: if_splits)
  ultimately show ?thesis using that [OF j _ uv(1,2)] uv(3) by (simp add: j)
qed

lemma krealloc_heap:
  assumes kh: "kernel_heap cap s fs ((b, bs) # post)" and bs: "bs = us @ (True, k) # vs" and big: "k < sz"
    and cov: "kmalloc_covers sz" and fit: "first_fit (kmalloc_rounded sz) bs = Some (xs, n, ys)"
  defines "ptr \<equiv> end_addr (b + 64) us + 60" and "new \<equiv> end_addr (b + 64) xs + 60"
  shows "\<exists>s' us' vs'. krealloc s ptr sz = Some (new, s') \<and> xs @ cut_block (kmalloc_rounded sz) n @ ys = us' @ (True, k) # vs'
    \<and> end_addr (b + 64) us' + 60 = ptr \<and> kernel_heap cap s' fs ((b, free_block us' k vs') # post)
    \<and> (\<forall>i. i < k \<longrightarrow> mem s' (new + i) = mem s (ptr + i))"
proof -
  let ?r = "kmalloc_rounded sz"
  have rep: "bucket_rep (mem s) b bs" using kh by (simp add: kernel_heap_def heap_list_def bucket_ok_def)
  note sp = bucket_split [OF rep [unfolded bs]] bucket_split(3) [OF rep [unfolded first_fit_some [OF fit, THEN conjunct1]]]
  have "unat ptr = unat (end_addr (b + 64) us) + 60" "unat new = unat (end_addr (b + 64) xs) + 60"
    using sp(3,8) by (simp_all add: ptr_def new_def unat_add_64)
  then have nz: "ptr \<noteq> 0" "new \<noteq> 0" "sz \<noteq> 0" using big by auto
  have pb: "load32 (mem s) (p_magic (ptr - 60)) = KMALLOC_MAGIC_PEBBLE" "load64 (mem s) (p_size (ptr - 60)) = k"
    using sp(1) by (simp_all add: pebble_at_def ptr_def)
  obtain s1 where s1: "kmalloc s sz = Some (new, s1)" "kernel_heap cap s1 fs ((b, xs @ cut_block ?r n @ ys) # post)"
      "keeps (b + 64) bs (mem s) (mem s1)"
    using kmalloc_heap_list [of cap s fs "[]" b bs post sz] kh fit cov by (auto simp: new_def)
  obtain j zs us' vs' where j: "cut_block ?r n = (True, j) # zs" "unat sz \<le> unat j" "xs @ cut_block ?r n @ ys = us' @ (True, k) # vs'"
      "end_addr (b + 64) us' + 60 = ptr" "(True, new, j) \<in> set (payloads (b + 64) (us' @ (False, k) # vs'))"
      "(True, ptr, k) \<in> set (payloads (b + 64) (xs @ (False, j) # zs @ ys))"
    using cut_other_block [OF rep fit cov bs, of "b + 64"] unfolding ptr_def new_def by metis
  have kj: "kernel_heap cap s1 fs ([] @ (b, xs @ (True, j) # zs @ ys) # post)" using s1(2) by (simp add: j(1))
  define s2 where "s2 = s1\<lparr>mem := snd (memcpy (mem s1) new ptr sz)\<rparr>"
  have "differ_in new (unat sz) (mem s1) (mem s2)"
    using copy_up_outside [of _ new 0 sz "mem s1" ptr] by (simp add: s2_def memcpy_def differ_in_def)
  from heap_write_block(1) [OF kj this [unfolded new_def] j(2)] have "kernel_heap cap s2 fs ((b, us' @ (True, k) # vs') # post)"
    using j(1,3) by (simp add: s2_def)
  then obtain s3 where s3: "kfree s2 ptr = Some s3" "kernel_heap cap s3 fs ((b, free_block us' k vs') # post)"
      "keeps (b + 64) (us' @ (False, k) # vs') (mem s2) (mem s3)"
    using kfree_heap_list [of cap s2 fs "[]" b us' True k vs' post] j(4) by auto
  have "mem s3 (new + i) = mem s (ptr + i)" if i: "i < k" for i
  proof -
    have lt: "i < sz" "unat i < unat k" "unat i < unat j" using i big j(2) by (auto simp: word_less_nat_alt)
    have "mem s3 (new + i) = mem s2 (new + i)" by (rule keeps_block [OF s3(3) j(5) lt(3)])
    also have "\<dots> = mem s1 (ptr + i)"
      using copy_up_byte [of 0 i sz ptr new "mem s1"] blocks_apart [OF kj j(2,6) i] lt(1) by (simp add: s2_def memcpy_def new_def)
    also have "\<dots> = mem s (ptr + i)"
      using keeps_block [OF s1(3), of ptr k i] lt(2) by (simp add: bs ptr_def)
    finally show ?thesis .
  qed
  moreover have "krealloc s ptr sz = Some (new, s3)"
    using nz pb big [unfolded not_le [symmetric]] s1(1) s3(1) by (simp add: krealloc_def Let_def sizeof_pebble_def s2_def)
  ultimately show ?thesis using s3(2) j(3,4) by (intro exI [of _ s3] exI [of _ us'] exI [of _ vs']) simp
qed

section \<open>Shrinking a block\<close>

text \<open>\<open>split_pebble\<close> copies the header of the block it cuts: the rest of a block in use is in use too.\<close>

lemma split_used:
  assumes rep: "bucket_rep m b (xs @ (True, n) # ys)" and r: "r \<le> n" "r AND 63 = 0" "SPLIT_PEBBLE n r"
  defines "p \<equiv> end_addr (b + 64) xs" and "m' \<equiv> snd (split_pebble m (end_addr (b + 64) xs) r)"
  shows "bucket_rep m' b (xs @ (True, r) # (True, n - r - 60) # ys)" "keeps (b + 64) (xs @ (False, n) # ys) m m'" "same_header b m m'"
    "unat (x - (p + 60)) < unat r \<Longrightarrow> m' x = m x"
proof -
  note sp = bucket_split [OF rep, folded p_def]
  have fit: "unat r + 60 < unat n" using split_room [OF r(3) sp(5)] r(1) by (simp add: word_le_nat_alt)
  note ss = seg_split [OF sp(1,3,4) r(2) fit r(3), folded m'_def [folded p_def]]
  show "unat (x - (p + 60)) < unat r \<Longrightarrow> m' x = m x" by (rule ss(4))
  have "unat (n - r) = unat n - unat r" using r(1) by (simp add: unat_diff_64)
  moreover then have "unat (n - r - 60) = unat (n - r) - 60" using fit by (subst unat_diff_64) (auto simp: word_le_nat_alt)
  ultimately have "extent ((True, r) # (True, n - r - 60) # ys) = extent ((True, n) # ys)" using fit by simp
  note rp = bucket_replace [OF rep ss(2) [unfolded p_def] ss(1) [unfolded p_def] _ this]
  show "bucket_rep m' b (xs @ (True, r) # (True, n - r - 60) # ys)" "same_header b m m'" using rp(1,3) by simp_all
  show "keeps (b + 64) (xs @ (False, n) # ys) m m'" using rp(2) ss(3) by (simp add: keeps_append p_def)
qed

lemma krealloc_shrinks:
  assumes rep: "bucket_rep (mem s) b (xs @ (True, n) # ys)" and lock: "load32 (mem s) (b_spinlock b) = 0"
    and r: "0 < r" "r \<le> n" "r AND 63 = 0" "SPLIT_PEBBLE n r"
  defines "ptr \<equiv> end_addr (b + 64) xs + 60"
  shows "\<exists>s'. krealloc s ptr r = Some (ptr, s') \<and> bucket_rep (mem s') b (xs @ (True, r) # (True, n - r - 60) # ys)
    \<and> load32 (mem s') (b_spinlock b) = 0 \<and> keeps (b + 64) (xs @ (False, n) # ys) (mem s) (mem s')
    \<and> (\<forall>x. unat (x - ptr) < unat r \<longrightarrow> mem s' x = mem s x)"
proof -
  let ?p = "end_addr (b + 64) xs" and ?l = "b_spinlock b" and ?bs = "xs @ (True, r) # (True, n - r - 60) # ys"
  define m1 where "m1 = store32 (mem s) ?l 1"
  define m2 where "m2 = snd (split_pebble m1 ?p r)"
  define m3 where "m3 = store32 m2 ?l 0"
  note sp = bucket_split [OF rep]
  have "unat ptr = unat ?p + 60" using sp(3) by (simp add: ptr_def unat_add_64)
  then have nz: "ptr \<noteq> 0" "r \<noteq> 0" "ptr - 60 = ?p" using r(1) by (auto simp: ptr_def)
  have pb: "load32 (mem s) (p_magic ?p) = KMALLOC_MAGIC_PEBBLE" "load64 (mem s) (p_size ?p) = n" "load64 (mem s) (p_parent ?p) = b"
    using sp(1) by (simp_all add: pebble_at_def)
  note l1 = lock_store [OF rep, of 1, folded m1_def]
  note u = split_used [OF l1(1) r(2-4), folded m2_def]
  note l3 = lock_store [OF u(1), of 0, folded m3_def]
  have par: "load64 m2 (p_parent ?p) = b" using bucket_split(1) [OF u(1)] by (simp add: pebble_at_def)
  have acq: "acquire_at (mem s) ?l = Some m1" by (simp add: acquire_at_def acquire_spinlock_def m1_def lock)
  have "krealloc s ptr r = Some (ptr, s\<lparr>mem := m3\<rparr>)"
    using nz pb acq par sp(4) r(2) by (simp add: krealloc_def Let_def sizeof_pebble_def shrink_pebble_def m2_def [symmetric] split_beta
      release_at_def release_spinlock_def m3_def ptr_def)
  moreover have "keeps (b + 64) (xs @ (False, n) # ys) (mem s) m3"
  proof -
    have k1: "keeps (b + 64) (xs @ (True, n) # ys) (mem s) m1" using l1(2) by simp
    have k3: "keeps (b + 64) ?bs m2 m3" using l3(2) by simp
    have "keeps (b + 64) (xs @ (False, n) # ys) (mem s) m1" using k1 by (auto simp: keeps_def)
    moreover have "keeps (b + 64) (xs @ (False, n) # ys) m2 m3" using k3 by (auto simp: keeps_def algebra_simps)
    ultimately show ?thesis using u(2) keeps_trans by blast
  qed
  moreover have "m3 x = mem s x" if "unat (x - ptr) < unat r" for x
  proof -
    have "m1 x = mem s x" using keeps_block [of "b + 64" "xs @ (True, n) # ys" "mem s" m1 ptr n "x - ptr"] l1(2) that r(2)
      by (auto simp: ptr_def word_le_nat_alt)
    moreover have "m3 x = m2 x" using keeps_block [of "b + 64" ?bs m2 m3 ptr r "x - ptr"] l3(2) that by (auto simp: ptr_def)
    ultimately show ?thesis using u(4) [of x] that by (simp add: ptr_def)
  qed
  moreover have "load32 m3 ?l = 0" by (simp add: m3_def mem_simps)
  ultimately show ?thesis using l3(1) by (intro exI [of _ "s\<lparr>mem := m3\<rparr>"]) simp
qed

section \<open>Properties\<close>

text \<open>A heap of one bucket above the small machine of the virtual memory manager, its block in use or not.\<close>

definition small_heap :: "bool \<Rightarrow> machine" where
  "small_heap u = small_vmm\<lparr>mem := store32 (fresh_bucket (mem small_vmm) 0x800000 0 17 69508) 0x800044 (if u then 1 else 0),
     KHEAPSTART := 0x800000, K_HEAP_END := 0x811000\<rparr>"

lemma small_heap_ok:
  "kernel_heap 9 (small_heap u) small_frames [(0x800000, [(u, 69508)])]"
  "off_vmm 9 (small_heap u) small_frames 0x811000 69632" "K_HEAP_END (small_heap u) = 0x811000"
  "\<forall>t\<in>set (vmm_pages (small_heap u) small_frames). sep t 4096 0 1" "active_pml4_table (small_heap u) = map_root (small_heap u) 0"
  "vmm_pages (small_heap u) small_frames = [0xffff800000104000, 0xffff800000103000, 0xffff800000102000, 0xffff800000101000, 0xffff800000100000]"
  "vmm_frameAlloc (small_heap u) = 0x5000"
proof -
  let ?s = "small_vmm\<lparr>KHEAPSTART := 0x800000, K_HEAP_END := 0x811000\<rparr>"
  let ?m = "fresh_bucket (mem small_vmm) 0x800000 0 17 69508"
  have v: "vmm_ok 9 ?s small_frames" "\<not> bit (kheap_spinlock ?s) 0"
    using small_vmm_ok vmm_ok_cong(1) [of ?s small_vmm 9 small_frames] by simp_all
  have pages: "vmm_pages ?s small_frames = [0xffff800000104000, 0xffff800000103000, 0xffff800000102000, 0xffff800000101000, 0xffff800000100000]"
    "vmm_frameAlloc ?s = 0x5000"
    using small_rooted_ok(4,5,6) by (simp_all add: small_vmm_def map_root_def)
  have off: "off_vmm 9 ?s small_frames 0x811000 69632" "off_vmm 9 ?s small_frames 0x800000 69632"
    unfolding off_vmm_def pages by (simp_all add: sep_def)
  note rd = fresh_reads [of "mem small_vmm" "0x800000" 0 17 69508, simplified]
  have "load64 ?m 0x800030 = 0" by (simp add: fresh_bucket_def Let_def mem_simps sep_def)
  then have "bucket_ok (mem (small_heap u)) 0 0 (0x800000, [(u, 69508)])"
    by (cases u) (simp_all add: small_heap_def bucket_ok_def bucket_rep_def header_ok_def pebble_at_def IS_PEBBLE_FREE_def layout heap_consts
        mem_simps sep_def rd bucket_size_def)
  then have h: "heap_list (small_heap u) [(0x800000, [(u, 69508)])]"
    by (simp add: heap_list_def head_addr_def small_heap_def)
  have regs: "same_regs ?s (small_heap u)" by (simp add: small_heap_def same_regs_def)
  have out: "mem (small_heap u) x = mem ?s x" if "\<not> unat (x - 0x800000) < 69632" for x
    using that fresh_differ [of "0x800000" "mem small_vmm" 0 17 69508] inside_from [of x "0x800000" 68 4 69632]
    by (auto simp: small_heap_def differ_in_def intro!: c32.put_local [THEN trans])
  have "kernel_heap 9 (small_heap u) small_frames [(0x800000, [(u, 69508)])]" "vmm_pages (small_heap u) small_frames = vmm_pages ?s small_frames"
    by (rule kernel_heap_update(1,3) [OF v regs h]; use off out in \<open>simp add: bucket_size_def\<close>)+
  note kh = this
  show "kernel_heap 9 (small_heap u) small_frames [(0x800000, [(u, 69508)])]" by (rule kh(1))
  show "\<forall>t\<in>set (vmm_pages (small_heap u) small_frames). sep t 4096 0 1" unfolding kh(2) pages by (simp add: sep_def)
  show "active_pml4_table (small_heap u) = map_root (small_heap u) 0"
    using small_rooted_ok(3) by (simp add: small_heap_def small_vmm_def active_pml4_table_def map_root_def)
  show "vmm_pages (small_heap u) small_frames = [0xffff800000104000, 0xffff800000103000, 0xffff800000102000, 0xffff800000101000, 0xffff800000100000]"
    unfolding kh(2) pages ..
  have "vmm_frameAlloc (small_heap u) = vmm_frameAlloc ?s" using regs by (simp add: same_regs_def)
  then show "vmm_frameAlloc (small_heap u) = 0x5000" using pages(2) by simp
  have "vmm_frameAlloc (small_heap u) = vmm_frameAlloc ?s" by fact
  then show "off_vmm 9 (small_heap u) small_frames 0x811000 69632"
    using off(1) unfolding off_vmm_def kh(2) by simp
  show "K_HEAP_END (small_heap u) = 0x811000" by (simp add: small_heap_def)
qed

lemma small_heap_requests:
  "kmalloc_covers 69632" "kmalloc_rounded 69632 = 69632" "first_fit 4096 [(True, 69508)] = None" "first_fit 69632 [(False, 69508)] = None"
  "bucket_bytes 69632 = 69632"
  by (simp_all add: kmalloc_covers_def kmalloc_rounded_def request_size_def bucket_bytes_def heap_consts)

text \<open>C7. \<open>kmalloc\<close> over the whole list refines first fit bucket by bucket: the first bucket with a free block that is large enough gives
  it, cut if there is room for another pebble, and zeroed; the other buckets, every block in use, the links of the list, the locks,
  the page tables and the free frames are as before, and every translation is kept.\<close>
theorem kmalloc_first_bucket:
  assumes "kernel_heap cap s fs (pre @ (b, bs) # post)" "\<forall>c\<in>set pre. first_fit (kmalloc_rounded sz) (snd c) = None"
    "first_fit (kmalloc_rounded sz) bs = Some (xs, n, ys)" "kmalloc_covers sz"
  shows "\<exists>s'. kmalloc s sz = Some (end_addr (b + 64) xs + 60, s')
    \<and> kernel_heap cap s' fs (pre @ (b, xs @ cut_block (kmalloc_rounded sz) n @ ys) # post)
    \<and> (\<forall>c\<in>set (pre @ (b, bs) # post). keeps (fst c + 64) (snd c) (mem s) (mem s'))
    \<and> (\<forall>x. unat (x - (end_addr (b + 64) xs + 60)) < unat (if sz < 64 then 64 else sz) \<longrightarrow> mem s' x = 0)
    \<and> (\<forall>v. translate s' v = translate s v)"
  using kmalloc_heap_list [OF assms] by blast

theorem kmalloc_first_bucket_witness:
  "\<exists>s'. kmalloc (small_heap False) 4096 = Some (0x80007C, s')
    \<and> kernel_heap 9 s' small_frames [(0x800000, [(True, 4096), (False, 65352)])]"
  using kmalloc_first_bucket [where pre = "[]" and post = "[]", OF _ _ fresh_heap_request(3,1), of 9 "small_heap False" small_frames "0x800000"]
    small_heap_ok(1) [of False]
  by (auto simp: fresh_heap_request(2,4))

text \<open>C8. Growing the heap, across the allocator, the virtual memory manager, the page tables and the frame list: when no bucket has room
  for a request of at most 64 KiB, \<open>kmalloc\<close> maps a bucket of 17 pages at the end of the heap range, puts it second in the list
  and takes the block from it, zeroed; the invariant of the whole holds again, no block in use has changed, the range has grown by
  the size of the bucket, and the page at its start, and no other, has been given the frame on top of the free list.\<close>
theorem kmalloc_new_bucket:
  assumes "kernel_heap cap s (f # fs) (c # cs)" "3 \<le> length fs" "unat sz \<le> 65536" "kmalloc_covers sz"
    "\<forall>d\<in>set (c # cs). first_fit (kmalloc_rounded sz) (snd d) = None"
    "unat (K_HEAP_END s) + 69632 < 18446744073709551616" "off_vmm cap s (f # fs) (K_HEAP_END s) 69632"
  shows "\<exists>s' fs'. kmalloc s sz = Some (K_HEAP_END s + 124, s')
    \<and> kernel_heap cap s' fs' (c # (K_HEAP_END s, cut_block (kmalloc_rounded sz) 69508) # cs) \<and> K_HEAP_END s' = K_HEAP_END s + 69632
    \<and> (\<forall>d\<in>set (c # cs). keeps (fst d + 64) (snd d) (mem s) (mem s'))
    \<and> (\<forall>x. unat (x - (K_HEAP_END s + 124)) < unat (if sz < 64 then 64 else sz) \<longrightarrow> mem s' x = 0)
    \<and> (\<forall>v. translate s' v = (if page_of v = page_of (K_HEAP_END s) then Some f else translate s v))"
  using kmalloc_grow_small [OF assms] by blast

theorem kmalloc_new_bucket_witness:
  "\<exists>s' fs'. kmalloc (small_heap True) 4096 = Some (0x81107C, s')
    \<and> kernel_heap 9 s' fs' [(0x800000, [(True, 69508)]), (0x811000, [(True, 4096), (False, 65352)])]"
  using kmalloc_new_bucket [OF small_heap_ok(1), of 4096 True] small_heap_ok(2,3) [of True] fresh_heap_request(1,2,4) small_heap_requests(3)
  by auto

text \<open>C24. The bucket mapped for a request is sized by the request alone, without the 124 bytes of its headers, although the sum is
  computed: for every request above 64 KiB that the rounding covers and that no bucket can serve, \<open>kmalloc\<close> maps and links a new
  bucket, finds it too small, and answers null; the bucket stays in the list, with all of it free.\<close>
theorem kmalloc_large_null:
  assumes "kernel_heap cap s (f # fs) (c # cs)" "3 \<le> length fs" "65536 < unat sz" "unat sz \<le> 16777216" "kmalloc_covers sz"
    "\<forall>d\<in>set (c # cs). first_fit (kmalloc_rounded sz) (snd d) = None"
    "unat (K_HEAP_END s) + unat (bucket_bytes sz) < 18446744073709551616"
    "off_vmm cap s (f # fs) (K_HEAP_END s) (unat (bucket_bytes sz))"
  shows "\<exists>s' fs'. kmalloc s sz = Some (0, s') \<and> kernel_heap cap s' fs' (c # (K_HEAP_END s, [(False, bucket_bytes sz - 124)]) # cs)
    \<and> K_HEAP_END s' = K_HEAP_END s + bucket_bytes sz \<and> (\<forall>d\<in>set (c # cs). keeps (fst d + 64) (snd d) (mem s) (mem s'))"
  using kmalloc_grow_no_fit [OF assms(1,2,4,6-8) rounded_large [OF assms(3-5)]] by blast

theorem kmalloc_large_null_witness:
  "\<exists>s' fs'. kmalloc (small_heap False) 69632 = Some (0, s')
    \<and> kernel_heap 9 s' fs' [(0x800000, [(False, 69508)]), (0x811000, [(False, 69508)])] \<and> K_HEAP_END s' = 0x822000"
  using kmalloc_large_null [OF small_heap_ok(1), of 69632 False] small_heap_ok(2,3) [of False] small_heap_requests by auto

text \<open>\<open>kfree\<close> anywhere in the list: when the bucket is the first one or still has a block in use, the block is joined with its free
  neighbours; all other blocks in use, the other buckets, the page tables and the translations are as before.\<close>
theorem kfree_in_list:
  assumes "kernel_heap cap s fs (pre @ (b, xs @ (u, n) # ys) # post)" "pre = [] \<or> length (free_block xs n ys) \<noteq> 1"
  shows "\<exists>s'. kfree s (end_addr (b + 64) xs + 60) = Some s' \<and> kernel_heap cap s' fs (pre @ (b, free_block xs n ys) # post)
    \<and> (\<forall>c\<in>set (pre @ (b, xs @ (False, n) # ys) # post). keeps (fst c + 64) (snd c) (mem s) (mem s'))
    \<and> (\<forall>v. translate s' v = translate s v)"
  using kfree_heap_list [OF assms] by blast

theorem kfree_in_list_witness:
  "\<exists>s'. kfree (small_heap True) 0x80007C = Some s' \<and> kernel_heap 9 s' small_frames [(0x800000, [(False, 69508)])]"
  using kfree_in_list [of 9 "small_heap True" small_frames "[]" "0x800000" "[]" True 69508 "[]" "[]"] small_heap_ok(1) [of True]
  by (auto simp: free_block_def melt_def neighbour_free_def)

text \<open>Allocating and freeing again gives the same buckets with the same blocks, when the block that first fit took from the first
  bucket has no free neighbour: nothing is lost to fragmentation, and the memory manager and the other buckets are undisturbed.\<close>
theorem kernel_heap_round_trip:
  assumes "kernel_heap cap s fs ((b, bs) # post)" "kmalloc_covers sz" "first_fit (kmalloc_rounded sz) bs = Some (xs, n, ys)"
    "\<not> neighbour_free xs" "ys = [] \<or> fst (hd ys)"
  shows "\<exists>s1 s2. kmalloc s sz = Some (end_addr (b + 64) xs + 60, s1) \<and> kfree s1 (end_addr (b + 64) xs + 60) = Some s2
    \<and> kernel_heap cap s2 fs ((b, bs) # post)"
  using assms by (rule lheap.alloc_free)

theorem kernel_heap_round_trip_witness:
  "\<exists>s1 s2. kmalloc (small_heap False) 4096 = Some (0x80007C, s1) \<and> kfree s1 0x80007C = Some s2
    \<and> kernel_heap 9 s2 small_frames [(0x800000, [(False, 69508)])]"
  using kernel_heap_round_trip [OF small_heap_ok(1) [of False] fresh_heap_request(1,3)] by (simp add: neighbour_free_def)

text \<open>C9. Giving a bucket back, across the allocator, the virtual memory manager and the page tables: when \<open>kfree\<close> empties a bucket that is not
  the first, its neighbours in the list are joined and it is unmapped; but of its pages only the first loses its translation, its
  frame does not go back to the free list, and the heap range does not shrink. No block in use elsewhere changes.\<close>
theorem kfree_unmaps_bucket:
  assumes "kernel_heap cap s fs (pre @ d # (b, xs @ (u, n) # ys) # post)" "length (free_block xs n ys) = 1"
    "64 + extent (xs @ (u, n) # ys) \<le> 16777216"
    "null_free (mem s) (PHYSICAL_ADDRESS_OFFSET s) 4 (map_root s 0)" "active_pml4_table s = map_root s 0"
  shows "\<exists>s'. kfree s (end_addr (b + 64) xs + 60) = Some s' \<and> kernel_heap cap s' fs (pre @ d # post) \<and> K_HEAP_END s' = K_HEAP_END s
    \<and> (\<forall>c\<in>set (pre @ d # post). keeps (fst c + 64) (snd c) (mem s) (mem s'))
    \<and> (\<forall>v. translate s' v = (if page_of v = page_of b \<and> translate s v \<noteq> Some 0 then None else translate s v))"
  using kfree_heap_unmap [OF assms] by blast

text \<open>A second bucket, with its block in use, linked behind the first.\<close>

definition small_second :: memory where
  "small_second = store32 (fresh_bucket (mem (small_heap True)) 0x811000 0 17 69508) 0x811044 1"

definition small_pair :: machine where
  "small_pair = (small_heap True)\<lparr>mem := the (insert_bucket small_second 0x811000 0x800000), K_HEAP_END := 0x822000\<rparr>"

lemma small_second_ok:
  "bucket_ok small_second 0 0 (0x811000, [(True, 69508)])" "chain small_second 0 [(0x800000, [(True, 69508)])]"
  "\<not> unat (x - 0x811000) < 69632 \<Longrightarrow> small_second x = mem (small_heap True) x"
proof -
  note rd = fresh_reads [of "mem (small_heap True)" "0x811000" 0 17 69508, simplified]
  show "bucket_ok small_second 0 0 (0x811000, [(True, 69508)])"
    by (simp add: small_second_def bucket_ok_def bucket_rep_def header_ok_def pebble_at_def IS_PEBBLE_FREE_def layout heap_consts
        mem_simps sep_def rd bucket_size_def)
  show out: "\<not> unat (x - 0x811000) < 69632 \<Longrightarrow> small_second x = mem (small_heap True) x" for x
    using fresh_differ [of "0x811000" "mem (small_heap True)" 0 17 69508] inside_from [of x "0x811000" 68 4 69632]
    by (auto simp: small_second_def differ_in_def intro!: c32.put_local [THEN trans])
  have "sep 0x800000 69632 (0x811000 :: u64) 69632" by (simp add: sep_def)
  then have "same_bytes 0x800000 69632 (mem (small_heap True)) small_second"
    using sep_apart out by (simp add: same_bytes_def)
  then show "chain small_second 0 [(0x800000, [(True, 69508)])]"
    using small_heap_ok(1) [of True] chain_same [of "[(0x800000, [(True, 69508)])]" "mem (small_heap True)" small_second 0]
    by (simp add: kernel_heap_def heap_list_def bucket_size_def)
qed

lemma small_pair_ok:
  "kernel_heap 9 small_pair small_frames [(0x800000, [(True, 69508)]), (0x811000, [(True, 69508)])]"
  "null_free (mem small_pair) (PHYSICAL_ADDRESS_OFFSET small_pair) 4 (map_root small_pair 0)" "active_pml4_table small_pair = map_root small_pair 0"
proof -
  let ?cs = "[(0x800000, [(True, 69508)]), (0x811000, [(True, 69508)])] :: bucket list"
  let ?s = "(small_heap True)\<lparr>K_HEAP_END := 0x822000\<rparr>"
  have ap: "pairwise apart (set ?cs)" "distinct ?cs"
    by (simp_all add: pairwise_insert apart_def bucket_size_def sep_def)
  obtain m' where m': "insert_bucket small_second 0x811000 0x800000 = Some m'" "chain m' 0 ?cs"
      "\<forall>x. (\<forall>c\<in>set ?cs. \<not> unat (x - fst c) < bucket_size c) \<longrightarrow> m' x = small_second x"
    using insert_chain [OF small_second_ok(2,1)] ap by auto
  have mp: "mem small_pair = m'" by (simp add: small_pair_def m'(1))
  have regs: "same_regs ?s small_pair" by (simp add: same_regs_def small_pair_def)
  have v: "vmm_ok 9 ?s small_frames" "\<not> bit (kheap_spinlock ?s) 0"
    using small_heap_ok(1) [of True] vmm_ok_cong(1) [of ?s "small_heap True"] by (simp_all add: kernel_heap_def)
  have h: "heap_list small_pair ?cs"
    using m'(2) ap by (simp add: heap_list_def mp head_addr_def) (simp add: small_pair_def small_heap_def)
  have mr: "map_root ?s 0 = map_root (small_heap True) 0" by (simp add: map_root_def)
  have low: "unat (fst c) + bucket_size c \<le> unat (K_HEAP_END ?s) \<and> off_vmm 9 ?s small_frames (fst c) (bucket_size c)" if "c \<in> set ?cs" for c
    using that small_heap_ok(1,2) [of True] by (auto simp: kernel_heap_def bucket_size_def off_vmm_def mr)
  have out: "mem small_pair x = mem ?s x" if "\<forall>c\<in>set ?cs. \<not> unat (x - fst c) < bucket_size c" for x
    using that m'(3) small_second_ok(3) [of x] by (simp add: mp bucket_size_def)
  show "kernel_heap 9 small_pair small_frames ?cs" by (rule kernel_heap_update(1) [OF v regs h low out])
  have vp: "vmm_pages small_pair small_frames = vmm_pages ?s small_frames" by (rule kernel_heap_update(3) [OF v regs h low out])
  have "vmm_pages ?s small_frames = vmm_pages (small_heap True) small_frames" by (simp add: mr)
  then have "\<forall>t\<in>set (vmm_pages small_pair small_frames). sep t 4096 0 1"
    using small_heap_ok(4) [of True] unfolding vp by simp
  then show "null_free (mem small_pair) (PHYSICAL_ADDRESS_OFFSET small_pair) 4 (map_root small_pair 0)" by (simp add: null_free_def)
  show "active_pml4_table small_pair = map_root small_pair 0"
    using small_heap_ok(5) [of True] by (simp add: small_pair_def active_pml4_table_def map_root_def)
qed

theorem kfree_unmaps_bucket_witness:
  "\<exists>s'. kfree small_pair 0x81107C = Some s' \<and> kernel_heap 9 s' small_frames [(0x800000, [(True, 69508)])] \<and> K_HEAP_END s' = 0x822000"
  using kfree_unmaps_bucket [of 9 small_pair small_frames "[]" "(0x800000, [(True, 69508)])" "0x811000" "[]" True 69508 "[]" "[]"] small_pair_ok
  by (auto simp: free_block_def melt_def neighbour_free_def small_pair_def)

text \<open>Growing a block in the first bucket, for a size the rounding covers: \<open>krealloc\<close> takes a new block by first fit, copies every byte of the old
  one to its start, although the copy runs on past the end of the old block, and frees the old one, which is joined with
  its free neighbours; the invariant of the whole heap holds again.\<close>
theorem krealloc_grows:
  assumes "kernel_heap cap s fs ((b, bs) # post)" "bs = us @ (True, k) # vs" "k < sz" "kmalloc_covers sz"
    "first_fit (kmalloc_rounded sz) bs = Some (xs, n, ys)"
  shows "\<exists>s' us' vs'. krealloc s (end_addr (b + 64) us + 60) sz = Some (end_addr (b + 64) xs + 60, s')
    \<and> xs @ cut_block (kmalloc_rounded sz) n @ ys = us' @ (True, k) # vs' \<and> end_addr (b + 64) us' = end_addr (b + 64) us
    \<and> kernel_heap cap s' fs ((b, free_block us' k vs') # post)
    \<and> (\<forall>i. i < k \<longrightarrow> mem s' (end_addr (b + 64) xs + 60 + i) = mem s (end_addr (b + 64) us + 60 + i))"
  using krealloc_heap [OF assms] by auto

theorem krealloc_grows_witness:
  "\<exists>s s'. kmalloc (small_heap False) 4096 = Some (0x80007C, s) \<and> krealloc s 0x80007C 8192 = Some (0x8010B8, s')
    \<and> kernel_heap 9 s' small_frames [(0x800000, [(False, 4096), (True, 8192), (False, 57100)])]
    \<and> mem s' 0x8010BF = mem s 0x800083"
proof -
  obtain s where s: "kmalloc (small_heap False) 4096 = Some (0x80007C, s)"
      "kernel_heap 9 s small_frames [(0x800000, [(True, 4096), (False, 65352)])]"
    using kmalloc_heap_list [where pre = "[]" and post = "[]", OF _ _ fresh_heap_request(3,1), of 9 "small_heap False" small_frames "0x800000"]
      small_heap_ok(1) [of False] by (auto simp: fresh_heap_request(2,4))
  have r: "kmalloc_covers 8192" "kmalloc_rounded 8192 = 8192" "cut_block 8192 65352 = [(True, 8192), (False, 57100)]"
    by (simp_all add: kmalloc_covers_def kmalloc_rounded_def request_size_def cut_block_def SPLIT_PEBBLE_def heap_consts)
  obtain s' us' vs' where k: "krealloc s 0x80007C 8192 = Some (0x8010B8, s')" "[(True, 4096), (True, 8192), (False, 57100)] = us' @ (True, 4096) # vs'"
      "kernel_heap 9 s' small_frames [(0x800000, free_block us' 4096 vs')]" "\<forall>i. i < 4096 \<longrightarrow> mem s' (0x8010B8 + i) = mem s (0x80007C + i)"
    using krealloc_grows [OF s(2), of "[]" 4096 "[(False, 65352)]" 8192 "[(True, 4096)]" 65352 "[]"] r by auto
  then have "us' = []" "vs' = [(True, 8192), (False, 57100)]" by (auto simp: Cons_eq_append_conv)
  then show ?thesis
    using s(1) k(1,3) k(4) [rule_format, of 7] by (auto simp: free_block_def melt_def neighbour_free_def)
qed

text \<open>C23. Shrinking a block to a multiple of 64 with enough to cut off: \<open>krealloc\<close> answers the same pointer, keeps the bytes up to the new
  size and every other block in use, and frees the lock it took; but what it cuts off is not freed. \<open>split_pebble\<close> copies the
  header, so that the rest becomes a block in use that nobody holds a pointer to, and is never joined or given out again.\<close>
theorem krealloc_shrink_leaks:
  assumes "bucket_rep (mem s) b (xs @ (True, n) # ys)" "load32 (mem s) (b_spinlock b) = 0"
    "0 < r" "r \<le> n" "r AND 63 = 0" "SPLIT_PEBBLE n r"
  shows "\<exists>s'. krealloc s (end_addr (b + 64) xs + 60) r = Some (end_addr (b + 64) xs + 60, s')
    \<and> bucket_rep (mem s') b (xs @ (True, r) # (True, n - r - 60) # ys) \<and> load32 (mem s') (b_spinlock b) = 0
    \<and> keeps (b + 64) (xs @ (False, n) # ys) (mem s) (mem s')
    \<and> (\<forall>x. unat (x - (end_addr (b + 64) xs + 60)) < unat r \<longrightarrow> mem s' x = mem s x)"
  by (rule krealloc_shrinks [OF assms])

theorem krealloc_shrink_leaks_witness:
  "\<exists>s'. krealloc (small_heap True) 0x80007C 4096 = Some (0x80007C, s')
    \<and> bucket_rep (mem s') 0x800000 [(True, 4096), (True, 65352)] \<and> mem s' 0x800083 = mem (small_heap True) 0x800083"
proof -
  have ok: "bucket_ok (mem (small_heap True)) 0 0 (0x800000, [(True, 69508)])"
    using small_heap_ok(1) [of True] by (simp add: kernel_heap_def heap_list_def head_addr_def)
  have "SPLIT_PEBBLE 69508 4096" by (simp add: SPLIT_PEBBLE_def heap_consts)
  then show ?thesis
    using krealloc_shrink_leaks [of "small_heap True" "0x800000" "[]" 69508 "[]" 4096] ok by (auto simp: bucket_ok_def)
qed

end
