(* ===== verification/Heaprun.thy ===== *)
theory Heaprun
  imports Buckets
begin

text \<open>
  Runs of the kernel heap: a client of \<^verbatim>\<open>kernel/src/klibc/bucketalloc.c\<close> allocates, frees, enlarges and writes its blocks in any order. The
  step relation calls the operations of \<open>Bucketalloc\<close>; what a client sees of them is compared with an ideal allocator, a
  list of byte strings.
\<close>

section \<open>The contract with a client\<close>

text \<open>
  What a client relies on: the state stands for the blocks in use, with their addresses and sizes, as a multiset, and for the number of requests
  that were refused so far. A request that is \<open>ready\<close> returns: either null, or a new zeroed block that is large enough. No operation touches the other
  blocks in use, and no two of them overlap.
\<close>

locale live_heap =
  fixes ok :: "'s \<Rightarrow> nat \<Rightarrow> (u64 \<times> u64) multiset \<Rightarrow> bool"
    and ready :: "'s \<Rightarrow> u64 \<Rightarrow> bool"
    and malloc :: "'s \<Rightarrow> u64 \<Rightarrow> (u64 \<times> 's) option"
    and free :: "'s \<Rightarrow> u64 \<Rightarrow> 's option"
    and byte :: "'s \<Rightarrow> u64 \<Rightarrow> u8"
    and poke :: "'s \<Rightarrow> u64 \<Rightarrow> u8 \<Rightarrow> 's"
  assumes malloc_ok: "ok s r M \<Longrightarrow> ready s sz \<Longrightarrow> \<exists>p s'. malloc s sz = Some (p, s')
      \<and> (\<forall>(a, k)\<in>#M. \<forall>x. unat (x - a) < unat k \<longrightarrow> byte s' x = byte s x)
      \<and> (if p = 0 then 65536 < unat sz \<and> ok s' (Suc r) M
         else (\<exists>n. unat sz \<le> unat n \<and> ok s' r (add_mset (p, n) M)) \<and> (\<forall>x. unat (x - p) < unat sz \<longrightarrow> byte s' x = 0))"
    and free_ok: "ok s r (add_mset (p, n) M) \<Longrightarrow> \<exists>s'. free s p = Some s' \<and> ok s' r M
      \<and> (\<forall>(a, k)\<in>#M. \<forall>x. unat (x - a) < unat k \<longrightarrow> byte s' x = byte s x)"
    and poke_ok: "ok s r (add_mset (p, n) M) \<Longrightarrow> unat (a - p) < unat n \<Longrightarrow> ok (poke s a v) r (add_mset (p, n) M)"
    and byte_poke: "byte (poke s a v) = (byte s)(a := v)"
    and ok_apart: "ok s r (add_mset (p, n) (add_mset (a, k) M)) \<Longrightarrow> unat (x - a) < unat k \<Longrightarrow> \<not> unat (x - p) < unat n"

text \<open>A list without its entry \<open>i\<close>.\<close>

definition forget :: "nat \<Rightarrow> 'a list \<Rightarrow> 'a list" where
  "forget i xs = take i xs @ drop (Suc i) xs"

lemma mset_forget: "i < length xs \<Longrightarrow> mset xs = add_mset (xs ! i) (mset (forget i xs))"
  using id_take_nth_drop [of i xs] by (metis forget_def mset_append mset.simps(2) union_mset_add_mset_right)

lemma length_forget: "i < length xs \<Longrightarrow> length (forget i xs) = length xs - 1"
  by (simp add: forget_def)

lemma nth_forget: "i < length xs \<Longrightarrow> j < length xs - 1 \<Longrightarrow> forget i xs ! j = xs ! (if j < i then j else Suc j)"
  by (simp add: forget_def nth_append min_def)

text \<open>
  The blocks \<open>us\<close> in use hold what the client has: for each pointer \<open>(p, sz)\<close> of the client the block at \<open>p\<close>, which is at least as
  large as what was asked for, with the client's bytes.
\<close>

definition block_holds :: "memory \<Rightarrow> u64 \<times> u64 \<Rightarrow> u64 \<times> u64 \<Rightarrow> u8 list \<Rightarrow> bool" where
  "block_holds m u l bs \<longleftrightarrow> fst u = fst l \<and> unat (snd l) \<le> unat (snd u) \<and> length bs = unat (snd l)
     \<and> (\<forall>j<length bs. m (fst l + of_nat j) = bs ! j)"

definition blocks_hold :: "memory \<Rightarrow> (u64 \<times> u64) list \<Rightarrow> (u64 \<times> u64) list \<Rightarrow> u8 list list \<Rightarrow> bool" where
  "blocks_hold m us L bss \<longleftrightarrow> length us = length L \<and> length bss = length L \<and> (\<forall>i<length L. block_holds m (us ! i) (L ! i) (bss ! i))"

definition stands_for :: "(nat \<Rightarrow> (u64 \<times> u64) multiset \<Rightarrow> bool) \<Rightarrow> memory \<Rightarrow> nat \<Rightarrow> (u64 \<times> u64) list \<Rightarrow> u8 list list \<Rightarrow> bool" where
  "stands_for P m r L bss \<longleftrightarrow> (\<exists>us. P r (mset us) \<and> blocks_hold m us L bss)"

lemma unat_index: "j < unat (k :: u64) \<Longrightarrow> unat ((p :: u64) + of_nat j - p) = j"
  using less_trans [OF _ unat_lt_64 [of k], of j] by (simp add: unat_of_nat_64)

lemma offset_eq_iff: "i < unat (k :: u64) \<Longrightarrow> j < unat k \<Longrightarrow> p + of_nat i = p + (of_nat j :: u64) \<longleftrightarrow> i = j"
  by (metis unat_index)

lemma block_holds_kept:
  assumes "block_holds m u l bs" "\<And>x. unat (x - fst u) < unat (snd u) \<Longrightarrow> m' x = m x"
  shows "block_holds m' u l bs"
proof -
  have "m' (fst l + of_nat j) = m (fst l + of_nat j)" if "j < length bs" for j
    using assms(1) that unat_index [of j "snd u" "fst u"] by (intro assms(2)) (auto simp: block_holds_def)
  then show ?thesis using assms(1) by (simp add: block_holds_def)
qed

lemma blocks_hold_kept:
  assumes h: "blocks_hold m us L bss" and k: "\<forall>(a, k)\<in>#mset us. \<forall>x. unat (x - a) < unat k \<longrightarrow> m' x = m x"
  shows "blocks_hold m' us L bss"
proof -
  have "block_holds m' (us ! i) (L ! i) (bss ! i)" if i: "i < length L" for i
  proof (rule block_holds_kept [of m])
    show "block_holds m (us ! i) (L ! i) (bss ! i)" using h i by (simp add: blocks_hold_def)
    have "us ! i \<in> set us" using h i by (simp add: blocks_hold_def)
    then show "m' x = m x" if "unat (x - fst (us ! i)) < unat (snd (us ! i))" for x using k that by fastforce
  qed
  then show ?thesis using h by (simp add: blocks_hold_def)
qed

lemma blocks_hold_snoc:
  assumes h: "blocks_hold m us L bss" and e: "block_holds m u l bs"
  shows "blocks_hold m (us @ [u]) (L @ [l]) (bss @ [bs])"
  using h e by (auto simp: blocks_hold_def nth_append less_Suc_eq)

lemma blocks_hold_forget:
  assumes h: "blocks_hold m us L bss" and i: "i < length L"
  shows "blocks_hold m (forget i us) (forget i L) (forget i bss)"
  using h i by (auto simp: blocks_hold_def length_forget nth_forget)

text \<open>Each operation of the client, under the contract.\<close>

context live_heap
begin

lemma alloc_stands:
  assumes sf: "stands_for (ok s) (byte s) r L bss" and rd: "ready s sz"
  shows "\<exists>p s'. malloc s sz = Some (p, s') \<and> (if p = 0 then 65536 < unat sz \<and> stands_for (ok s') (byte s') (Suc r) L bss
    else stands_for (ok s') (byte s') r (L @ [(p, sz)]) (bss @ [replicate (unat sz) 0]))"
proof -
  obtain us where us: "ok s r (mset us)" "blocks_hold (byte s) us L bss" using sf by (auto simp: stands_for_def)
  obtain p s' where m: "malloc s sz = Some (p, s')" "\<forall>(a, k)\<in>#mset us. \<forall>x. unat (x - a) < unat k \<longrightarrow> byte s' x = byte s x"
    and c: "if p = 0 then 65536 < unat sz \<and> ok s' (Suc r) (mset us)
      else (\<exists>n. unat sz \<le> unat n \<and> ok s' r (add_mset (p, n) (mset us))) \<and> (\<forall>x. unat (x - p) < unat sz \<longrightarrow> byte s' x = 0)"
    using malloc_ok [OF us(1) rd] by blast
  note h = blocks_hold_kept [OF us(2) m(2)]
  show ?thesis
  proof (cases "p = 0")
    case True
    then show ?thesis using m(1) c h by (auto simp: stands_for_def)
  next
    case False
    then obtain n where n: "unat sz \<le> unat n" "ok s' r (add_mset (p, n) (mset us))" "\<forall>x. unat (x - p) < unat sz \<longrightarrow> byte s' x = 0"
      using c by auto
    have "block_holds (byte s') (p, n) (p, sz) (replicate (unat sz) 0)" using n(1,3) unat_index [of _ sz p] by (simp add: block_holds_def)
    from blocks_hold_snoc [OF h this] show ?thesis using False m(1) n(2) by (auto simp: stands_for_def intro!: exI [of _ "us @ [(p, n)]"])
  qed
qed

lemma free_stands:
  assumes sf: "stands_for (ok s) (byte s) r L bss" and i: "i < length L"
  shows "\<exists>s'. free s (fst (L ! i)) = Some s' \<and> stands_for (ok s') (byte s') r (forget i L) (forget i bss)"
proof -
  obtain us where us: "ok s r (mset us)" "blocks_hold (byte s) us L bss" using sf by (auto simp: stands_for_def)
  then have u: "fst (us ! i) = fst (L ! i)" "i < length us" using i by (simp_all add: blocks_hold_def block_holds_def)
  have "ok s r (add_mset (us ! i) (mset (forget i us)))" using us(1) mset_forget [OF u(2)] by simp
  then obtain s' where "free s (fst (us ! i)) = Some s'" "ok s' r (mset (forget i us))"
      "\<forall>(a, k)\<in>#mset (forget i us). \<forall>x. unat (x - a) < unat k \<longrightarrow> byte s' x = byte s x"
    using free_ok [of s r "fst (us ! i)" "snd (us ! i)" "mset (forget i us)"] by auto
  then show ?thesis using blocks_hold_kept [OF blocks_hold_forget [OF us(2) i]] u(1) by (auto simp: stands_for_def)
qed

lemma blocks_apart_at:
  assumes "ok s r (mset us)" "i < length us" "j < length us" "i \<noteq> j" "unat (x - fst (us ! j)) < unat (snd (us ! j))"
  shows "\<not> unat (x - fst (us ! i)) < unat (snd (us ! i))"
proof -
  define k where "k = (if j < i then j else j - 1)"
  have k: "k < length (forget i us)" "forget i us ! k = us ! j"
    using assms(2-4) by (auto simp: k_def length_forget nth_forget)
  have "ok s r (add_mset (us ! i) (add_mset (us ! j) (mset (forget k (forget i us)))))"
    using assms(1) mset_forget [OF assms(2)] mset_forget [OF k(1)] k(2) by simp
  then show ?thesis
    using ok_apart [of s r "fst (us ! i)" "snd (us ! i)" "fst (us ! j)" "snd (us ! j)"] assms(5) by simp
qed

lemma write_stands:
  assumes sf: "stands_for (ok s) (byte s) r L bss" and i: "i < length L" and j: "j < unat (snd (L ! i))"
  shows "stands_for (ok (poke s (fst (L ! i) + of_nat j) v)) (byte (poke s (fst (L ! i) + of_nat j) v)) r L (bss[i := (bss ! i)[j := v]])"
proof -
  obtain us where us: "ok s r (mset us)" "blocks_hold (byte s) us L bss" using sf by (auto simp: stands_for_def)
  let ?a = "fst (L ! i) + of_nat j"
  have e: "block_holds (byte s) (us ! k) (L ! k) (bss ! k)" if "k < length L" for k using us(2) that by (simp add: blocks_hold_def)
  have len: "length us = length L" "length bss = length L" using us(2) by (simp_all add: blocks_hold_def)
  have in_i: "unat (?a - fst (us ! i)) < unat (snd (us ! i))"
    using e [OF i] j unat_index [of j "snd (us ! i)" "fst (L ! i)"] by (simp add: block_holds_def)
  have "ok (poke s ?a v) r (mset us)"
    using us(1) poke_ok [of s r "fst (us ! i)" "snd (us ! i)"] in_i mset_forget [of i us] i len(1) by simp
  moreover have "block_holds (byte (poke s ?a v)) (us ! k) (L ! k) (bss[i := (bss ! i)[j := v]] ! k)" if k: "k < length L" for k
  proof (cases "k = i")
    case True
    then show ?thesis
      using e [OF i] i len j offset_eq_iff [of _ "snd (L ! i)" j "fst (L ! i)"] by (auto simp: block_holds_def byte_poke nth_list_update)
  next
    case False
    then have "\<not> unat (?a - fst (us ! k)) < unat (snd (us ! k))"
      using blocks_apart_at [OF us(1), of k i ?a] in_i i k len(1) by simp
    then have "byte (poke s ?a v) x = byte s x" if "unat (x - fst (us ! k)) < unat (snd (us ! k))" for x
      using that by (auto simp: byte_poke)
    from block_holds_kept [OF e [OF k] this] show ?thesis using False by simp
  qed
  ultimately show ?thesis using len by (auto simp: stands_for_def blocks_hold_def)
qed

lemma stands_apart:
  assumes sf: "stands_for (ok s) (byte s) r L bss" and i: "i < length L" "j < length L" "i \<noteq> j" and x: "unat (x - fst (L ! j)) < unat (snd (L ! j))"
  shows "\<not> unat (x - fst (L ! i)) < unat (snd (L ! i))"
proof -
  obtain us where us: "ok s r (mset us)" "blocks_hold (byte s) us L bss" using sf by (auto simp: stands_for_def)
  then have "length us = length L" "fst (us ! k) = fst (L ! k) \<and> unat (snd (L ! k)) \<le> unat (snd (us ! k))" if "k < length L" for k
    using that by (simp_all add: blocks_hold_def block_holds_def)
  then show ?thesis using blocks_apart_at [OF us(1), of i j x] i x by fastforce
qed

end

text \<open>
  A heap that can also enlarge a block: the new block begins with the bytes of the old one, and what follows them is not specified. When
  there is no new block the answer is null, and the old one is gone all the same.
\<close>

locale resizing_heap = live_heap ok ready malloc free byte poke
  for ok :: "'s \<Rightarrow> nat \<Rightarrow> (u64 \<times> u64) multiset \<Rightarrow> bool" and ready malloc free byte poke +
  fixes size_of :: "'s \<Rightarrow> u64 \<Rightarrow> u64"
    and resize :: "'s \<Rightarrow> u64 \<Rightarrow> u64 \<Rightarrow> (u64 \<times> 's) option"
  assumes size_ok: "ok s r (add_mset (p, n) M) \<Longrightarrow> size_of s p = n"
    and resize_ok: "ok s r (add_mset (p, n) M) \<Longrightarrow> ready s sz \<Longrightarrow> n < sz \<Longrightarrow> \<exists>q s'. resize s p sz = Some (q, s')
      \<and> (\<forall>(a, k)\<in>#M. \<forall>x. unat (x - a) < unat k \<longrightarrow> byte s' x = byte s x)
      \<and> (if q = 0 then 65536 < unat sz \<and> ok s' (Suc r) M
         else (\<exists>k. unat sz \<le> unat k \<and> ok s' r (add_mset (q, k) M)) \<and> (\<forall>j<unat n. byte s' (q + of_nat j) = byte s (p + of_nat j)))"
begin

lemma grow_stands:
  assumes sf: "stands_for (ok s) (byte s) r L bss" and i: "i < length L" and rd: "ready s sz" and big: "size_of s (fst (L ! i)) < sz"
  shows "\<exists>q s'. resize s (fst (L ! i)) sz = Some (q, s')
    \<and> (if q = 0 then 65536 < unat sz \<and> stands_for (ok s') (byte s') (Suc r) (forget i L) (forget i bss)
       else \<exists>rest. length (bss ! i @ rest) = unat sz \<and> stands_for (ok s') (byte s') r (forget i L @ [(q, sz)]) (forget i bss @ [bss ! i @ rest]))"
proof -
  obtain us where us: "ok s r (mset us)" "blocks_hold (byte s) us L bss" using sf by (auto simp: stands_for_def)
  obtain p n where u: "us ! i = (p, n)" by fastforce
  have e: "fst (L ! i) = p" "unat (snd (L ! i)) \<le> unat n" "length (bss ! i) = unat (snd (L ! i))"
      "\<And>j. j < length (bss ! i) \<Longrightarrow> byte s (p + of_nat j) = bss ! i ! j" "i < length us"
    using us(2) i u by (auto simp: blocks_hold_def block_holds_def dest: spec [of _ i])
  have o: "ok s r (add_mset (p, n) (mset (forget i us)))" using us(1) mset_forget [OF e(5)] u by simp
  then have lt: "n < sz" using size_ok big e(1) by simp
  obtain q s' where q: "resize s p sz = Some (q, s')" "\<forall>(a, k)\<in>#mset (forget i us). \<forall>x. unat (x - a) < unat k \<longrightarrow> byte s' x = byte s x"
    and c: "if q = 0 then 65536 < unat sz \<and> ok s' (Suc r) (mset (forget i us))
      else (\<exists>k. unat sz \<le> unat k \<and> ok s' r (add_mset (q, k) (mset (forget i us)))) \<and> (\<forall>j<unat n. byte s' (q + of_nat j) = byte s (p + of_nat j))"
    using resize_ok [OF o rd lt] by blast
  note h = blocks_hold_kept [OF blocks_hold_forget [OF us(2) i] q(2)]
  show ?thesis
  proof (cases "q = 0")
    case True
    then show ?thesis using q(1) c h e(1) by (auto simp: stands_for_def)
  next
    case False
    then obtain k where k: "unat sz \<le> unat k" "ok s' r (add_mset (q, k) (mset (forget i us)))" "\<forall>j<unat n. byte s' (q + of_nat j) = byte s (p + of_nat j)"
      using c by auto
    define rest where "rest = map (\<lambda>j. byte s' (q + of_nat j)) [length (bss ! i)..<unat sz]"
    have len: "length (bss ! i @ rest) = unat sz" using e(2,3) lt by (simp add: rest_def word_less_nat_alt)
    have "byte s' (q + of_nat j) = (bss ! i @ rest) ! j" if "j < unat sz" for j
      using that k(3) e(2,3,4) nth_upt [of "length (bss ! i)" "j - length (bss ! i)" "unat sz"] by (cases "j < length (bss ! i)") (simp_all add: nth_append rest_def not_less)
    then have "block_holds (byte s') (q, k) (q, sz) (bss ! i @ rest)" using k(1) len by (simp add: block_holds_def)
    from blocks_hold_snoc [OF h this] have "stands_for (ok s') (byte s') r (forget i L @ [(q, sz)]) (forget i bss @ [bss ! i @ rest])"
      using k(2) by (auto simp: stands_for_def intro!: exI [of _ "forget i us @ [(q, k)]"])
    then show ?thesis using False q(1) e(1) len by auto
  qed
qed

end

section \<open>The blocks in use\<close>

definition used :: "u64 \<Rightarrow> block list \<Rightarrow> (u64 \<times> u64) list" where
  "used p bs = map snd (filter fst (payloads p bs))"

definition in_use :: "bucket list \<Rightarrow> (u64 \<times> u64) list" where
  "in_use cs = concat (map (\<lambda>c. used (fst c + 64) (snd c)) cs)"

lemma used_simps [simp]:
  "used p [] = []" "used p ((True, n) # bs) = (p + 60, n) # used (p + 60 + n) bs" "used p ((False, n) # bs) = used (p + 60 + n) bs"
  "used p (xs @ ys) = used p xs @ used (end_addr p xs) ys"
  by (simp_all add: used_def)

lemma in_use_simps [simp]:
  "in_use [] = []" "in_use (c # cs) = used (fst c + 64) (snd c) @ in_use cs" "in_use (cs @ ds) = in_use cs @ in_use ds"
  by (simp_all add: in_use_def)

lemma used_block: "(a, n) \<in> set (used p bs) \<Longrightarrow> \<exists>xs ys. bs = xs @ (True, n) # ys \<and> a = end_addr p xs + 60"
proof (induction bs arbitrary: p)
  case (Cons b bs)
  obtain u k where b: "b = (u, k)" by fastforce
  show ?case
  proof (cases "u \<and> a = p + 60 \<and> n = k")
    case True
    then show ?thesis using b by (intro exI [of _ "[]"] exI [of _ bs]) simp
  next
    case False
    then have "(a, n) \<in> set (used (p + 60 + k) bs)" using Cons.prems b by (cases u) auto
    from Cons.IH [OF this] obtain xs ys where "bs = xs @ (True, n) # ys" "a = end_addr (p + 60 + k) xs + 60" by blast
    then show ?thesis using b by (intro exI [of _ "b # xs"] exI [of _ ys]) simp
  qed
qed simp

lemma in_use_block:
  assumes "(a, n) \<in> set (in_use cs)"
  obtains pre b xs ys post where "cs = pre @ (b, xs @ (True, n) # ys) # post" "a = end_addr (b + 64) xs + 60"
proof -
  obtain c where "c \<in> set cs" "(a, n) \<in> set (used (fst c + 64) (snd c))" using assms by (auto simp: in_use_def)
  then show ?thesis using that used_block split_list [of c cs] by (metis prod.collapse)
qed

lemma keeps_used: "keeps p bs m m' \<longleftrightarrow> (\<forall>(a, k)\<in>set (used p bs). \<forall>x. unat (x - a) < unat k \<longrightarrow> m' x = m x)"
  by (fastforce simp: keeps_def used_def)

lemma keeps_in_use:
  "(\<forall>c\<in>set cs. keeps (fst c + 64) (snd c) m m') \<longleftrightarrow> (\<forall>(a, k)\<in>set (in_use cs). \<forall>x. unat (x - a) < unat k \<longrightarrow> m' x = m x)"
  by (auto simp: keeps_used in_use_def)

lemma cut_block_used:
  assumes "r \<le> n"
  shows "used p (cut_block r n) = [(p + 60, snd (hd (cut_block r n)))]" "end_addr p (cut_block r n) = p + 60 + n"
    "r \<le> snd (hd (cut_block r n))"
  using assms by (simp_all add: cut_block_def)

lemma used_melt:
  "used p (fst (melt xs n)) = used p xs" "end_addr p (fst (melt xs n)) + 60 + snd (melt xs n) = end_addr p xs + 60 + n"
proof -
  have "used p (fst (melt xs n)) = used p xs \<and> end_addr p (fst (melt xs n)) + 60 + snd (melt xs n) = end_addr p xs + 60 + n"
  proof (cases "neighbour_free xs")
    case True
    then obtain zs k where "xs = zs @ [(False, k)]" unfolding neighbour_free_def by (metis append_butlast_last_id prod.collapse)
    then show ?thesis using True by (simp add: melt_def algebra_simps)
  qed (simp add: melt_def)
  then show "used p (fst (melt xs n)) = used p xs" "end_addr p (fst (melt xs n)) + 60 + snd (melt xs n) = end_addr p xs + 60 + n" by auto
qed

lemma used_absorb: "used p (absorb n ys) = used (p + 60 + n) ys"
  by (cases "(n, ys)" rule: absorb.cases) (auto simp: algebra_simps)

lemma used_free: "used p (free_block xs n ys) = used p xs @ used (end_addr p xs + 60 + n) ys"
  by (simp add: free_block_def used_melt used_absorb)

section \<open>Joined free blocks\<close>

text \<open>No two free blocks side by side.\<close>

definition packed :: "block list \<Rightarrow> bool" where
  "packed bs \<longleftrightarrow> successively (\<lambda>x y. fst x \<or> fst y) bs"

lemma packed_split:
  "packed (xs @ (u, n) # ys) \<longleftrightarrow> packed xs \<and> packed ys \<and> (u \<or> \<not> neighbour_free xs \<and> (ys = [] \<or> fst (hd ys)))"
  by (auto simp: packed_def successively_append_iff successively_Cons neighbour_free_def)

lemma packed_cut:
  assumes "packed (xs @ (False, n) # ys)"
  shows "packed (xs @ cut_block r n @ ys)"
proof -
  have p: "packed xs" "packed ys" "ys = [] \<or> fst (hd ys)" using assms by (simp_all add: packed_split)
  then have "packed ((False, k) # ys)" for k using packed_split [of "[]" False k ys] by (simp add: packed_def neighbour_free_def)
  then show ?thesis using p(1,2) by (simp add: cut_block_def packed_split [of xs True])
qed

lemma packed_free:
  assumes "packed (xs @ (True, n) # ys)"
  shows "packed (free_block xs n ys)"
proof -
  have xy: "packed xs" "packed ys" using assms by (simp_all add: packed_split)
  have m: "packed (fst (melt xs n)) \<and> \<not> neighbour_free (fst (melt xs n))"
  proof (cases "neighbour_free xs")
    case True
    then obtain zs k where xs: "xs = zs @ [(False, k)]" unfolding neighbour_free_def by (metis append_butlast_last_id prod.collapse)
    then show ?thesis using True xy(1) by (simp add: melt_def packed_split)
  qed (use xy in \<open>simp add: melt_def\<close>)
  obtain k zs where a: "absorb (snd (melt xs n)) ys = (False, k) # zs" "packed zs" "zs = [] \<or> fst (hd zs)"
    using xy(2) by (cases "(snd (melt xs n), ys)" rule: absorb.cases) (auto simp: packed_def successively_Cons)
  then show ?thesis using m by (simp add: free_block_def packed_split)
qed

lemma packed_unused:
  assumes "packed bs" "bs \<noteq> []" "used p bs = []"
  shows "\<exists>n. bs = [(False, n)]"
proof -
  obtain u n zs where bs: "bs = (u, n) # zs" using assms(2) by (cases bs) auto
  then have u: "\<not> u" using assms(3) by (cases u) auto
  have "zs = []"
  proof (cases zs)
    case (Cons z ws)
    obtain v k where "z = (v, k)" by fastforce
    then show ?thesis using assms(1,3) bs u Cons by (cases v) (auto simp: packed_def)
  qed
  then show ?thesis using bs u by simp
qed

section \<open>The state of the heap in a run\<close>

text \<open>
  \<open>arena\<close>: the addresses from the start of the heap up to \<open>lim\<close> are reserved for it, no page table is at address 0, and \<open>cr3\<close> has no flag bits.
  \<open>shape\<close>: free neighbours are joined, the buckets behind the first are not larger than 16 MiB, and at most \<open>r\<close> of them have no block in use.
\<close>

definition arena :: "nat \<Rightarrow> nat \<Rightarrow> machine \<Rightarrow> u64 list \<Rightarrow> bool" where
  "arena cap lim s fs \<longleftrightarrow> off_vmm cap s fs (KHEAPSTART s) (lim - unat (KHEAPSTART s)) \<and> unat (K_HEAP_END s) \<le> lim
     \<and> lim < 18446744073709551616 \<and> (\<forall>t\<in>set (vmm_pages s fs). sep t 4096 0 1) \<and> active_pml4_table s = map_root s 0"

definition idle :: "bucket \<Rightarrow> bool" where
  "idle c \<longleftrightarrow> used (fst c + 64) (snd c) = []"

definition shape :: "nat \<Rightarrow> bucket list \<Rightarrow> bool" where
  "shape r cs \<longleftrightarrow> (\<forall>c\<in>set cs. packed (snd c)) \<and> (\<forall>c\<in>set (tl cs). bucket_size c \<le> 16777216) \<and> length (filter idle (tl cs)) \<le> r"

definition heap_at :: "nat \<Rightarrow> nat \<Rightarrow> nat \<Rightarrow> machine \<Rightarrow> bucket list \<Rightarrow> bool" where
  "heap_at cap lim r s cs \<longleftrightarrow> (\<exists>fs. kernel_heap cap s fs cs \<and> arena cap lim s fs) \<and> shape r cs"

lemma off_vmm_within:
  assumes "vmm_within s fs s' fs'" "off_vmm cap s fs a n"
  shows "off_vmm cap s' fs' a n"
proof -
  have "t \<in> set (vmm_pages s fs)" if "t \<in> set (vmm_pages s' fs')" for t using assms(1) that unfolding vmm_within_def by blast
  moreover have "vmm_frameAlloc s' = vmm_frameAlloc s" using assms(1) by (simp add: vmm_within_def)
  ultimately show ?thesis using assms(2) unfolding off_vmm_def by metis
qed

lemma arena_within:
  assumes "arena cap lim s fs" "vmm_within s fs s' fs'" "unat (K_HEAP_END s') \<le> lim"
  shows "arena cap lim s' fs'"
proof -
  have r: "map_root s' 0 = map_root s 0" "active_pml4_table s' = active_pml4_table s"
    using assms(2) by (simp_all add: vmm_within_def map_root_def active_pml4_table_def)
  have "t \<in> set (vmm_pages s fs)" if "t \<in> set (vmm_pages s' fs')" for t using assms(2) that unfolding vmm_within_def by blast
  moreover have "KHEAPSTART s' = KHEAPSTART s" using assms(2) by (simp add: vmm_within_def)
  ultimately show ?thesis using assms(1,3) r off_vmm_within [OF assms(2)] unfolding arena_def by metis
qed

text \<open>The request of a client: covered by the rounding, below 16 MiB, and either there is room in the list, or four free frames and the
  address space for a new bucket.\<close>

definition has_room :: "machine \<Rightarrow> u64 \<Rightarrow> bool" where
  "has_room s sz \<longleftrightarrow> (case bucket_loop (mem s) (KHEAPSTART s) (kmalloc_rounded sz) PEBBLE_FLAG_IN_USE of None \<Rightarrow> False | Some (a, m) \<Rightarrow> a \<noteq> 0)"

definition backed :: "nat \<Rightarrow> machine \<Rightarrow> u64 \<Rightarrow> bool" where
  "backed lim s sz \<longleftrightarrow> 4 \<le> unat (ffl_numFrames (mem s) (vmm_frameAlloc s)) \<and> unat (K_HEAP_END s) + unat (bucket_bytes sz) \<le> lim"

definition servable :: "nat \<Rightarrow> machine \<Rightarrow> u64 \<Rightarrow> bool" where
  "servable lim s sz \<longleftrightarrow> kmalloc_covers sz \<and> unat sz \<le> 16773120 \<and> (has_room s sz \<or> backed lim s sz)"

lemma heap_start:
  assumes "kernel_heap cap s fs cs"
  obtains c ds where "cs = c # ds" "fst c = KHEAPSTART s" "unat (KHEAPSTART s) + 64 \<le> unat (K_HEAP_END s)" "KHEAPSTART s \<noteq> 0"
proof -
  obtain c ds where c: "cs = c # ds" using assms by (cases cs) (auto simp: kernel_heap_def heap_list_def)
  then have "fst c = KHEAPSTART s" "unat (fst c) + bucket_size c \<le> unat (K_HEAP_END s)" "bucket_ok (mem s) 0 (head_addr ds) c"
    using assms by (auto simp: kernel_heap_def heap_list_def head_addr_def)
  then show ?thesis using that [OF c] bucket_header_bytes(1,2) [of "mem s" 0 "head_addr ds" c] by simp
qed

lemma no_fit_loop:
  assumes kh: "kernel_heap cap s fs cs" and none: "\<forall>c\<in>set cs. first_fit (kmalloc_rounded sz) (snd c) = None"
  shows "\<not> has_room s sz"
proof -
  have "chain (mem s) 0 (cs @ [])" "head_addr cs = KHEAPSTART s" using kh by (auto simp: kernel_heap_def heap_list_def)
  then show ?thesis
    using bucket_loop_search [of "mem s" 0 cs "[]" "kmalloc_rounded sz" PEBBLE_FLAG_IN_USE] none
    by (simp add: has_room_def head_addr_def [of "[]"] bucket_loop.simps [of _ 0])
qed

lemma backed_frames:
  assumes kh: "kernel_heap cap s fs cs" and a: "arena cap lim s fs" and bk: "backed lim s sz" and sz: "unat sz \<le> 16773120"
  obtains f gs where "fs = f # gs" "3 \<le> length gs" "unat (K_HEAP_END s) + unat (bucket_bytes sz) < 18446744073709551616"
    "off_vmm cap s fs (K_HEAP_END s) (unat (bucket_bytes sz))"
proof -
  have fl: "frame_list cap (mem s) (vmm_frameAlloc s) fs" using kh by (simp add: kernel_heap_def vmm_ok_def pt_ok_iff)
  then have "unat (ffl_numFrames (mem s) (vmm_frameAlloc s)) = length fs" by (simp add: frame_list_def unat_of_nat_64)
  then obtain f gs where fs: "fs = f # gs" "3 \<le> length gs" using bk by (cases fs) (auto simp: backed_def)
  let ?d = "K_HEAP_END s - KHEAPSTART s" and ?n = "unat (bucket_bytes sz)"
  have lo: "unat (KHEAPSTART s) \<le> unat (K_HEAP_END s)" by (rule heap_start [OF kh]) simp
  then have u: "unat ?d = unat (K_HEAP_END s) - unat (KHEAPSTART s)" by (simp add: unat_diff_64 word_le_nat_alt)
  have pos: "0 < ?n" using bucket_bytes_bound(1) [of sz] sz by simp
  have in_lim: "unat ?d + ?n \<le> lim - unat (KHEAPSTART s)" using bk u lo unfolding backed_def by linarith
  have "sep t k (K_HEAP_END s) ?n" if "sep t k (KHEAPSTART s) (lim - unat (KHEAPSTART s))" "0 < k" for t k
    using sep_sub_right [OF that(1) le_refl in_lim that(2) pos] by simp
  then have "off_vmm cap s fs (K_HEAP_END s) ?n" using a by (simp add: arena_def off_vmm_def)
  then show ?thesis using that [OF fs] bk a by (simp add: backed_def arena_def)
qed

section \<open>The operations in a run\<close>

lemma shape_replace:
  assumes "shape r (pre @ c # post)" "packed (snd c')" "bucket_size c' = bucket_size c" "idle c' \<Longrightarrow> idle c \<or> pre = []"
  shows "shape r (pre @ c' # post)"
  using assms by (cases pre) (auto simp: shape_def split: if_splits)

lemma heap_block:
  assumes "kernel_heap cap s fs (pre @ (b, xs @ (u, n) # ys) # post)"
  shows "bucket_rep (mem s) b (xs @ (u, n) # ys)" "end_addr (b + 64) xs + 60 \<noteq> 0"
proof -
  obtain q where "bucket_ok (mem s) q (head_addr post) (b, xs @ (u, n) # ys)"
    using assms chain_member [of "mem s" 0 pre _ post] by (auto simp: kernel_heap_def heap_list_def)
  then show rep: "bucket_rep (mem s) b (xs @ (u, n) # ys)" by (simp add: bucket_ok_def)
  have "unat (end_addr (b + 64) xs + 60) = unat (end_addr (b + 64) xs) + 60"
    using bucket_split(3) [OF rep] by (simp add: unat_add_64)
  then show "end_addr (b + 64) xs + 60 \<noteq> 0" by auto
qed

lemma covers_size: "kmalloc_covers sz \<Longrightarrow> kmalloc_rounded sz \<le> j \<Longrightarrow> unat sz \<le> unat j"
  by (auto simp: kmalloc_covers_def word_le_nat_alt word_less_nat_alt split: if_splits)

text \<open>What \<open>kmalloc\<close> promises, and the three ways it keeps it.\<close>

definition kmalloc_post :: "nat \<Rightarrow> nat \<Rightarrow> nat \<Rightarrow> machine \<Rightarrow> bucket list \<Rightarrow> u64 \<Rightarrow> u64 \<Rightarrow> machine \<Rightarrow> bucket list \<Rightarrow> bool" where
  "kmalloc_post cap lim r s cs sz p s' cs' \<longleftrightarrow> kmalloc s sz = Some (p, s')
     \<and> (\<forall>(a, k)\<in>set (in_use cs). \<forall>x. unat (x - a) < unat k \<longrightarrow> mem s' x = mem s x)
     \<and> (if p = 0 then 65536 < unat sz \<and> heap_at cap lim (Suc r) s' cs' \<and> mset (in_use cs') = mset (in_use cs)
        else heap_at cap lim r s' cs' \<and> (\<exists>n. unat sz \<le> unat n \<and> mset (in_use cs') = add_mset (p, n) (mset (in_use cs)))
          \<and> (\<forall>x. unat (x - p) < unat sz \<longrightarrow> mem s' x = 0))"

lemma kmalloc_from_list:
  assumes kh: "kernel_heap cap s fs (pre @ (b, bs) # post)" and a: "arena cap lim s fs" and sh: "shape r (pre @ (b, bs) # post)"
    and none: "\<forall>c\<in>set pre. first_fit (kmalloc_rounded sz) (snd c) = None"
    and fit: "first_fit (kmalloc_rounded sz) bs = Some (xs, n, ys)" and cov: "kmalloc_covers sz"
  shows "\<exists>p s' cs'. kmalloc_post cap lim r s (pre @ (b, bs) # post) sz p s' cs'"
proof -
  let ?r = "kmalloc_rounded sz" and ?p = "end_addr (b + 64) xs + 60"
  define bs' where "bs' = xs @ cut_block ?r n @ ys"
  have bs: "bs = xs @ (False, n) # ys" "?r \<le> n" using first_fit_some [OF fit] by auto
  note hb = heap_block [OF kh [unfolded bs(1)]]
  obtain s' where s': "kmalloc s sz = Some (?p, s')" "kernel_heap cap s' fs (pre @ (b, bs') # post)"
      "\<forall>c\<in>set (pre @ (b, bs) # post). keeps (fst c + 64) (snd c) (mem s) (mem s')"
      "\<forall>x. unat (x - ?p) < unat (if sz < 64 then 64 else sz) \<longrightarrow> mem s' x = 0" "vmm_within s fs s' fs" "K_HEAP_END s' = K_HEAP_END s"
    using kmalloc_heap_list [OF kh none fit cov] unfolding bs'_def by blast
  note j = cut_block_used [OF bs(2)]
  have "extent bs' = extent bs" unfolding bs'_def using cut_block_head [OF hb(1) [folded bs(1)] fit] bs(1) by (metis extent_append)
  moreover have "packed bs'" using sh packed_cut bs(1) by (auto simp: shape_def bs'_def)
  moreover have "\<not> idle (b, bs')" by (simp add: idle_def bs'_def j)
  ultimately have "shape r (pre @ (b, bs') # post)" using shape_replace [OF sh, of "(b, bs')"] by (simp add: bucket_size_def)
  moreover have "arena cap lim s' fs" using arena_within [OF a s'(5)] a s'(6) by (simp add: arena_def)
  ultimately have "heap_at cap lim r s' (pre @ (b, bs') # post)" using s'(2) by (auto simp: heap_at_def)
  moreover have "mset (in_use (pre @ (b, bs') # post)) = add_mset (?p, snd (hd (cut_block ?r n))) (mset (in_use (pre @ (b, bs) # post)))"
    by (simp add: bs'_def bs(1) j)
  moreover have "mem s' x = 0" if "unat (x - ?p) < unat sz" for x
    using s'(4) that by (auto simp: word_less_nat_alt split: if_splits)
  ultimately have "kmalloc_post cap lim r s (pre @ (b, bs) # post) sz ?p s' (pre @ (b, bs') # post)"
    using s'(1) s'(3) [unfolded keeps_in_use] hb(2) covers_size [OF cov j(3)] unfolding kmalloc_post_def by auto
  then show ?thesis by blast
qed

text \<open>The list with a bucket put second.\<close>

lemma grown_heap_at:
  assumes kh: "kernel_heap cap s' fs' (c # d # cs)" and a: "arena cap lim s fs" and w: "vmm_within s fs s' fs'"
    and e: "fst d = K_HEAP_END s" "K_HEAP_END s' = K_HEAP_END s + k" "unat (K_HEAP_END s) + unat k \<le> lim"
    and sh: "shape r (c # cs)" and k: "unat k \<le> 16777216" and d: "packed (snd d)"
  shows "heap_at cap lim (if idle d then Suc r else r) s' (c # d # cs)"
proof -
  have u: "unat (K_HEAP_END s') = unat (K_HEAP_END s) + unat k" using e a by (simp add: unat_add_64 arena_def)
  moreover have "unat (fst d) + bucket_size d \<le> unat (K_HEAP_END s')" using kh by (simp add: kernel_heap_def)
  ultimately have "bucket_size d \<le> 16777216" using e(1) k by simp
  then have "shape (if idle d then Suc r else r) (c # d # cs)" using sh d by (simp add: shape_def)
  moreover have "arena cap lim s' fs'" using arena_within [OF a w] u e(3) by simp
  ultimately show ?thesis using kh by (auto simp: heap_at_def)
qed

lemma kmalloc_from_new:
  assumes kh: "kernel_heap cap s fs cs" and a: "arena cap lim s fs" and sh: "shape r cs"
    and none: "\<forall>c\<in>set cs. first_fit (kmalloc_rounded sz) (snd c) = None" and sv: "servable lim s sz"
  shows "\<exists>p s' cs'. kmalloc_post cap lim r s cs sz p s' cs'"
proof -
  let ?e = "K_HEAP_END s" and ?r = "kmalloc_rounded sz"
  have cov: "kmalloc_covers sz" and sz: "unat sz \<le> 16773120" "unat sz \<le> 16777216" and bk: "backed lim s sz"
    using sv no_fit_loop [OF kh none] by (auto simp: servable_def)
  obtain c ds where cs: "cs = c # ds" by (rule heap_start [OF kh])
  obtain f gs where fs: "fs = f # gs" "3 \<le> length gs" and room: "unat ?e + unat (bucket_bytes sz) < 18446744073709551616"
      and off: "off_vmm cap s (f # gs) ?e (unat (bucket_bytes sz))"
    using backed_frames [OF kh a bk sz(1)] by metis
  have khc: "kernel_heap cap s (f # gs) (c # ds)" and nonec: "\<forall>d\<in>set (c # ds). first_fit ?r (snd d) = None"
    and shc: "shape r (c # ds)" and ac: "arena cap lim s (f # gs)"
    using kh none sh a cs fs(1) by simp_all
  have lim: "unat ?e + unat (bucket_bytes sz) \<le> lim" using bk by (simp add: backed_def)
  show ?thesis
  proof (cases "unat sz \<le> 65536")
    case True
    note rs = rounded_small [OF True]
    let ?d = "(?e, cut_block ?r 69508)"
    obtain s' fs' where s': "kmalloc s sz = Some (?e + 124, s')" "kernel_heap cap s' fs' (c # ?d # ds)" "vmm_within s (f # gs) s' fs'"
        "K_HEAP_END s' = ?e + 69632" "\<forall>d\<in>set (c # ds). keeps (fst d + 64) (snd d) (mem s) (mem s')"
        "\<forall>x. unat (x - (?e + 124)) < unat (if sz < 64 then 64 else sz) \<longrightarrow> mem s' x = 0"
      using kmalloc_grow_small [OF khc fs(2) True cov nonec] room off rs(1) by auto
    have "?r \<le> 69508" using rs(2) by simp
    note j = cut_block_used [OF this]
    have "packed (cut_block ?r 69508)" using packed_cut [of "[]" 69508 "[]" ?r] by (simp add: packed_def)
    then have h: "heap_at cap lim r s' (c # ?d # ds)"
      using grown_heap_at [OF s'(2) ac s'(3) _ s'(4) _ shc] lim rs(1) j(1) by (simp add: idle_def)
    have "unat (?e + 124) = unat ?e + 124" using room rs(1) by (intro unat_add_64 [THEN trans]) auto
    then have "?e + 124 \<noteq> 0" by auto
    moreover have "mset (in_use (c # ?d # ds)) = add_mset (?e + 124, snd (hd (cut_block ?r 69508))) (mset (in_use (c # ds)))"
      by (simp add: j add.assoc)
    moreover have "mem s' x = 0" if "unat (x - (?e + 124)) < unat sz" for x
      using s'(6) that by (auto simp: word_less_nat_alt split: if_splits)
    ultimately have "kmalloc_post cap lim r s cs sz (?e + 124) s' (c # ?d # ds)"
      using s'(1) s'(5) [unfolded keeps_in_use] h covers_size [OF cov j(3)] unfolding kmalloc_post_def cs by auto
    then show ?thesis by blast
  next
    case False
    let ?d = "(?e, [(False, bucket_bytes sz - 124)])"
    have "65536 < unat sz" using False by simp
    from kmalloc_grow_no_fit [OF khc fs(2) sz(2) nonec room off rounded_large [OF this sz(2) cov]]
    obtain s' fs' where s': "kmalloc s sz = Some (0, s')" "kernel_heap cap s' fs' (c # ?d # ds)" "vmm_within s (f # gs) s' fs'"
        "K_HEAP_END s' = ?e + bucket_bytes sz" "\<forall>d\<in>set (c # ds). keeps (fst d + 64) (snd d) (mem s) (mem s')"
      by blast
    have "unat (bucket_bytes sz) \<le> 16777216" using bucket_bytes_bound(3) [of sz] sz(1) by simp
    then have "heap_at cap lim (Suc r) s' (c # ?d # ds)"
      using grown_heap_at [OF s'(2) ac s'(3) _ s'(4) lim shc] by (simp add: idle_def packed_def)
    then have "kmalloc_post cap lim r s cs sz 0 s' (c # ?d # ds)"
      using s'(1) s'(5) [unfolded keeps_in_use] False unfolding kmalloc_post_def cs by simp
    then show ?thesis by blast
  qed
qed

lemma kmalloc_run:
  assumes h: "heap_at cap lim r s cs" and sv: "servable lim s sz"
  shows "\<exists>p s' cs'. kmalloc_post cap lim r s cs sz p s' cs'"
proof -
  obtain fs where kh: "kernel_heap cap s fs cs" and a: "arena cap lim s fs" and sh: "shape r cs" using h by (auto simp: heap_at_def)
  show ?thesis
  proof (cases "\<exists>c\<in>set cs. first_fit (kmalloc_rounded sz) (snd c) \<noteq> None")
    case True
    then obtain pre c post where c: "cs = pre @ c # post" "first_fit (kmalloc_rounded sz) (snd c) \<noteq> None"
        "\<forall>d\<in>set pre. first_fit (kmalloc_rounded sz) (snd d) = None"
      using split_list_first_prop [of cs "\<lambda>c. first_fit (kmalloc_rounded sz) (snd c) \<noteq> None"] by blast
    obtain b bs where b: "c = (b, bs)" by fastforce
    obtain xs n ys where "first_fit (kmalloc_rounded sz) bs = Some (xs, n, ys)" using c(2) b by auto
    then show ?thesis using kmalloc_from_list [of cap s fs pre b bs post] kh a sh c b sv by (simp add: servable_def)
  next
    case False
    then show ?thesis using kmalloc_from_new [OF kh a sh _ sv] by blast
  qed
qed

lemma free_size:
  assumes "kernel_heap cap s fs (pre @ (b, xs @ (u, n) # ys) # post)"
  shows "bucket_size (b, free_block xs n ys) = bucket_size (b, xs @ (u, n) # ys)"
  using kfree_bucket [OF assms] by (metis bucket_size_def snd_conv)

lemma free_block_one: "length (free_block xs n ys) = 1 \<longleftrightarrow> (\<exists>k. free_block xs n ys = [(False, k)])"
  using absorb_Cons [of "snd (melt xs n)" ys] by (cases "fst (melt xs n)") (auto simp: free_block_def)

lemma shape_remove: "shape r (pre @ d # c # post) \<Longrightarrow> shape r (pre @ d # post)"
  by (cases pre) (auto simp: shape_def split: if_splits)

lemma kfree_run:
  assumes h: "heap_at cap lim r s cs" and m: "mset (in_use cs) = add_mset (p, n) M"
  shows "\<exists>s' cs'. kfree s p = Some s' \<and> heap_at cap lim r s' cs' \<and> mset (in_use cs') = M
    \<and> (\<forall>(a, k)\<in>#M. \<forall>x. unat (x - a) < unat k \<longrightarrow> mem s' x = mem s x)"
proof -
  obtain fs where kh: "kernel_heap cap s fs cs" and a: "arena cap lim s fs" and sh: "shape r cs" using h by (auto simp: heap_at_def)
  have "(p, n) \<in> set (in_use cs)" using m by (metis set_mset_mset union_single_eq_member)
  then obtain pre b xs ys post where cs: "cs = pre @ (b, xs @ (True, n) # ys) # post" and p: "p = end_addr (b + 64) xs + 60"
    by (rule in_use_block)
  define bs where "bs = free_block xs n ys"
  have khc: "kernel_heap cap s fs (pre @ (b, xs @ (True, n) # ys) # post)" using kh cs by simp
  have M: "M = mset (in_use (pre @ (b, xs @ (False, n) # ys) # post))" "M = mset (in_use (pre @ (b, bs) # post))"
    using m by (simp_all add: cs p bs_def used_free)
  have pk: "packed bs" "bs \<noteq> []"
    using sh packed_free absorb_Cons [of "snd (melt xs n)" ys] by (auto simp: shape_def cs bs_def free_block_def)
  show ?thesis
  proof (cases "pre = [] \<or> length bs \<noteq> 1")
    case True
    obtain s' where s': "kfree s p = Some s'" "kernel_heap cap s' fs (pre @ (b, bs) # post)" "vmm_within s fs s' fs" "K_HEAP_END s' = K_HEAP_END s"
        "\<forall>c\<in>set (pre @ (b, xs @ (False, n) # ys) # post). keeps (fst c + 64) (snd c) (mem s) (mem s')"
      using kfree_heap_list [OF khc, folded bs_def, OF True] p by auto
    have "idle (b, bs) \<Longrightarrow> pre = []" using packed_unused [OF pk, of "b + 64"] True by (auto simp: idle_def)
    then have "shape r (pre @ (b, bs) # post)"
      using shape_replace [OF sh [unfolded cs], of "(b, bs)"] pk(1) free_size [OF khc] by (simp add: bs_def)
    moreover have "arena cap lim s' fs" using arena_within [OF a s'(3)] a s'(4) by (simp add: arena_def)
    ultimately have "heap_at cap lim r s' (pre @ (b, bs) # post)" using s'(2) by (auto simp: heap_at_def)
    then show ?thesis using s'(1) s'(5) [unfolded keeps_in_use] M by (intro exI [of _ s'] exI [of _ "pre @ (b, bs) # post"]) simp
  next
    case False
    then obtain pre' d where pre: "pre = pre' @ [d]" by (metis append_butlast_last_id)
    have "(b, xs @ (True, n) # ys) \<in> set (tl cs)" by (cases pre') (simp_all add: cs pre)
    then have "64 + extent (xs @ (True, n) # ys) \<le> 16777216" using sh by (auto simp: shape_def bucket_size_def)
    moreover have "null_free (mem s) (PHYSICAL_ADDRESS_OFFSET s) 4 (map_root s 0)" "active_pml4_table s = map_root s 0"
      using a by (simp_all add: arena_def null_free_def)
    moreover have khp: "kernel_heap cap s fs (pre' @ d # (b, xs @ (True, n) # ys) # post)" using khc pre by simp
    ultimately obtain s' where s': "kfree s p = Some s'" "kernel_heap cap s' fs (pre' @ d # post)" "vmm_within s fs s' fs"
        "K_HEAP_END s' = K_HEAP_END s" "\<forall>c\<in>set (pre' @ d # post). keeps (fst c + 64) (snd c) (mem s) (mem s')"
      using kfree_heap_unmap [OF khp] False p by (auto simp: bs_def)
    have "used q bs = []" for q using False free_block_one [of xs n ys] by (auto simp: bs_def)
    then have "M = mset (in_use (pre' @ d # post))" using M(2) by (simp add: pre)
    moreover have "shape r (pre' @ d # post)" using shape_remove sh by (simp add: cs pre)
    moreover have "arena cap lim s' fs" using arena_within [OF a s'(3)] a s'(4) by (simp add: arena_def)
    ultimately show ?thesis
      using s'(1,2) s'(5) [unfolded keeps_in_use] by (intro exI [of _ s'] exI [of _ "pre' @ d # post"]) (auto simp: heap_at_def)
  qed
qed

text \<open>Whatever a client writes inside one of its blocks.\<close>

lemma write_run:
  assumes h: "heap_at cap lim r s cs" and m: "mset (in_use cs) = add_mset (p, n) M" and d: "differ_in p (unat n) (mem s) m'"
  shows "heap_at cap lim r (s\<lparr>mem := m'\<rparr>) cs" "\<forall>(a, k)\<in>#M. \<forall>x. unat (x - a) < unat k \<longrightarrow> m' x = mem s x"
proof -
  obtain fs where kh: "kernel_heap cap s fs cs" and a: "arena cap lim s fs" and sh: "shape r cs" using h by (auto simp: heap_at_def)
  have "(p, n) \<in> set (in_use cs)" using m by (metis set_mset_mset union_single_eq_member)
  then obtain pre b xs ys post where cs: "cs = pre @ (b, xs @ (True, n) # ys) # post" and p: "p = end_addr (b + 64) xs + 60"
    by (rule in_use_block)
  have M: "M = mset (in_use (pre @ (b, xs @ (False, n) # ys) # post))" using m by (simp add: cs p)
  note hw = heap_write_block [OF kh [unfolded cs] d [unfolded p] le_refl]
  have "vmm_within s fs (s\<lparr>mem := m'\<rparr>) fs" using hw(4) vmm_within_regs [of s "s\<lparr>mem := m'\<rparr>"] by (simp add: same_regs_def)
  from arena_within [OF a this] have "arena cap lim (s\<lparr>mem := m'\<rparr>) fs" using a by (simp add: arena_def [of _ _ s])
  then show "heap_at cap lim r (s\<lparr>mem := m'\<rparr>) cs" using hw(1) sh cs by (auto simp: heap_at_def)
  have "\<forall>c\<in>set (pre @ (b, xs @ (False, n) # ys) # post). keeps (fst c + 64) (snd c) (mem s) m'" using hw(2,3) by auto
  then show "\<forall>(a, k)\<in>#M. \<forall>x. unat (x - a) < unat k \<longrightarrow> m' x = mem s x" unfolding M keeps_in_use set_mset_mset .
qed

lemma blocks_distinct:
  assumes h: "heap_at cap lim r s cs" and m: "mset (in_use cs) = add_mset (p, n) M" and x: "unat (x - p) < unat n" and a: "(a, k) \<in># M"
  shows "\<not> unat (x - a) < unat k"
proof
  assume "unat (x - a) < unat k"
  moreover have "differ_in p (unat n) (mem s) ((mem s)(x := mem s x + 1))" using x by (auto simp: differ_in_def)
  ultimately have "((mem s)(x := mem s x + 1)) x = mem s x" using write_run(2) [OF h m] a by blast
  then show False by simp
qed

text \<open>The header of a block in use.\<close>

lemma block_header:
  assumes h: "heap_at cap lim r s cs" and m: "mset (in_use cs) = add_mset (p, n) M"
  shows "p \<noteq> 0" "load32 (mem s) (p_magic (p - 60)) = KMALLOC_MAGIC_PEBBLE" "load64 (mem s) (p_size (p - 60)) = n"
proof -
  obtain fs where kh: "kernel_heap cap s fs cs" using h by (auto simp: heap_at_def)
  have "(p, n) \<in> set (in_use cs)" using m by (metis set_mset_mset union_single_eq_member)
  then obtain pre b xs ys post where cs: "cs = pre @ (b, xs @ (True, n) # ys) # post" and p: "p = end_addr (b + 64) xs + 60"
    by (rule in_use_block)
  note hb = heap_block [OF kh [unfolded cs]]
  show "p \<noteq> 0" "load32 (mem s) (p_magic (p - 60)) = KMALLOC_MAGIC_PEBBLE" "load64 (mem s) (p_size (p - 60)) = n"
    using hb(2) bucket_split(1) [OF hb(1)] p by (simp_all add: pebble_at_def)
qed

definition krealloc_post :: "nat \<Rightarrow> nat \<Rightarrow> nat \<Rightarrow> machine \<Rightarrow> u64 \<Rightarrow> u64 \<Rightarrow> (u64 \<times> u64) multiset \<Rightarrow> u64 \<Rightarrow> u64 \<Rightarrow> machine \<Rightarrow> bool" where
  "krealloc_post cap lim r s p n M sz q s' \<longleftrightarrow> krealloc s p sz = Some (q, s')
     \<and> (\<forall>(a, k)\<in>#M. \<forall>x. unat (x - a) < unat k \<longrightarrow> mem s' x = mem s x)
     \<and> (if q = 0 then 65536 < unat sz \<and> (\<exists>cs. heap_at cap lim (Suc r) s' cs \<and> mset (in_use cs) = M)
        else (\<exists>k. unat sz \<le> unat k \<and> (\<exists>cs. heap_at cap lim r s' cs \<and> mset (in_use cs) = add_mset (q, k) M))
          \<and> (\<forall>j<unat n. mem s' (q + of_nat j) = mem s (p + of_nat j)))"

lemma krealloc_run:
  assumes h: "heap_at cap lim r s cs" and m: "mset (in_use cs) = add_mset (p, n) M" and sv: "servable lim s sz" and big: "n < sz"
  shows "\<exists>q s'. krealloc_post cap lim r s p n M sz q s'"
proof -
  note hd = block_header [OF h m]
  obtain q s1 cs1 where k: "kmalloc_post cap lim r s cs sz q s1 cs1" using kmalloc_run [OF h sv] by blast
  then have km: "kmalloc s sz = Some (q, s1)" and "\<forall>(a, k)\<in>set (in_use cs). \<forall>x. unat (x - a) < unat k \<longrightarrow> mem s1 x = mem s x"
    by (simp_all add: kmalloc_post_def)
  then have kept1: "\<forall>(a, k)\<in>#add_mset (p, n) M. \<forall>x. unat (x - a) < unat k \<longrightarrow> mem s1 x = mem s x" by (simp add: m [symmetric])
  define s2 where "s2 = (if q \<noteq> 0 then s1\<lparr>mem := snd (memcpy (mem s1) q p sz)\<rparr> else s1)"
  have kr: "krealloc s p sz = Option.bind (kfree s2 p) (\<lambda>s. Some (q, s))"
    using hd km big by (auto simp: krealloc_def Let_def sizeof_pebble_def s2_def)
  show ?thesis
  proof (cases "q = 0")
    case True
    then have h1: "65536 < unat sz" "heap_at cap lim (Suc r) s1 cs1" "mset (in_use cs1) = add_mset (p, n) M"
      using k m by (simp_all add: kmalloc_post_def)
    obtain s' cs' where "kfree s2 p = Some s'" "heap_at cap lim (Suc r) s' cs'" "mset (in_use cs') = M"
        "\<forall>(a, k)\<in>#M. \<forall>x. unat (x - a) < unat k \<longrightarrow> mem s' x = mem s1 x"
      using kfree_run [OF h1(2,3)] True by (auto simp: s2_def)
    then show ?thesis using True kr h1(1) kept1 by (intro exI [of _ 0] exI [of _ s']) (auto simp: krealloc_post_def split_beta)
  next
    case False
    then obtain j where h1: "heap_at cap lim r s1 cs1" "unat sz \<le> unat j" "mset (in_use cs1) = add_mset (q, j) (add_mset (p, n) M)"
      using k m by (auto simp: kmalloc_post_def)
    have d: "differ_in q (unat j) (mem s1) (mem s2)"
      using False copy_up_outside [of _ q 0 sz "mem s1" p] h1(2) by (auto simp: s2_def memcpy_def differ_in_def)
    have s2: "s1\<lparr>mem := mem s2\<rparr> = s2" using False by (simp add: s2_def)
    note h2 = write_run [OF h1(1,3) d, unfolded s2]
    have "mset (in_use cs1) = add_mset (p, n) (add_mset (q, j) M)" by (simp add: h1(3) add_mset_commute)
    from kfree_run [OF h2(1) this]
    obtain s' cs' where s': "kfree s2 p = Some s'" "heap_at cap lim r s' cs'" "mset (in_use cs') = add_mset (q, j) M"
        "\<forall>(a, k)\<in>#add_mset (q, j) M. \<forall>x. unat (x - a) < unat k \<longrightarrow> mem s' x = mem s2 x" by blast
    have "mem s' (q + of_nat i) = mem s (p + of_nat i)" if i: "i < unat n" for i
    proof -
      have lt: "i < unat sz" "i < unat j" "i < 18446744073709551616" using i big h1(2) unat_lt_64 [of n] by (auto simp: word_less_nat_alt)
      then have w: "(of_nat i :: u64) < sz" "unat (of_nat i :: u64) = i" by (simp_all add: word_less_nat_alt unat_of_nat_64)
      have "mem s' (q + of_nat i) = mem s2 (q + of_nat i)" using s'(4) unat_index [OF lt(2), of q] lt(2) by simp
      also have "\<not> unat (p + of_nat i - q) < unat j"
        using blocks_distinct [OF h1(1,3), of "p + of_nat i" p n] unat_index [OF i, of p] i by auto
      then have "mem s2 (q + of_nat i) = mem s1 (p + of_nat i)"
        using copy_up_byte [of 0 "of_nat i" sz p q "mem s1"] False h1(2) w(1) by (simp add: s2_def memcpy_def)
      also have "\<dots> = mem s (p + of_nat i)" using kept1 unat_index [OF i, of p] i by simp
      finally show ?thesis .
    qed
    moreover have "mem s' x = mem s x" if "(a, k) \<in># M" "unat (x - a) < unat k" for a k x
      using that s'(4) h2(2) kept1 by fastforce
    ultimately have "krealloc_post cap lim r s p n M sz q s'"
      unfolding krealloc_post_def using False kr s'(1-3) h1(2) by auto
    then show ?thesis by blast
  qed
qed

text \<open>The kernel heap keeps the contract.\<close>

interpretation run: resizing_heap "\<lambda>s r M. \<exists>cs. heap_at cap lim r s cs \<and> mset (in_use cs) = M" "servable lim" kmalloc kfree
  "\<lambda>s. mem s" "\<lambda>s x v. s\<lparr>mem := (mem s)(x := v)\<rparr>" "\<lambda>s p. load64 (mem s) (p_size (p - 60))" krealloc for cap lim
proof (unfold_locales, goal_cases)
  case (1 s r M sz)
  then obtain cs where cs: "heap_at cap lim r s cs" "mset (in_use cs) = M" by blast
  from kmalloc_run [OF this(1) 1(2)] obtain p s' cs' where "kmalloc_post cap lim r s cs sz p s' cs'" by blast
  then show ?case
    unfolding kmalloc_post_def cs(2) [symmetric] set_mset_mset by (intro exI [of _ p] exI [of _ s']) (cases "p = 0"; simp; blast)
next
  case (2 s r p n M)
  then show ?case using kfree_run [of cap lim r s _ p n M] by blast
next
  case (3 s r p n M a v)
  then have "differ_in p (unat n) (mem s) ((mem s)(a := v))" by (auto simp: differ_in_def)
  then show ?case using 3 write_run(1) [of cap lim r s _ p n M] by blast
next
  case (4 s a v)
  then show ?case by simp
next
  case (5 s r p n a k M x)
  then show ?case using blocks_distinct [of cap lim r s _ p n "add_mset (a, k) M" x a k] by auto
next
  case (6 s r p n M)
  then show ?case using block_header(3) [of cap lim r s _ p n M] by blast
next
  case (7 s r p n M sz)
  then obtain q s' where "krealloc_post cap lim r s p n M sz q s'" using krealloc_run [of cap lim r s _ p n M sz] by blast
  then show ?case unfolding krealloc_post_def by blast
qed

section \<open>Runs\<close>

datatype heap_event = Alloc u64 | Refuse u64 | Free nat | Grow nat u64 | Lose nat u64 | Write nat nat u8

text \<open>A configuration is the machine and the pointers the client holds, each with the size it asked for.\<close>

type_synonym heap_config = "machine \<times> (u64 \<times> u64) list"

inductive heap_step :: "nat \<Rightarrow> heap_config \<Rightarrow> heap_event \<Rightarrow> heap_config \<Rightarrow> bool" for lim where
  alloc: "servable lim s sz \<Longrightarrow> kmalloc s sz = Some (p, s') \<Longrightarrow> p \<noteq> 0 \<Longrightarrow> heap_step lim (s, L) (Alloc sz) (s', L @ [(p, sz)])"
| refuse: "servable lim s sz \<Longrightarrow> kmalloc s sz = Some (0, s') \<Longrightarrow> heap_step lim (s, L) (Refuse sz) (s', L)"
| free: "i < length L \<Longrightarrow> kfree s (fst (L ! i)) = Some s' \<Longrightarrow> heap_step lim (s, L) (Free i) (s', forget i L)"
| grow: "i < length L \<Longrightarrow> servable lim s sz \<Longrightarrow> load64 (mem s) (p_size (fst (L ! i) - 60)) < sz \<Longrightarrow>
    krealloc s (fst (L ! i)) sz = Some (p, s') \<Longrightarrow> p \<noteq> 0 \<Longrightarrow> heap_step lim (s, L) (Grow i sz) (s', forget i L @ [(p, sz)])"
| lose: "i < length L \<Longrightarrow> servable lim s sz \<Longrightarrow> load64 (mem s) (p_size (fst (L ! i) - 60)) < sz \<Longrightarrow>
    krealloc s (fst (L ! i)) sz = Some (0, s') \<Longrightarrow> heap_step lim (s, L) (Lose i sz) (s', forget i L)"
| store: "i < length L \<Longrightarrow> j < unat (snd (L ! i)) \<Longrightarrow>
    heap_step lim (s, L) (Write i j v) (s\<lparr>mem := (mem s)(fst (L ! i) + of_nat j := v)\<rparr>, L)"

inductive heap_run :: "nat \<Rightarrow> heap_config \<Rightarrow> heap_event list \<Rightarrow> heap_config \<Rightarrow> bool" for lim where
  start: "heap_run lim c [] c"
| step: "heap_run lim c es d \<Longrightarrow> heap_step lim d e d' \<Longrightarrow> heap_run lim c (es @ [e]) d'"

text \<open>The ideal allocator: the contents of the client's blocks, without any memory behind them. An enlarged block keeps its bytes; those that
  are added may be anything.\<close>

inductive ideal_step :: "heap_event \<Rightarrow> u8 list list \<Rightarrow> u8 list list \<Rightarrow> bool" where
  "ideal_step (Alloc sz) bss (bss @ [replicate (unat sz) 0])"
| "ideal_step (Refuse sz) bss bss"
| "ideal_step (Free i) bss (forget i bss)"
| "length (bss ! i @ rest) = unat sz \<Longrightarrow> ideal_step (Grow i sz) bss (forget i bss @ [bss ! i @ rest])"
| "ideal_step (Lose i sz) bss (forget i bss)"
| "ideal_step (Write i j v) bss (bss[i := (bss ! i)[j := v]])"

inductive ideal_run :: "heap_event list \<Rightarrow> u8 list list \<Rightarrow> bool" where
  "ideal_run [] []"
| "ideal_run es bss \<Longrightarrow> ideal_step e bss bss' \<Longrightarrow> ideal_run (es @ [e]) bss'"

inductive_simps ideal_step_simps [simp]:
  "ideal_step (Alloc sz) bss bss'" "ideal_step (Refuse sz) bss bss'" "ideal_step (Free i) bss bss'" "ideal_step (Lose i sz) bss bss'"
  "ideal_step (Write i j v) bss bss'"

inductive_simps ideal_run_simps: "ideal_run [] bss" "ideal_run (es @ [e]) bss"

fun refusal :: "heap_event \<Rightarrow> bool" where
  "refusal (Refuse sz) \<longleftrightarrow> True"
| "refusal (Lose i sz) \<longleftrightarrow> True"
| "refusal _ \<longleftrightarrow> False"

definition refusals :: "heap_event list \<Rightarrow> nat" where
  "refusals es = length (filter refusal es)"

text \<open>The simulation: the configuration after the events \<open>es\<close> stands for a state the ideal allocator reaches by them.\<close>

definition config_for :: "nat \<Rightarrow> nat \<Rightarrow> heap_event list \<Rightarrow> heap_config \<Rightarrow> u8 list list \<Rightarrow> bool" where
  "config_for cap lim es c bss \<longleftrightarrow> ideal_run es bss
     \<and> stands_for (\<lambda>r M. \<exists>cs. heap_at cap lim r (fst c) cs \<and> mset (in_use cs) = M) (mem (fst c)) (refusals es) (snd c) bss"

lemma config_step:
  assumes "config_for cap lim es c bss" "ideal_step e bss bss'"
    "stands_for (\<lambda>r M. \<exists>cs. heap_at cap lim r s cs \<and> mset (in_use cs) = M) (mem s) (if refusal e then Suc (refusals es) else refusals es) L bss'"
  shows "\<exists>bss. config_for cap lim (es @ [e]) (s, L) bss"
  using assms ideal_run.intros(2) [of es bss e bss'] by (auto simp: config_for_def refusals_def split: if_splits)

lemma heap_step_ideal:
  assumes "heap_step lim c e c'" "config_for cap lim es c bss"
  shows "\<exists>bss'. config_for cap lim (es @ [e]) c' bss'"
  using assms
proof (induction rule: heap_step.induct)
  case (alloc s sz p s' L)
  then show ?case using run.alloc_stands [of cap lim s _ L bss sz]
    by (intro config_step [OF alloc(4)]) (auto simp: config_for_def)
next
  case (refuse s sz s' L)
  then show ?case using run.alloc_stands [of cap lim s _ L bss sz]
    by (intro config_step [OF refuse(3)]) (auto simp: config_for_def)
next
  case (free i L s s')
  then show ?case using run.free_stands [of cap lim s _ L bss i]
    by (intro config_step [OF free(3)]) (auto simp: config_for_def)
next
  case (grow i L s sz p s')
  from grow(6) obtain rest where rest: "length (bss ! i @ rest) = unat sz"
      "stands_for (\<lambda>r M. \<exists>cs. heap_at cap lim r s' cs \<and> mset (in_use cs) = M) (mem s') (refusals es) (forget i L @ [(p, sz)]) (forget i bss @ [bss ! i @ rest])"
    using run.grow_stands [of cap lim s "refusals es" L bss i sz] grow(1-5) by (auto simp: config_for_def)
  show ?case by (rule config_step [OF grow(6) ideal_step.intros(4) [OF rest(1)]]) (use rest(2) in simp)
next
  case (lose i L s sz s')
  then show ?case using run.grow_stands [of cap lim s _ L bss i sz]
    by (intro config_step [OF lose(5)]) (auto simp: config_for_def)
next
  case (store i L j s v)
  then show ?case using run.write_stands [of cap lim s _ L bss i j v]
    by (intro config_step [OF store(3)]) (auto simp: config_for_def)
qed

lemma heap_run_ideal:
  assumes "heap_run lim c es d" "config_for cap lim [] c bss"
  shows "\<exists>bss. config_for cap lim es d bss"
  using assms by (induction rule: heap_run.induct) (blast intro: heap_step_ideal)+

lemma config_start:
  assumes "kernel_heap cap s fs cs" "arena cap lim s fs" "shape 0 cs" "in_use cs = []"
  shows "config_for cap lim [] (s, []) []"
proof -
  have "heap_at cap lim 0 s cs" using assms(1-3) by (auto simp: heap_at_def)
  then show ?thesis
    using assms(4) by (auto simp: config_for_def stands_for_def blocks_hold_def refusals_def intro!: exI [of _ cs] ideal_run.intros(1))
qed

section \<open>What a run keeps\<close>

text \<open>The heap as \<open>kmalloc_init\<close> leaves it: one bucket with one free block, and room up to \<open>lim\<close> to grow.\<close>

definition heap_ready :: "nat \<Rightarrow> nat \<Rightarrow> machine \<Rightarrow> bool" where
  "heap_ready cap lim s \<longleftrightarrow> (\<exists>fs n. kernel_heap cap s fs [(KHEAPSTART s, [(False, n)])] \<and> arena cap lim s fs)"

lemma heap_run_config:
  assumes "heap_ready cap lim s0" "heap_run lim (s0, []) es (s, L)"
  shows "\<exists>bss. config_for cap lim es (s, L) bss"
proof -
  obtain fs n where "kernel_heap cap s0 fs [(KHEAPSTART s0, [(False, n)])]" "arena cap lim s0 fs" using assms(1) by (auto simp: heap_ready_def)
  then have "config_for cap lim [] (s0, []) []" by (rule config_start) (simp_all add: shape_def packed_def)
  then show ?thesis by (rule heap_run_ideal [OF assms(2)])
qed

lemma heap_run_blocks:
  assumes "heap_ready cap lim s0" "heap_run lim (s0, []) es (s, L)"
  obtains fs cs us bss where "kernel_heap cap s fs cs" "shape (refusals es) cs" "mset (in_use cs) = mset us" "ideal_run es bss"
    "blocks_hold (mem s) us L bss" "stands_for (\<lambda>r M. \<exists>cs. heap_at cap lim r s cs \<and> mset (in_use cs) = M) (mem s) (refusals es) L bss"
proof -
  obtain bss where b: "ideal_run es bss" "stands_for (\<lambda>r M. \<exists>cs. heap_at cap lim r s cs \<and> mset (in_use cs) = M) (mem s) (refusals es) L bss"
    using heap_run_config [OF assms] by (auto simp: config_for_def)
  then obtain us cs where "heap_at cap lim (refusals es) s cs" "mset (in_use cs) = mset us" "blocks_hold (mem s) us L bss"
    by (auto simp: stands_for_def)
  then show ?thesis using that b by (auto simp: heap_at_def)
qed

lemma krealloc_answer:
  assumes "heap_ready cap lim s0" "heap_run lim (s0, []) es (s, L)" "i < length L"
    and "load64 (mem s) (p_size (fst (L ! i) - 60)) < sz" "kmalloc s sz = Some (a, s1)" "krealloc s (fst (L ! i)) sz = Some (q, s')"
  shows "q = a"
proof (rule heap_run_blocks [OF assms(1,2)])
  fix us bss assume us: "blocks_hold (mem s) us L bss"
    and "stands_for (\<lambda>r M. \<exists>cs. heap_at cap lim r s cs \<and> mset (in_use cs) = M) (mem s) (refusals es) L bss"
  then obtain vs cs where v: "heap_at cap lim (refusals es) s cs" "mset (in_use cs) = mset vs" "blocks_hold (mem s) vs L bss"
    by (auto simp: stands_for_def)
  then have i: "i < length vs" "fst (vs ! i) = fst (L ! i)" using assms(3) by (simp_all add: blocks_hold_def block_holds_def)
  have "mset (in_use cs) = add_mset (fst (L ! i), snd (vs ! i)) (mset (forget i vs))" using v(2) mset_forget [OF i(1)] i(2) by (metis prod.collapse)
  note hd = block_header [OF v(1) this]
  show ?thesis using assms(4-6) hd(1,2) by (auto simp: krealloc_def Let_def sizeof_pebble_def bind_eq_Some_conv split: if_splits)
qed

text \<open>A block in use lies in its bucket, and so apart from what the memory manager works on.\<close>

lemma block_in_bucket:
  assumes kh: "kernel_heap cap s fs cs" and b: "(a, n) \<in> set (in_use cs)" and x: "unat (x - a) < unat n"
  obtains c where "c \<in> set cs" "unat (x - fst c) < bucket_size c"
proof -
  obtain c where c: "c \<in> set cs" "(True, a, n) \<in> set (payloads (fst c + 64) (snd c))" using b by (auto simp: in_use_def used_def)
  then obtain q nx where ok: "bucket_ok (mem s) q nx c" using kh chain_members [of "mem s" 0 cs c] by (auto simp: kernel_heap_def heap_list_def)
  have e: "bucket_size c = 64 + extent (snd c)" "bucket_size c < 18446744073709551616" using bucket_header_bytes(3) [OF ok] by (simp_all add: bucket_size_def)
  then have "unat (x - (fst c + 64)) < extent (snd c)" using payload_inside [OF c(2) x] by simp
  then show ?thesis using that [OF c(1)] inside_from [of x "fst c" 64 "extent (snd c)" "bucket_size c"] e by simp
qed

lemma block_off_vmm:
  assumes kh: "kernel_heap cap s fs cs" and b: "(a, n) \<in> set (in_use cs)" and x: "unat (x - a) < unat n"
  shows "\<forall>t\<in>set (vmm_pages s fs). \<not> unat (x - t) < 4096" "\<not> unat (x - vmm_frameAlloc s) < 24 + 8 * cap"
proof -
  obtain c where c: "c \<in> set cs" "unat (x - fst c) < bucket_size c" by (rule block_in_bucket [OF kh b x])
  then have "off_vmm cap s fs (fst c) (bucket_size c)" using kh by (simp add: kernel_heap_def)
  then have "\<forall>t\<in>set (vmm_pages s fs). sep (fst c) (bucket_size c) t 4096" "sep (fst c) (bucket_size c) (vmm_frameAlloc s) (24 + 8 * cap)"
    by (auto simp only: off_vmm_def sep_sym [of "fst c"])
  then show "\<forall>t\<in>set (vmm_pages s fs). \<not> unat (x - t) < 4096" "\<not> unat (x - vmm_frameAlloc s) < 24 + 8 * cap"
    using sep_apart c(2) by blast+
qed

lemma kmalloc_init_heap:
  assumes vm: "vmm_ok cap s (f # fs)" "\<not> bit (kheap_spinlock s) 0" and k: "K_HEAP_END s = KHEAPSTART s" "KHEAPSTART s \<noteq> 0"
    and n: "3 \<le> length fs" and sz: "unat sz \<le> 65536" and a: "arena cap lim s (f # fs)" "unat (KHEAPSTART s) + 69632 \<le> lim"
  shows "\<exists>s' fs'. kmalloc_init s sz = Some (KHEAPSTART s, s') \<and> kernel_heap cap s' fs' [(KHEAPSTART s, [(False, 69508)])]
    \<and> arena cap lim s' fs' \<and> KHEAPSTART s' = KHEAPSTART s
    \<and> (\<forall>v. translate s' v = (if page_of v = page_of (KHEAPSTART s) then Some f else translate s v))"
proof -
  define s0 where "s0 = say (Serial_printf ([CHR 0x0A] @ '' kmalloc init start.'') []) s"
  have s0: "vmm_ok cap s0 (f # fs)" "\<not> bit (kheap_spinlock s0) 0" "K_HEAP_END s0 = KHEAPSTART s" "K_HEAP_END s0 \<noteq> 0" "vmm_within s (f # fs) s0 (f # fs)"
      "\<And>v. translate s0 v = translate s v"
    using vm k vmm_ok_cong(1) [of s0 s] by (simp_all add: s0_def vmm_within_def map_root_def)
  have bb: "bucket_bytes sz = 69632" by (rule rounded_small(1) [OF sz])
  have "sep t j (KHEAPSTART s) 69632" if "sep t j (KHEAPSTART s) (lim - unat (KHEAPSTART s))" "0 < j" for t j
    using sep_sub_0 [OF that(1) le_refl _ that(2), of 69632] a(2) by simp
  then have off: "off_vmm cap s (f # fs) (KHEAPSTART s) 69632" using a(1) by (simp add: arena_def off_vmm_def)
  then have off0: "off_vmm cap s0 (f # fs) (K_HEAP_END s0) (unat (bucket_bytes sz))" by (simp add: s0_def kernel_heap_say bb k(1))
  have room: "unat (K_HEAP_END s0) + unat (bucket_bytes sz) < 18446744073709551616" using a by (simp add: arena_def bb s0(3))
  have "unat sz \<le> 16777216" using sz by simp
  from create_bucket_vmm [OF s0(1,2,4) _ n this room off0, of "[]" "0 OR BUCKET_FLAG_FIRST"]
  obtain s' fs' where s': "kmalloc_init s sz = Some (KHEAPSTART s, s')" "vmm_ok cap s' fs'" "vmm_within s0 (f # fs) s' fs'"
      "bucket_ok (mem s') 0 0 (KHEAPSTART s, [(False, 69508)])" "K_HEAP_END s' = KHEAPSTART s + 69632" "kheap_spinlock s' = 0"
      "\<forall>v. translate s' v = (if page_of v = page_of (KHEAPSTART s) then Some f else translate s0 v)"
    unfolding kmalloc_init_def s0_def [symmetric] by (auto simp: s0(3) bb)
  note w = vmm_within_trans [OF s0(5) s'(3)]
  have u: "unat (K_HEAP_END s') = unat (KHEAPSTART s) + 69632" using room s'(5) by (simp add: bb s0(3) unat_add_64)
  then have ar: "arena cap lim s' fs'" using arena_within [OF a(1) w] a(2) by simp
  have st: "KHEAPSTART s' = KHEAPSTART s" using w by (simp add: vmm_within_def)
  then have "kernel_heap cap s' fs' [(KHEAPSTART s, [(False, 69508)])]"
    using s'(2,4,6) u off_vmm_within [OF w off] by (simp add: kernel_heap_def heap_list_def head_addr_def bucket_size_def)
  then show ?thesis using s'(1,7) s0(6) ar st by auto
qed

text \<open>A run on the small heap, with room for two more buckets.\<close>

abbreviation small_limit :: nat where
  "small_limit \<equiv> 0x844000"

lemma small_arena: "arena 9 small_limit (small_heap False) small_frames"
proof -
  note ok = small_heap_ok [of False]
  have st: "KHEAPSTART (small_heap False) = 0x800000" by (simp add: small_heap_def)
  show ?thesis unfolding arena_def off_vmm_def ok(3,6,7) st using ok(4) [unfolded ok(6)] ok(5) by (simp add: sep_def)
qed

lemma small_heap_ready: "heap_ready 9 small_limit (small_heap False)" "servable small_limit (small_heap False) 4096"
proof -
  note ok = small_heap_ok [of False] and small_arena
  moreover have st: "KHEAPSTART (small_heap False) = 0x800000" by (simp add: small_heap_def)
  ultimately show "heap_ready 9 small_limit (small_heap False)" using ok(1) st unfolding heap_ready_def by metis
  have "frame_list 9 (mem (small_heap False)) 0x5000 small_frames" using ok(1,7) by (simp add: kernel_heap_def vmm_ok_def pt_ok_iff)
  then have "backed small_limit (small_heap False) 4096"
    using rounded_small(1) [of 4096] by (simp add: backed_def ok(3,7) frame_list_def)
  then show "servable small_limit (small_heap False) 4096" using fresh_heap_request(1) by (simp add: servable_def)
qed

lemma small_run:
  "\<exists>s1 s2. kmalloc (small_heap False) 4096 = Some (0x80007C, s1) \<and> kfree s1 0x80007C = Some s2
    \<and> heap_run small_limit (small_heap False, []) [Alloc 4096, Write 0 5 7] (s1\<lparr>mem := (mem s1)(0x800081 := 7)\<rparr>, [(0x80007C, 4096)])
    \<and> heap_run small_limit (small_heap False, []) [Alloc 4096, Free 0] (s2, [])"
proof -
  obtain s1 s2 where s: "kmalloc (small_heap False) 4096 = Some (0x80007C, s1)" "kfree s1 0x80007C = Some s2"
    using lheap.alloc_free [OF small_heap_ok(1) [of False] fresh_heap_request(1,3)] by (auto simp: neighbour_free_def)
  have r: "heap_run small_limit (small_heap False, []) [Alloc 4096] (s1, [(0x80007C, 4096)])"
    using heap_run.step [OF heap_run.start heap_step.alloc [OF small_heap_ready(2) s(1), of "[]"]] by simp
  have "heap_step small_limit (s1, [(0x80007C, 4096)]) (Write 0 5 7) (s1\<lparr>mem := (mem s1)(0x800081 := 7)\<rparr>, [(0x80007C, 4096)])"
    using heap_step.store [of 0 "[(0x80007C, 4096)]" 5 small_limit s1 7] by simp
  moreover have "heap_step small_limit (s1, [(0x80007C, 4096)]) (Free 0) (s2, [])"
    using heap_step.free [of 0 "[(0x80007C, 4096)]" s1 s2] s(2) by (simp add: forget_def)
  ultimately show ?thesis using heap_run.step [OF r] s by auto
qed

text \<open>A machine whose memory manager is set up and whose heap range is still empty.\<close>

definition small_start :: machine where
  "small_start = small_vmm\<lparr>KHEAPSTART := 0x800000, K_HEAP_END := 0x800000\<rparr>"

lemma small_start_ok:
  "vmm_ok 9 small_start small_frames" "\<not> bit (kheap_spinlock small_start) 0" "arena 9 small_limit small_start small_frames"
  "K_HEAP_END small_start = 0x800000" "KHEAPSTART small_start = 0x800000"
proof -
  show "vmm_ok 9 small_start small_frames" "\<not> bit (kheap_spinlock small_start) 0"
      "K_HEAP_END small_start = 0x800000" "KHEAPSTART small_start = 0x800000"
    using small_vmm_ok vmm_ok_cong(1) [of small_start small_vmm 9 small_frames] by (simp_all add: small_start_def)
  have pages: "vmm_pages small_start small_frames = [0xffff800000104000, 0xffff800000103000, 0xffff800000102000, 0xffff800000101000, 0xffff800000100000]"
    "vmm_frameAlloc small_start = 0x5000" "active_pml4_table small_start = map_root small_start 0"
    using small_rooted_ok(3-6) by (simp_all add: small_start_def small_vmm_def map_root_def active_pml4_table_def)
  show "arena 9 small_limit small_start small_frames" unfolding arena_def off_vmm_def pages by (simp add: sep_def) (simp add: small_start_def sep_def)
qed

text \<open>After one allocation, a request of 17 pages has no room, and the bucket that is mapped for it is too small.\<close>

lemma small_full:
  "\<exists>s s1. heap_run small_limit (small_heap False, []) [Alloc 4096] (s, [(0x80007C, 4096)]) \<and> servable small_limit s 69632
    \<and> load64 (mem s) (p_size (0x80007C - 60)) = 4096 \<and> kmalloc s 69632 = Some (0, s1)"
proof -
  let ?cs = "[(0x800000, [(True, 4096), (False, 65352)])] :: bucket list"
  have a: "arena 9 small_limit (small_heap False) small_frames" by (rule small_arena)
  obtain s where s: "kmalloc (small_heap False) 4096 = Some (0x80007C, s)" "kernel_heap 9 s small_frames ?cs" "vmm_within (small_heap False) small_frames s small_frames"
      "K_HEAP_END s = 0x811000"
    using kmalloc_heap_list [where pre = "[]" and post = "[]", OF _ _ fresh_heap_request(3,1), of 9 "small_heap False" small_frames "0x800000"]
      small_heap_ok(1,3) [of False] by (auto simp: fresh_heap_request(2,4))
  have ar: "arena 9 small_limit s small_frames" using arena_within [OF a s(3)] s(4) by simp
  have fl: "frame_list 9 (mem s) (vmm_frameAlloc s) small_frames" using s(2) by (simp add: kernel_heap_def vmm_ok_def pt_ok_iff)
  then have bk: "backed small_limit s 69632" by (simp add: backed_def s(4) frame_list_def small_heap_requests(5))
  then have sv: "servable small_limit s 69632" by (simp add: servable_def small_heap_requests(1))
  have room: "unat (K_HEAP_END s) + unat (bucket_bytes 69632) < 18446744073709551616" by (simp add: s(4) small_heap_requests(5))
  have off: "off_vmm 9 s small_frames (K_HEAP_END s) (unat (bucket_bytes 69632))" by (rule backed_frames [OF s(2) ar bk]) simp_all
  have none: "\<forall>d\<in>set ?cs. first_fit (kmalloc_rounded 69632) (snd d) = None" by (simp add: small_heap_requests(2))
  have "bucket_bytes 69632 - 124 < kmalloc_rounded 69632" by (simp add: small_heap_requests)
  then obtain s1 where "kmalloc s 69632 = Some (0, s1)" using kmalloc_grow_no_fit [OF s(2) _ _ none room off] by auto
  moreover have "heap_run small_limit (small_heap False, []) [Alloc 4096] (s, [(0x80007C, 4096)])"
    using heap_run.step [OF heap_run.start heap_step.alloc [OF small_heap_ready(2) s(1), of "[]"]] by simp
  moreover have "load64 (mem s) (p_size (0x80007C - 60)) = 4096"
    using bucket_split(1) [OF heap_block(1) [of 9 s small_frames "[]" "0x800000" "[]" True 4096 "[(False, 65352)]" "[]"]] s(2)
    by (simp add: pebble_at_def)
  ultimately show ?thesis using sv by blast
qed

section \<open>Properties\<close>

text \<open>C3. The heap refines an ideal allocator. Whatever a client does with a fresh heap, in any order and for as long as it likes - requests that the
  rounding covers, with memory behind them, calls of \<open>kfree\<close> and enlarging calls of \<open>krealloc\<close> on pointers it holds, stores into its blocks -
  at every moment its pointers hold exactly the bytes that a list of independent byte strings would hold: new blocks are zero, a store
  changes one byte, an enlarged block keeps its bytes, and no growth of the heap, no other allocation, no merge and no unmapping of a bucket
  changes the contents of a block that is still held.\<close>
theorem heap_run_refines:
  assumes "heap_ready cap lim s0" "heap_run lim (s0, []) es (s, L)"
  shows "\<exists>bss. ideal_run es bss \<and> length bss = length L \<and> (\<forall>i<length L. length (bss ! i) = unat (snd (L ! i))
    \<and> (\<forall>j<unat (snd (L ! i)). mem s (fst (L ! i) + of_nat j) = bss ! i ! j))"
  by (rule heap_run_blocks [OF assms]) (auto simp: blocks_hold_def block_holds_def)

theorem heap_run_refines_witness:
  "\<exists>s. heap_run small_limit (small_heap False, []) [Alloc 4096, Write 0 5 7] (s, [(0x80007C, 4096)])
    \<and> mem s 0x800081 = 7 \<and> mem s 0x800080 = 0"
  proof -
  obtain s where s: "heap_run small_limit (small_heap False, []) [Alloc 4096, Write 0 5 7] (s, [(0x80007C, 4096)])" using small_run by blast
  have "bss = [(replicate 4096 0)[5 := 7]]" if "ideal_run [Alloc 4096, Write 0 5 7] bss" for bss
    using that ideal_run_simps(2) [of "[Alloc 4096]"] ideal_run_simps(2) [of "[]"] by (simp add: ideal_run_simps(1))
  with heap_run_refines [OF small_heap_ready(1) s]
  have "mem s (0x80007C + of_nat j) = ((replicate 4096 0)[5 := 7] :: u8 list) ! j" if "j < 4096" for j using that by fastforce
  from this [of 5] this [of 4] show ?thesis using s by (auto simp: nth_list_update)
qed

text \<open>C4. The invariant of all runs: the list of buckets, the page tables and the frame list stay well formed; the blocks a client holds never
  overlap, and none of their bytes lies in a page table, in a free frame or in the list of free frames, so that no store
  of the client can damage them.\<close>
theorem heap_run_invariant:
  assumes "heap_ready cap lim s0" "heap_run lim (s0, []) es (s, L)"
  shows "\<exists>fs cs. kernel_heap cap s fs cs
    \<and> (\<forall>i<length L. \<forall>x. unat (x - fst (L ! i)) < unat (snd (L ! i)) \<longrightarrow>
        (\<forall>j<length L. j \<noteq> i \<longrightarrow> \<not> unat (x - fst (L ! j)) < unat (snd (L ! j)))
        \<and> (\<forall>t\<in>set (vmm_pages s fs). \<not> unat (x - t) < 4096) \<and> \<not> unat (x - vmm_frameAlloc s) < 24 + 8 * cap)"
proof -
  obtain fs cs us bss where h: "kernel_heap cap s fs cs" "mset (in_use cs) = mset us" "blocks_hold (mem s) us L bss"
      "stands_for (\<lambda>r M. \<exists>cs. heap_at cap lim r s cs \<and> mset (in_use cs) = M) (mem s) (refusals es) L bss"
    by (rule heap_run_blocks [OF assms])
  have "us ! i \<in> set (in_use cs)" if "i < length L" for i using h(2,3) that by (metis blocks_hold_def nth_mem set_mset_mset)
  then have "(fst (L ! i), snd (us ! i)) \<in> set (in_use cs)" "unat (snd (L ! i)) \<le> unat (snd (us ! i))" if "i < length L" for i
    using that h(3) by (simp_all add: blocks_hold_def block_holds_def) (metis prod.collapse)
  moreover have "\<not> unat (x - fst (L ! j)) < unat (snd (L ! j))"
    if "i < length L" "j < length L" "j \<noteq> i" "unat (x - fst (L ! i)) < unat (snd (L ! i))" for i j x
    using run.stands_apart [OF h(4), of j i x] that by simp
  ultimately show ?thesis using h(1) block_off_vmm [OF h(1)] by (intro exI [of _ fs] exI [of _ cs]) (meson less_le_trans)
qed

theorem heap_run_invariant_witness:
  "\<exists>s fs cs. heap_run small_limit (small_heap False, []) [Alloc 4096, Write 0 5 7] (s, [(0x80007C, 4096)])
    \<and> kernel_heap 9 s fs cs \<and> (\<forall>t\<in>set (vmm_pages s fs). \<not> unat (0x800081 - t) < 4096)"
  using small_run heap_run_invariant [OF small_heap_ready(1), of "[Alloc 4096, Write 0 5 7]" _ "[(0x80007C, 4096)]"] by fastforce

text \<open>C5. Nothing is lost to fragmentation: when the client has freed every block, each bucket is one free block again, however
  the allocations and frees were interleaved, and behind the first bucket there are no more buckets than requests that were refused.\<close>
theorem heap_run_restores:
  assumes "heap_ready cap lim s0" "heap_run lim (s0, []) es (s, [])"
  shows "\<exists>fs c ds. kernel_heap cap s fs (c # ds) \<and> (\<forall>d\<in>set (c # ds). \<exists>n. snd d = [(False, n)]) \<and> length ds \<le> refusals es"
proof -
  obtain fs cs us bss where h: "kernel_heap cap s fs cs" "shape (refusals es) cs" "mset (in_use cs) = mset us" "blocks_hold (mem s) us [] bss"
    by (rule heap_run_blocks [OF assms])
  obtain c ds where cs: "cs = c # ds" by (rule heap_start [OF h(1)])
  have "in_use cs = []" using h(3,4) by (simp add: blocks_hold_def)
  then have un: "idle d" if "d \<in> set cs" for d using that by (auto simp: idle_def in_use_def)
  then have "filter idle ds = ds" by (auto simp: cs intro!: filter_True)
  then have "length ds \<le> refusals es" using h(2) by (simp add: shape_def cs)
  moreover have "\<exists>n. snd d = [(False, n)]" if d: "d \<in> set cs" for d
  proof (rule packed_unused)
    show "packed (snd d)" "used (fst d + 64) (snd d) = []" using h(2) un [OF d] d by (auto simp: shape_def idle_def)
    show "snd d \<noteq> []" using h(1) d chain_members [of "mem s" 0 cs d] by (auto simp: kernel_heap_def heap_list_def bucket_ok_def bucket_rep_def)
  qed
  ultimately show ?thesis using h(1) cs by blast
qed

theorem heap_run_restores_witness:
  "\<exists>s fs c. heap_run small_limit (small_heap False, []) [Alloc 4096, Free 0] (s, []) \<and> kernel_heap 9 s fs [c] \<and> (\<exists>n. snd c = [(False, n)])"
  using small_run heap_run_restores [OF small_heap_ready(1), of "[Alloc 4096, Free 0]"] by (fastforce simp: refusals_def)

text \<open>C31. \<open>kmalloc_init\<close> establishes the state in which a run may begin: with the heap range still empty, four free frames and the memory manager in
  order it returns the start of the range, and the machine has one bucket there with one free block and everything the invariant of the
  runs asks for.\<close>
theorem kmalloc_init_ready:
  assumes "vmm_ok cap s (f # fs)" "\<not> bit (kheap_spinlock s) 0" "K_HEAP_END s = KHEAPSTART s" "KHEAPSTART s \<noteq> 0"
    "3 \<le> length fs" "unat sz \<le> 65536" "arena cap lim s (f # fs)" "unat (KHEAPSTART s) + 69632 \<le> lim"
  shows "\<exists>s'. kmalloc_init s sz = Some (KHEAPSTART s, s') \<and> heap_ready cap lim s'"
  using kmalloc_init_heap [OF assms] unfolding heap_ready_def by metis

theorem kmalloc_init_ready_witness:
  "\<exists>s'. kmalloc_init small_start 0x1000 = Some (0x800000, s') \<and> heap_ready 9 small_limit s'"
  using kmalloc_init_ready [OF small_start_ok(1,2), of "0x1000" small_limit] small_start_ok(3-5) by simp

text \<open>C22. When \<open>krealloc\<close> cannot get a larger block the old one is not kept: it answers null and has freed the block, so that
  the heap holds one block less than the client had and the bytes are lost, although the caller was told that the call failed.\<close>
theorem krealloc_failure_frees:
  assumes "heap_ready cap lim s0" "heap_run lim (s0, []) es (s, L)" "i < length L" "servable lim s sz"
    "load64 (mem s) (p_size (fst (L ! i) - 60)) < sz" "kmalloc s sz = Some (0, s1)"
  shows "\<exists>s' fs cs. krealloc s (fst (L ! i)) sz = Some (0, s') \<and> heap_run lim (s0, []) (es @ [Lose i sz]) (s', forget i L)
    \<and> kernel_heap cap s' fs cs \<and> length (in_use cs) = length L - 1"
proof -
  obtain bss where "stands_for (\<lambda>r M. \<exists>cs. heap_at cap lim r s cs \<and> mset (in_use cs) = M) (mem s) (refusals es) L bss"
    by (rule heap_run_blocks [OF assms(1,2)])
  from run.grow_stands [OF this assms(3,4)] obtain q s' where k: "krealloc s (fst (L ! i)) sz = Some (q, s')" using assms(5) by blast
  then have k0: "krealloc s (fst (L ! i)) sz = Some (0, s')" using krealloc_answer [OF assms(1-3,5,6) k] by simp
  have r: "heap_run lim (s0, []) (es @ [Lose i sz]) (s', forget i L)" by (rule heap_run.step [OF assms(2) heap_step.lose [OF assms(3-5) k0]])
  obtain fs cs us bss' where "kernel_heap cap s' fs cs" "mset (in_use cs) = mset us" "blocks_hold (mem s') us (forget i L) bss'"
    by (rule heap_run_blocks [OF assms(1) r])
  then have "kernel_heap cap s' fs cs" "length (in_use cs) = length L - 1"
    using length_forget [OF assms(3)] by (metis blocks_hold_def size_mset)+
  then show ?thesis using k0 r by blast
qed

theorem krealloc_failure_frees_witness:
  "\<exists>s s' fs cs. heap_run small_limit (small_heap False, []) [Alloc 4096] (s, [(0x80007C, 4096)]) \<and> krealloc s 0x80007C 69632 = Some (0, s')
    \<and> kernel_heap 9 s' fs cs \<and> in_use cs = []"
proof -
  obtain s s1 where s: "heap_run small_limit (small_heap False, []) [Alloc 4096] (s, [(0x80007C, 4096)])" "servable small_limit s 69632"
      "load64 (mem s) (p_size (0x80007C - 60)) = 4096" "kmalloc s 69632 = Some (0, s1)"
    using small_full by blast
  have "0 < length [(0x80007C, 4096) :: u64 \<times> u64]" by simp
  from krealloc_failure_frees [OF small_heap_ready(1) s(1) this s(2) _ ] s(3,4) show ?thesis using s(1) by fastforce
qed

end
