(* ===== verification/Idt.thy ===== *)
theory Idt
  imports Machine
begin

text \<open>
  The interrupt descriptor table, \<^verbatim>\<open>kernel/src/arch/interrupts/idt.c\<close> and \<^verbatim>\<open>idt.h\<close>, and the exception
  handler of \<^verbatim>\<open>isr.c\<close>. Every table has 256 entries and is indexed by a byte, so it is a function on
  \<^typ>\<open>u8\<close>. The addresses of the assembler stubs, \<open>isr_stub_table\<close>, are a parameter.
\<close>

section \<open>Descriptors\<close>

definition IDT_MAX_DESCRIPTORS :: nat where "IDT_MAX_DESCRIPTORS = 256"
definition IDT_CPU_EXCEPTION_COUNT :: u8 where "IDT_CPU_EXCEPTION_COUNT = 32"
definition IDT_DESCRIPTOR_X32_INTERRUPT :: u8 where "IDT_DESCRIPTOR_X32_INTERRUPT = 0x0E"
definition IDT_DESCRIPTOR_X32_TRAP :: u8 where "IDT_DESCRIPTOR_X32_TRAP = 0x0F"
definition IDT_DESCRIPTOR_RING1 :: u8 where "IDT_DESCRIPTOR_RING1 = 0x40"
definition IDT_DESCRIPTOR_RING2 :: u8 where "IDT_DESCRIPTOR_RING2 = 0x20"
definition IDT_DESCRIPTOR_RING3 :: u8 where "IDT_DESCRIPTOR_RING3 = 0x60"
definition IDT_DESCRIPTOR_PRESENT :: u8 where "IDT_DESCRIPTOR_PRESENT = 0x80"
definition IDT_DESCRIPTOR_EXCEPTION :: u8 where
  "IDT_DESCRIPTOR_EXCEPTION = IDT_DESCRIPTOR_X32_TRAP OR IDT_DESCRIPTOR_PRESENT"
definition IDT_DESCRIPTOR_EXTERNAL :: u8 where
  "IDT_DESCRIPTOR_EXTERNAL = IDT_DESCRIPTOR_X32_INTERRUPT OR IDT_DESCRIPTOR_PRESENT"
definition IDT_DESCRIPTOR_CALL :: u8 where
  "IDT_DESCRIPTOR_CALL = (IDT_DESCRIPTOR_X32_INTERRUPT OR IDT_DESCRIPTOR_PRESENT) OR IDT_DESCRIPTOR_RING3"

record idt_entry_t =
  isr_low :: u16
  kernel_cs :: u16
  ist :: u8
  attributes :: u8
  isr_mid :: u16
  isr_high :: u32
  reserved :: u32

record idtr_t =
  limit :: u16
  base :: u64

text \<open>
  The static state: the table \<open>__idt\<close> and its address, the descriptor-table register's image, the allocated
  vectors and the handlers, what \<open>lidt\<close> last loaded, and the processor's interrupt flag.
\<close>

record idt_state =
  idt_entries :: "u8 \<Rightarrow> idt_entry_t"
  idt_address :: u64
  idtr :: idtr_t
  vectors :: "u8 \<Rightarrow> bool"
  irq_handlers :: "u8 \<Rightarrow> u64"
  loaded :: "idtr_t option"
  interrupt_flag :: bool

definition idt_set_descriptor :: "idt_state \<Rightarrow> u8 \<Rightarrow> u64 \<Rightarrow> u8 \<Rightarrow> u8 \<Rightarrow> idt_state" where
  "idt_set_descriptor s vector isr flags i =
     s\<lparr>idt_entries := (idt_entries s)(vector :=
       \<lparr>isr_low = ucast (isr AND 0xFFFF), kernel_cs = 40, ist = i, attributes = flags,
        isr_mid = ucast (drop_bit 16 isr AND 0xFFFF), isr_high = ucast (drop_bit 32 isr AND 0xFFFFFFFF), reserved = 0\<rparr>)\<rparr>"

text \<open>\<open>sizeof(idtr_t)\<close> is 10: two bytes and eight, packed.\<close>

definition sizeof_idtr :: nat where "sizeof_idtr = 10"
definition sizeof_idt_entry :: nat where "sizeof_idt_entry = 16"

text \<open>The assembler routine: \<open>cli\<close>, \<open>lidt\<close>, \<open>popfq\<close> restores the flag, and \<open>sti\<close> before the return sets it.\<close>

definition idt_reload :: "idt_state \<Rightarrow> idt_state" where
  "idt_reload s =
     (let flags = interrupt_flag s;
          s = s\<lparr>interrupt_flag := False\<rparr>;
          s = s\<lparr>loaded := Some (idtr s)\<rparr>;
          s = s\<lparr>interrupt_flag := flags\<rparr>
      in s\<lparr>interrupt_flag := True\<rparr>)"

function idt_assemble_loop :: "(u8 \<Rightarrow> u64) \<Rightarrow> idt_state \<Rightarrow> u8 \<Rightarrow> idt_state" where
  "idt_assemble_loop isr_stub_table s vector =
     (if vector < IDT_CPU_EXCEPTION_COUNT then
        let s = idt_set_descriptor s vector (isr_stub_table vector) IDT_DESCRIPTOR_EXCEPTION 0;
            s = s\<lparr>vectors := (vectors s)(vector := True)\<rparr>
        in idt_assemble_loop isr_stub_table s (vector + 1)
      else s)"
  by pat_completeness auto
termination
proof (relation "measure (\<lambda>(t, s, v). 32 - unat v)", simp, clarify)
  fix t s x xa and vector :: u8
  assume "vector < IDT_CPU_EXCEPTION_COUNT"
  then have "unat vector < 32" by (simp add: IDT_CPU_EXCEPTION_COUNT_def word_less_nat_alt)
  moreover then have "unat (vector + 1) = unat vector + 1" by (simp add: unat_word_ariths)
  ultimately show "((t, idt_set_descriptor s vector (t vector) IDT_DESCRIPTOR_EXCEPTION 0
      \<lparr>vectors := (vectors (idt_set_descriptor s vector (t vector) IDT_DESCRIPTOR_EXCEPTION 0))(vector := True)\<rparr>,
      vector + 1), t, s, vector) \<in> measure (\<lambda>(t, s, v). 32 - unat v)" by simp
qed

declare idt_assemble_loop.simps [simp del]

definition idt_assemble :: "(u8 \<Rightarrow> u64) \<Rightarrow> idt_state \<Rightarrow> idt_state" where
  "idt_assemble isr_stub_table s =
     (let s = s\<lparr>idtr := (idtr s)\<lparr>base := idt_address s\<rparr>\<rparr>;
          s = s\<lparr>idtr := (idtr s)\<lparr>limit := of_nat (sizeof_idtr * IDT_MAX_DESCRIPTORS - 1)\<rparr>\<rparr>;
          s = idt_assemble_loop isr_stub_table s 0
      in idt_reload s)"

definition idt_free_vector :: "idt_state \<Rightarrow> u8 \<Rightarrow> idt_state" where
  "idt_free_vector s vector =
     (let s = idt_set_descriptor s vector 0 0 0;
          s = s\<lparr>irq_handlers := (irq_handlers s)(vector := 0)\<rparr>
      in s\<lparr>vectors := (vectors s)(vector := False)\<rparr>)"

text \<open>The loop of \<open>idt_allocate_vector\<close>, from index \<open>i\<close>.\<close>

function allocate_loop :: "idt_state \<Rightarrow> nat \<Rightarrow> u8 \<times> idt_state" where
  "allocate_loop s i =
     (if i < IDT_MAX_DESCRIPTORS then
        if \<not> vectors s (of_nat i) then (of_nat i, s\<lparr>vectors := (vectors s)(of_nat i := True)\<rparr>)
        else allocate_loop s (i + 1)
      else (0, s))"
  by pat_completeness auto
termination
  by (relation "measure (\<lambda>(s, i). 256 - i)") (auto simp: IDT_MAX_DESCRIPTORS_def)

declare allocate_loop.simps [simp del]

definition idt_allocate_vector :: "idt_state \<Rightarrow> u8 \<times> idt_state" where
  "idt_allocate_vector s = allocate_loop s 0"

section \<open>The exception handler\<close>

record isr_stack_frame_t =
  frame_cr4 :: u64 
  frame_cr3 :: u64 
  frame_cr2 :: u64 
  frame_cr1 :: u64 
  frame_cr0 :: u64
  r15 :: u64 
  r14 :: u64 
  r13 :: u64 
  r12 :: u64 
  r11 :: u64 
  r10 :: u64 
  r9 :: u64 
  r8 :: u64
  frame_rdi :: u64 
  frame_rsi :: u64 
  frame_rdx :: u64 
  frame_rcx :: u64 
  frame_rbx :: u64 
  frame_rax :: u64
  frame_rbp :: u64 
  frame_vector :: u64 
  error_code :: u64 
  rip :: u64 
  cs :: u64 
  rflags :: u64 
  rsp :: u64 
  dss :: u64

text \<open>\<open>isr_exception_handler\<close> ends in a loop of \<open>hlt\<close>: its value is the state in which it stays.\<close>

definition isr_exception_handler :: "machine \<Rightarrow> isr_stack_frame_t \<Rightarrow> machine" where
  "isr_exception_handler s frame =
     (let s = say (Tty_print (cbytes (''Emergency Frog Situation!!!'' @ [CHR 0x0A]))) s
      in say_serial (''Exception Occured! '' @ [CHR 0x0A]) s)"

definition log_isr_exception :: "machine \<Rightarrow> isr_stack_frame_t \<Rightarrow> machine" where
  "log_isr_exception s frame = s"

section \<open>Lemmas\<close>

text \<open>The address that a descriptor names.\<close>

definition isr_of :: "idt_entry_t \<Rightarrow> u64" where
  "isr_of d = ucast (isr_low d) OR push_bit 16 (ucast (isr_mid d)) OR push_bit 32 (ucast (isr_high d))"

lemma isr_halves:
  fixes isr :: u64
  shows "ucast (ucast (isr AND 0xFFFF) :: u16) OR push_bit 16 (ucast (ucast (drop_bit 16 isr AND 0xFFFF) :: u16))
    OR push_bit 32 (ucast (ucast (drop_bit 32 isr AND 0xFFFFFFFF) :: u32)) = isr" (is "?l = _")
proof (rule bit_word_eqI)
  have e: "(0xFFFF :: u64) = mask 16" "(0xFFFFFFFF :: u64) = mask 32" by (simp_all add: mask_eq_exp_minus_1)
  fix n assume "n < LENGTH(64)"
  then consider "n < 16" | "16 \<le> n" "n < 32" | "32 \<le> n" "n < 64" by fastforce
  then show "bit ?l n = bit isr n"
    unfolding e by cases (auto simp: bit_simps)
qed

lemma isr_of_set: "isr_of (idt_entries (idt_set_descriptor s v isr fl i) v) = isr"
  using isr_halves [of isr] by (simp add: idt_set_descriptor_def isr_of_def)

lemma set_descriptor_other: "w \<noteq> v \<Longrightarrow> idt_entries (idt_set_descriptor s v isr fl i) w = idt_entries s w"
  by (simp add: idt_set_descriptor_def)

lemma set_descriptor_fields [simp]:
  "vectors (idt_set_descriptor s v isr fl i) = vectors s" "idtr (idt_set_descriptor s v isr fl i) = idtr s"
  "irq_handlers (idt_set_descriptor s v isr fl i) = irq_handlers s" "loaded (idt_set_descriptor s v isr fl i) = loaded s"
  "idt_address (idt_set_descriptor s v isr fl i) = idt_address s"
  "attributes (idt_entries (idt_set_descriptor s v isr fl i) v) = fl" "ist (idt_entries (idt_set_descriptor s v isr fl i) v) = i"
  "kernel_cs (idt_entries (idt_set_descriptor s v isr fl i) v) = 40"
  by (simp_all add: idt_set_descriptor_def)

text \<open>
  What the loop has done once it is past vector \<open>k\<close>: the vectors from \<open>k\<close> to 31 name their stubs and are
  taken, everything else is as it was.
\<close>

definition stubs_installed :: "(u8 \<Rightarrow> u64) \<Rightarrow> nat \<Rightarrow> idt_state \<Rightarrow> idt_state \<Rightarrow> bool" where
  "stubs_installed t k s s' \<longleftrightarrow>
     idtr s' = idtr s \<and> irq_handlers s' = irq_handlers s \<and> idt_address s' = idt_address s
     \<and> (\<forall>v. k \<le> unat v \<and> unat v < 32 \<longrightarrow>
           isr_of (idt_entries s' v) = t v \<and> attributes (idt_entries s' v) = IDT_DESCRIPTOR_EXCEPTION
           \<and> ist (idt_entries s' v) = 0 \<and> kernel_cs (idt_entries s' v) = 40 \<and> vectors s' v)
     \<and> (\<forall>v. \<not> (k \<le> unat v \<and> unat v < 32) \<longrightarrow> idt_entries s' v = idt_entries s v \<and> vectors s' v = vectors s v)"

lemma stubs_installed_step:
  fixes k :: u8
  defines "d s t \<equiv> (idt_set_descriptor s k (t k) IDT_DESCRIPTOR_EXCEPTION 0)\<lparr>vectors := (vectors s)(k := True)\<rparr>"
  assumes k: "unat k < 32" and later: "stubs_installed t (Suc (unat k)) (d s t) s'"
  shows "stubs_installed t (unat k) s s'"
proof -
  have "idt_entries s' k = idt_entries (d s t) k" "vectors s' k = vectors (d s t) k"
    using later k by (simp_all add: stubs_installed_def)
  then have at: "isr_of (idt_entries s' k) = t k" "attributes (idt_entries s' k) = IDT_DESCRIPTOR_EXCEPTION"
      "ist (idt_entries s' k) = 0" "kernel_cs (idt_entries s' k) = 40" "vectors s' k"
    using isr_of_set [of s k "t k" IDT_DESCRIPTOR_EXCEPTION 0] by (simp_all add: d_def)
  have other: "idt_entries (d s t) v = idt_entries s v" "vectors (d s t) v = vectors s v" if "v \<noteq> k" for v
    using that by (simp_all add: d_def set_descriptor_other)
  have ne: "Suc (unat k) \<le> unat v \<longleftrightarrow> unat k \<le> unat v" if "v \<noteq> k" for v :: u8
    using that by (auto simp: word_unat_eq_iff)
  have "isr_of (idt_entries s' v) = t v \<and> attributes (idt_entries s' v) = IDT_DESCRIPTOR_EXCEPTION
      \<and> ist (idt_entries s' v) = 0 \<and> kernel_cs (idt_entries s' v) = 40 \<and> vectors s' v" if "unat k \<le> unat v" "unat v < 32" for v
    using at later that ne [of v] unfolding stubs_installed_def by (cases "v = k") auto
  moreover have "idt_entries s' v = idt_entries s v \<and> vectors s' v = vectors s v"
    if "\<not> (unat k \<le> unat v \<and> unat v < 32)" for v
    using later that k ne [of v] other [of v] unfolding stubs_installed_def by (cases "v = k") auto
  ultimately show ?thesis using later by (simp add: stubs_installed_def d_def)
qed

lemma assemble_loop_installs:
  "unat k \<le> 32 \<Longrightarrow> stubs_installed t (unat k) s (idt_assemble_loop t s k)"
proof (induction t s k rule: idt_assemble_loop.induct)
  case (1 t s k)
  show ?case
  proof (cases "k < IDT_CPU_EXCEPTION_COUNT")
    case False
    then have "unat k = 32" using 1(2) by (simp add: IDT_CPU_EXCEPTION_COUNT_def word_less_nat_alt)
    then show ?thesis using False by (auto simp: idt_assemble_loop.simps [of t s k] stubs_installed_def)
  next
    case True
    then have k: "unat k < 32" by (simp add: IDT_CPU_EXCEPTION_COUNT_def word_less_nat_alt)
    then have k1: "unat (k + 1) = Suc (unat k)" by (simp add: unat_word_ariths)
    show ?thesis
      using 1(1) [OF True refl refl] k k1 True stubs_installed_step [OF k]
      by (simp add: idt_assemble_loop.simps [of t s k])
  qed
qed

lemma assemble_vectors: "vectors (idt_assemble t s) v = (unat v < 32 \<or> vectors s v)"
proof -
  let ?s = "s\<lparr>idtr := (idtr s)\<lparr>base := idt_address s, limit := of_nat (sizeof_idtr * IDT_MAX_DESCRIPTORS - 1)\<rparr>\<rparr>"
  have v: "vectors (idt_assemble t s) = vectors (idt_assemble_loop t ?s 0)"
    by (simp add: idt_assemble_def idt_reload_def Let_def)
  have ok: "stubs_installed t 0 ?s (idt_assemble_loop t ?s 0)" using assemble_loop_installs [of 0 t ?s] by simp
  then show ?thesis unfolding v stubs_installed_def by (cases "unat v < 32") simp_all
qed

lemma allocate_loop_first:
  assumes "i \<le> j" "j < 256" "\<not> vectors s (of_nat j)" "\<And>k. i \<le> k \<Longrightarrow> k < j \<Longrightarrow> vectors s (of_nat k)"
  shows "allocate_loop s i = (of_nat j, s\<lparr>vectors := (vectors s)(of_nat j := True)\<rparr>)"
  using assms
proof (induction "j - i" arbitrary: i)
  case 0
  then show ?case by (simp add: allocate_loop.simps [of s i] IDT_MAX_DESCRIPTORS_def fun_upd_def)
next
  case (Suc n)
  then have "vectors s (of_nat i)" "i < 256" "allocate_loop s (Suc i) = (of_nat j, s\<lparr>vectors := (vectors s)(of_nat j := True)\<rparr>)"
    by simp_all
  then show ?case by (simp add: allocate_loop.simps [of s i] IDT_MAX_DESCRIPTORS_def)
qed

lemma allocate_loop_full:
  "(\<And>k. i \<le> k \<Longrightarrow> k < 256 \<Longrightarrow> vectors s (of_nat k)) \<Longrightarrow> allocate_loop s i = (0, s)"
  by (induction s i rule: allocate_loop.induct) (simp add: allocate_loop.simps IDT_MAX_DESCRIPTORS_def)

lemma allocate_lowest:
  assumes "\<not> vectors s w"
  shows "\<exists>v\<le>w. \<not> vectors s v \<and> (\<forall>u<v. vectors s u)
    \<and> idt_allocate_vector s = (v, s\<lparr>vectors := (vectors s)(v := True)\<rparr>)"
proof -
  define j where "j = (LEAST j. \<not> vectors s (of_nat j))"
  have j: "\<not> vectors s (of_nat j)" "j \<le> unat w" "\<And>k. k < j \<Longrightarrow> vectors s (of_nat k)"
    using LeastI [of "\<lambda>j. \<not> vectors s (of_nat j)" "unat w"] Least_le [of "\<lambda>j. \<not> vectors s (of_nat j)" "unat w"]
      not_less_Least [of _ "\<lambda>j. \<not> vectors s (of_nat j)"] assms by (auto simp: j_def)
  have lt: "j < 256" using j(2) unsigned_less [where ?'a = nat, of w] by simp
  then have u: "unat (of_nat j :: u8) = j" by (simp add: unat_of_nat)
  have "vectors s u" if "u < of_nat j" for u
    using j(3) [of "unat u"] that u by (simp add: word_less_nat_alt)
  moreover have "idt_allocate_vector s = (of_nat j, s\<lparr>vectors := (vectors s)(of_nat j := True)\<rparr>)"
    unfolding idt_allocate_vector_def using allocate_loop_first [of 0 j s] j lt by blast
  ultimately show ?thesis using j u by (intro exI [of _ "of_nat j"]) (auto simp: word_le_nat_alt)
qed

section \<open>Properties\<close>

text \<open>C35. \<open>idt_assemble\<close> installs the stub of every processor exception 0 to 31 as a present trap gate of
  the kernel's code segment and marks those vectors as taken; it changes no other descriptor and no other mark, and
  it leaves interrupts enabled. The processor is given the table's address, but a limit of 2559, ten bytes a
  descriptor where a descriptor has sixteen: exactly the vectors below 160 have their descriptor within
  the limit.\<close>
theorem idt_assemble_installs:
  fixes t :: "u8 \<Rightarrow> u64" and s :: idt_state
  defines "s' \<equiv> idt_assemble t s"
  shows "(\<forall>v. unat v < 32 \<longrightarrow> isr_of (idt_entries s' v) = t v \<and> attributes (idt_entries s' v) = 0x8F
        \<and> ist (idt_entries s' v) = 0 \<and> kernel_cs (idt_entries s' v) = 40 \<and> vectors s' v)
    \<and> (\<forall>v. 32 \<le> unat v \<longrightarrow> idt_entries s' v = idt_entries s v \<and> vectors s' v = vectors s v)
    \<and> irq_handlers s' = irq_handlers s \<and> interrupt_flag s'
    \<and> (\<exists>r. loaded s' = Some r \<and> base r = idt_address s
          \<and> (\<forall>w :: u8. 16 * unat w + 15 \<le> unat (limit r) \<longleftrightarrow> unat w < 160))"
proof -
  define s0 where "s0 = s\<lparr>idtr := \<lparr>limit = 2559, base = idt_address s\<rparr>\<rparr>"
  have s': "s' = idt_reload (idt_assemble_loop t s0 0)"
    unfolding s'_def s0_def idt_assemble_def
    by (cases "idtr s") (simp add: sizeof_idtr_def IDT_MAX_DESCRIPTORS_def)
  have ok: "stubs_installed t 0 s0 (idt_assemble_loop t s0 0)"
    using assemble_loop_installs [of 0 t s0] by simp
  have attr: "IDT_DESCRIPTOR_EXCEPTION = 0x8F"
    by (simp add: IDT_DESCRIPTOR_EXCEPTION_def IDT_DESCRIPTOR_X32_TRAP_def IDT_DESCRIPTOR_PRESENT_def)
  have "loaded s' = Some \<lparr>limit = 2559, base = idt_address s\<rparr>"
    using ok unfolding s' stubs_installed_def by (simp add: idt_reload_def s0_def)
  moreover have "16 * unat w + 15 \<le> 2559 \<longleftrightarrow> unat w < 160" for w :: u8 by arith
  ultimately have "\<exists>r. loaded s' = Some r \<and> base r = idt_address s
      \<and> (\<forall>w :: u8. 16 * unat w + 15 \<le> unat (limit r) \<longleftrightarrow> unat w < 160)"
    by simp
  then show ?thesis
    using ok unfolding s' stubs_installed_def by (simp add: idt_reload_def attr s0_def)
qed

text \<open>A table at address 4096 with nothing in it, and stubs sixteen bytes apart.\<close>

definition empty_idt :: idt_state where
  "empty_idt = \<lparr>idt_entries = (\<lambda>_. \<lparr>isr_low = 0, kernel_cs = 0, ist = 0, attributes = 0, isr_mid = 0, isr_high = 0, reserved = 0\<rparr>),
     idt_address = 4096, idtr = \<lparr>limit = 0, base = 0\<rparr>, vectors = (\<lambda>_. False), irq_handlers = (\<lambda>_. 0), loaded = None,
     interrupt_flag = False\<rparr>"

definition spaced_stubs :: "u8 \<Rightarrow> u64" where
  "spaced_stubs v = 0xFFFFFFFF80001000 + 16 * ucast v"

theorem idt_assemble_installs_witness:
  "isr_of (idt_entries (idt_assemble spaced_stubs empty_idt) 14) = 0xFFFFFFFF800010E0
   \<and> \<not> vectors (idt_assemble spaced_stubs empty_idt) 32"
  using idt_assemble_installs [of spaced_stubs empty_idt] by (simp add: spaced_stubs_def empty_idt_def)

text \<open>\<open>idt_allocate_vector\<close> hands out the lowest vector that is not taken and takes it; when all 256 are
  taken it changes nothing and answers 0, which is also its answer when vector 0 is the lowest free one. Once the table
  is assembled a vector it hands out is never one of the processor's exceptions, and freeing a vector makes
  it available again.\<close>
theorem idt_allocate_vector_lowest:
  "(\<forall>w. \<not> vectors s w \<longrightarrow> (\<exists>v\<le>w. \<not> vectors s v \<and> (\<forall>u<v. vectors s u)
        \<and> idt_allocate_vector s = (v, s\<lparr>vectors := (vectors s)(v := True)\<rparr>)))
   \<and> ((\<forall>u. vectors s u) \<longrightarrow> idt_allocate_vector s = (0, s))
   \<and> (\<forall>w. \<not> vectors (idt_assemble t s) w \<longrightarrow> 32 \<le> unat (fst (idt_allocate_vector (idt_assemble t s))))
   \<and> (\<forall>v. (\<forall>u<v. vectors s u) \<longrightarrow> fst (idt_allocate_vector (idt_free_vector s v)) = v)"
proof (intro conjI allI impI)
  show "\<exists>v\<le>w. \<not> vectors s v \<and> (\<forall>u<v. vectors s u)
     \<and> idt_allocate_vector s = (v, s\<lparr>vectors := (vectors s)(v := True)\<rparr>)" if "\<not> vectors s w" for w
    using allocate_lowest [OF that] .
  show "idt_allocate_vector s = (0, s)" if "\<forall>u. vectors s u"
    unfolding idt_allocate_vector_def using that by (intro allocate_loop_full) simp
  show "32 \<le> unat (fst (idt_allocate_vector (idt_assemble t s)))" if "\<not> vectors (idt_assemble t s) w" for w
    using allocate_lowest [OF that] assemble_vectors [of t s] by (fastforce simp: not_less [symmetric])
  show "fst (idt_allocate_vector (idt_free_vector s v)) = v" if low: "\<forall>u<v. vectors s u" for v
  proof -
    have v: "vectors (idt_free_vector s v) = (vectors s)(v := False)" by (simp add: idt_free_vector_def Let_def)
    obtain x where x: "x \<le> v" "\<not> vectors (idt_free_vector s v) x" "fst (idt_allocate_vector (idt_free_vector s v)) = x"
      using allocate_lowest [of "idt_free_vector s v" v] v by auto
    have "x = v" using low x(1,2) v by (auto simp: order_le_less split: if_splits)
    then show ?thesis using x(3) by simp
  qed
qed

theorem idt_allocate_vector_lowest_witness:
  "32 \<le> unat (fst (idt_allocate_vector (idt_assemble spaced_stubs empty_idt)))
   \<and> idt_allocate_vector (empty_idt\<lparr>vectors := \<lambda>_. True\<rparr>) = (0, empty_idt\<lparr>vectors := \<lambda>_. True\<rparr>)
   \<and> fst (idt_allocate_vector (idt_free_vector (empty_idt\<lparr>vectors := \<lambda>_. True\<rparr>) 40)) = 40
   \<and> fst (idt_allocate_vector empty_idt) = 0"
proof -
  have "\<not> vectors (idt_assemble spaced_stubs empty_idt) 32"
    by (simp add: assemble_vectors empty_idt_def)
  moreover have "fst (idt_allocate_vector empty_idt) = 0"
    using idt_allocate_vector_lowest [of empty_idt spaced_stubs, THEN conjunct1, rule_format, of 0]
    by (auto simp: empty_idt_def)
  ultimately show ?thesis
    using idt_allocate_vector_lowest [of "empty_idt\<lparr>vectors := \<lambda>_. True\<rparr>" spaced_stubs]
      idt_allocate_vector_lowest [of empty_idt spaced_stubs] by auto
qed

end
