(* ===== verification/Isr.thy ===== *)
theory Isr
  imports Idt
begin

text \<open>
  The assembler entry of the exceptions, \<^verbatim>\<open>kernel/src/arch/interrupts/isr.asm\<close>. Its instructions are a datatype, executed one by
  one on the registers and the stack; the macros of the source are lists of instructions. A stub ends in a jump to
  \<open>isr_xframe_assembler\<close>, so a run is the code of the stub followed by that code. The addresses of labels are a parameter, and so is
  what the segment registers accept. An instruction that the processor refuses ends the run with a fault.
\<close>

section \<open>Instructions\<close>

datatype reg = RAX | RBX | RCX | RDX | RSI | RDI | R8 | R9 | R10 | R11 | R12 | R13 | R14 | R15 | RBP
datatype creg = CR0 | CR2 | CR3 | CR4
datatype label = Xframe_assembler | No_task | Handler

text \<open>
  \<open>iretq\<close> loads the last five fields but one. \<open>address_space\<close> is the memory as it is seen through the tables that a value of \<open>cr3\<close> names.
\<close>

record core =
  regs :: "reg \<Rightarrow> u64"
  sp :: u64
  cregs :: "creg \<Rightarrow> u64"
  seg_ds :: u16
  seg_es :: u16
  stack_mem :: memory
  core_rip :: u64
  core_cs :: u16
  core_rflags :: u64
  core_ss :: u16
  address_space :: "u64 \<Rightarrow> memory"

datatype instr =
    Push reg
  | Push_imm u64
  | Pop reg
  | Mov_rbp_rsp
  | Mov_rax_cr creg
  | Mov_cr_rax creg
  | Mov_ax_ds
  | Mov_ds_ax
  | Mov_es_ax
  | Xor_eax_eax
  | Lea_r15 label
  | Jmp_r15
  | Lea_rdi_rsp u64
  | Call_r15
  | Add_rsp u64
  | Iretq

definition push :: "u64 \<Rightarrow> core \<Rightarrow> core" where
  "push v c = c\<lparr>sp := sp c - 8, stack_mem := store64 (stack_mem c) (sp c - 8) v\<rparr>"

definition stack_top :: "core \<Rightarrow> u64" where
  "stack_top c = load64 (stack_mem c) (sp c)"

definition pop :: "core \<Rightarrow> core" where
  "pop c = c\<lparr>sp := sp c + 8\<rparr>"

definition set_reg :: "reg \<Rightarrow> u64 \<Rightarrow> core \<Rightarrow> core" where
  "set_reg r v c = c\<lparr>regs := (regs c)(r := v)\<rparr>"

text \<open>
  What an instruction does when it is carried out. A move to \<open>ax\<close> keeps the upper bits of \<open>rax\<close>; a move to \<open>eax\<close> clears them; a new value
  of \<open>cr3\<close> changes the memory that is seen. \<open>ret\<close> is the address that \<open>call\<close> pushes.
\<close>

primrec exec1 :: "(label \<Rightarrow> u64) \<Rightarrow> u64 \<Rightarrow> instr \<Rightarrow> core \<Rightarrow> core" where
  "exec1 L ret (Push r) c = push (regs c r) c"
| "exec1 L ret (Push_imm v) c = push v c"
| "exec1 L ret (Pop r) c = set_reg r (stack_top c) (pop c)"
| "exec1 L ret Mov_rbp_rsp c = set_reg RBP (sp c) c"
| "exec1 L ret (Mov_rax_cr k) c = set_reg RAX (cregs c k) c"
| "exec1 L ret (Mov_cr_rax k) c = c\<lparr>cregs := (cregs c)(k := regs c RAX),
     stack_mem := (if k = CR3 \<and> regs c RAX \<noteq> cregs c CR3 then address_space c (regs c RAX) else stack_mem c)\<rparr>"
| "exec1 L ret Mov_ax_ds c = set_reg RAX ((regs c RAX AND NOT 0xFFFF) OR ucast (seg_ds c)) c"
| "exec1 L ret Mov_ds_ax c = c\<lparr>seg_ds := ucast (regs c RAX)\<rparr>"
| "exec1 L ret Mov_es_ax c = c\<lparr>seg_es := ucast (regs c RAX)\<rparr>"
| "exec1 L ret Xor_eax_eax c = set_reg RAX 0 c"
| "exec1 L ret (Lea_r15 l) c = set_reg R15 (L l) c"
| "exec1 L ret Jmp_r15 c = c"
| "exec1 L ret (Lea_rdi_rsp v) c = set_reg RDI (sp c + v) c"
| "exec1 L ret Call_r15 c = push ret c"
| "exec1 L ret (Add_rsp v) c = c\<lparr>sp := sp c + v\<rparr>"
| "exec1 L ret Iretq c = c\<lparr>core_rip := load64 (stack_mem c) (sp c), core_cs := ucast (load64 (stack_mem c) (sp c + 8)),
     core_rflags := load64 (stack_mem c) (sp c + 16), sp := load64 (stack_mem c) (sp c + 24),
     core_ss := ucast (load64 (stack_mem c) (sp c + 32))\<rparr>"

definition exec :: "(label \<Rightarrow> u64) \<Rightarrow> u64 \<Rightarrow> instr list \<Rightarrow> core \<Rightarrow> core" where
  "exec L ret = fold (exec1 L ret)"

text \<open>
  What the processor refuses in 64-bit mode, with a general-protection fault: a segment register takes a selector of a usable
  descriptor only, \<open>ok\<close>; \<open>cr4\<close> may not lose the bit PAE (5), nor \<open>cr0\<close> the bits PE (0) and PG (31), and reserved upper bits
  may not be set. A run stops at the first instruction that is refused, and says at which and in which state.
\<close>

fun refused :: "(u16 \<Rightarrow> bool) \<Rightarrow> instr \<Rightarrow> core \<Rightarrow> bool" where
  "refused ok Mov_ds_ax c \<longleftrightarrow> \<not> ok (ucast (regs c RAX))"
| "refused ok Mov_es_ax c \<longleftrightarrow> \<not> ok (ucast (regs c RAX))"
| "refused ok (Mov_cr_rax CR4) c \<longleftrightarrow> \<not> bit (regs c RAX) 5 \<or> drop_bit 32 (regs c RAX) \<noteq> 0"
| "refused ok (Mov_cr_rax CR0) c \<longleftrightarrow> \<not> bit (regs c RAX) 0 \<or> \<not> bit (regs c RAX) 31 \<or> drop_bit 32 (regs c RAX) \<noteq> 0"
| "refused ok (Mov_cr_rax CR3) c \<longleftrightarrow> drop_bit 52 (regs c RAX) \<noteq> 0"
| "refused ok i c \<longleftrightarrow> False"

primrec run :: "(u16 \<Rightarrow> bool) \<Rightarrow> (label \<Rightarrow> u64) \<Rightarrow> u64 \<Rightarrow> instr list \<Rightarrow> core \<Rightarrow> (instr \<times> core) + core" where
  "run ok L ret [] c = Inr c"
| "run ok L ret (i # is) c = (if refused ok i c then Inl (i, c) else run ok L ret is (exec1 L ret i c))"

section \<open>The code\<close>

definition isr_err_stub :: "u64 \<Rightarrow> instr list" where
  "isr_err_stub v = [Push_imm v, Push R15, Lea_r15 Xframe_assembler, Jmp_r15]"

definition isr_no_err_stub :: "u64 \<Rightarrow> instr list" where
  "isr_no_err_stub v = [Push_imm 0, Push_imm v, Push R15, Lea_r15 Xframe_assembler, Jmp_r15]"

definition pushagrd :: "instr list" where
  "pushagrd = [Push RAX, Push RBX, Push RCX, Push RDX, Push RSI, Push RDI, Push R8, Push R9, Push R10, Push R11, Push R12,
     Push R13, Push R14, Push R15]"

definition popagrd :: "instr list" where
  "popagrd = [Pop R15, Pop R14, Pop R13, Pop R12, Pop R11, Pop R10, Pop R9, Pop R8, Pop RDI, Pop RSI, Pop RDX, Pop RCX,
     Pop RBX, Pop RAX]"

definition pushacrd :: "instr list" where
  "pushacrd = [Mov_rax_cr CR0, Push RAX, Mov_rax_cr CR2, Push RAX, Mov_rax_cr CR3, Push RAX, Mov_rax_cr CR4, Push RAX]"

definition popacrd :: "instr list" where
  "popacrd = [Pop RAX, Mov_cr_rax CR4, Pop RAX, Mov_cr_rax CR3, Pop RAX, Mov_cr_rax CR2, Pop RAX, Mov_cr_rax CR0]"

text \<open>
  \<open>isr_xframe_assembler\<close> up to the call of the handler, and what follows the call. The word \<open>ds\<close> before a \<open>lea\<close> of the source is a
  segment prefix, which has no effect on that instruction.
\<close>

definition xframe_entry :: "instr list" where
  "xframe_entry = [Pop R15, Push RBP, Mov_rbp_rsp] @ pushagrd @ pushacrd
     @ [Mov_ax_ds, Push RAX, Push_imm 0, Push R15, Push RAX, Xor_eax_eax, Mov_ax_ds, Lea_r15 No_task, Jmp_r15,
        Lea_rdi_rsp 0x10, Lea_r15 Handler, Call_r15]"

definition xframe_exit :: "instr list" where
  "xframe_exit = [Pop RAX, Pop RAX, Mov_ds_ax, Mov_es_ax] @ popacrd @ popagrd @ [Pop RBP, Add_rsp 0x10, Iretq]"

text \<open>The stubs 0 to 31, of which these are made by \<open>isr_err_stub\<close>.\<close>

definition has_error_code :: "u64 \<Rightarrow> bool" where
  "has_error_code v \<longleftrightarrow> v \<in> {8, 10, 11, 12, 13, 14, 17, 30}"

definition isr_stub :: "u64 \<Rightarrow> instr list" where
  "isr_stub v = (if has_error_code v then isr_err_stub v else isr_no_err_stub v)"

section \<open>The stack\<close>

fun stack :: "memory \<Rightarrow> u64 \<Rightarrow> u64 list \<Rightarrow> bool" where
  "stack m a [] \<longleftrightarrow> True"
| "stack m a (w # ws) \<longleftrightarrow> load64 m a = w \<and> stack m (a + 8) ws"

lemma stack_apart:
  assumes "n < 2000"
  shows "sep (a + 8 * of_nat n) 8 (a - 8) 8"
proof -
  have u: "unat (8 * of_nat n + 8 :: u64) = 8 * n + 8"
    using assms unat_of_nat_64 [of "8 * n + 8"] by simp
  then have "8 * of_nat n + 8 \<noteq> (0 :: u64)" by (metis add_is_0 unat_0 zero_neq_numeral)
  note n = unat_neg_64 [OF this]
  have e: "a - 8 - (a + 8 * of_nat n) = - (8 * of_nat n + 8)" "a + 8 * of_nat n - (a - 8) = 8 * of_nat n + 8" by simp_all
  show ?thesis unfolding sep_def e n u using assms by simp
qed

lemma stack_other:
  assumes "length ws + k < 2000"
  shows "stack (store64 m (a - 8) v) (a + 8 * of_nat k) ws = stack m (a + 8 * of_nat k) ws"
  using assms
proof (induction ws arbitrary: k)
  case (Cons w ws)
  have e: "a + 8 * of_nat k + 8 = a + 8 * of_nat (Suc k)" by (simp add: algebra_simps)
  have "load64 (store64 m (a - 8) v) (a + 8 * of_nat k) = load64 m (a + 8 * of_nat k)"
    using stack_apart [of k a] Cons.prems by (simp add: mem_simps)
  then show ?case unfolding stack.simps e using Cons.IH [of "Suc k"] Cons.prems by simp
qed simp

definition on_stack :: "core \<Rightarrow> u64 list \<Rightarrow> bool" where
  "on_stack c ws \<longleftrightarrow> stack (stack_mem c) (sp c) ws"

text \<open>Running code rewrites to a sequence of pushes and changed registers, of which these facts are known.\<close>

lemma core_simps [simp]:
  "regs (push v c) = regs c" "cregs (push v c) = cregs c" "seg_ds (push v c) = seg_ds c" "seg_es (push v c) = seg_es c"
  "regs (pop c) = regs c" "cregs (pop c) = cregs c" "seg_ds (pop c) = seg_ds c" "stack_mem (pop c) = stack_mem c" "seg_es (pop c) = seg_es c"
  "sp (set_reg r v c) = sp c" "regs (set_reg r v c) = (regs c)(r := v)" "cregs (set_reg r v c) = cregs c"
  "seg_ds (set_reg r v c) = seg_ds c" "stack_mem (set_reg r v c) = stack_mem c" "seg_es (set_reg r v c) = seg_es c"
  "stack_top (set_reg r v c) = stack_top c" "pop (set_reg r v c) = set_reg r v (pop c)" "push w (set_reg r v c) = set_reg r v (push w c)"
  "set_reg r w (set_reg r v c) = set_reg r w c"
  by (simp_all add: push_def pop_def set_reg_def stack_top_def)

lemma on_stack_simps [simp]:
  "on_stack (set_reg r v c) ws = on_stack c ws" "stack_top (push v c) = v"
  "length ws < 2000 \<Longrightarrow> on_stack (push v c) (w # ws) \<longleftrightarrow> w = v \<and> on_stack c ws"
  "length ws < 2000 \<Longrightarrow> on_stack (pop (push v c)) ws \<longleftrightarrow> on_stack c ws"
  using stack_other [of ws 0 "stack_mem c" "sp c" v]
  by (auto simp: on_stack_def stack_top_def push_def pop_def mem_simps)

lemma on_stack_Cons: "on_stack c (w # ws) \<longleftrightarrow> stack_top c = w \<and> on_stack (pop c) ws"
  by (simp add: on_stack_def stack_top_def pop_def)

lemma exec_simps [simp]:
  "exec L ret [] c = c" "exec L ret (i # is) c = exec L ret is (exec1 L ret i c)"
  "exec L ret (xs @ ys) c = exec L ret ys (exec L ret xs c)"
  by (simp_all add: exec_def)

lemmas code_defs = isr_err_stub_def isr_no_err_stub_def pushagrd_def popagrd_def pushacrd_def popacrd_def xframe_entry_def xframe_exit_def

text \<open>What the processor pushes, and the words above the return address when the handler is called.\<close>

definition saved_words :: "core \<Rightarrow> u64 list" where
  "saved_words c =
     (let ax = (cregs c CR4 AND NOT 0xFFFF) OR ucast (seg_ds c)
      in [ax, regs c R15, 0, ax, cregs c CR4, cregs c CR3, cregs c CR2, cregs c CR0] @
         map (regs c) [R15, R14, R13, R12, R11, R10, R9, R8, RDI, RSI, RDX, RCX, RBX, RAX, RBP])"

lemma entry_stack:
  assumes "on_stack c ws" "length ws < 1000"
  shows "on_stack (exec L ret (isr_err_stub v @ xframe_entry) c) (ret # saved_words c @ v # ws)"
  using assms by (simp add: code_defs saved_words_def Let_def)

text \<open>What the handler finds at the pointer it is given, by the layout of \<open>isr_stack_frame_t\<close>.\<close>

definition read_frame :: "memory \<Rightarrow> u64 \<Rightarrow> isr_stack_frame_t" where
  "read_frame m p =
     (let w = (\<lambda>i. load64 m (p + 8 * i))
      in \<lparr>frame_cr4 = w 0, frame_cr3 = w 1, frame_cr2 = w 2, frame_cr1 = w 3, frame_cr0 = w 4,
          r15 = w 5, r14 = w 6, r13 = w 7, r12 = w 8, r11 = w 9, r10 = w 10, r9 = w 11, r8 = w 12,
          frame_rdi = w 13, frame_rsi = w 14, frame_rdx = w 15, frame_rcx = w 16, frame_rbx = w 17, frame_rax = w 18,
          frame_rbp = w 19, frame_vector = w 20, error_code = w 21, rip = w 22, cs = w 23, rflags = w 24, rsp = w 25, dss = w 26\<rparr>)"

lemma entry_regs:
  "regs (exec L ret (isr_err_stub v @ xframe_entry) c) RDI = sp c - 176"
  "sp (exec L ret (isr_err_stub v @ xframe_entry) c) = sp c - 200"
  by (simp_all add: code_defs) (simp_all add: push_def pop_def set_reg_def)

lemma no_err_stub: "isr_no_err_stub v = Push_imm 0 # isr_err_stub v"
  by (simp add: isr_no_err_stub_def isr_err_stub_def)

text \<open>The words from \<open>rdi\<close> on.\<close>

lemma entry_frame:
  fixes L :: "label \<Rightarrow> u64" and ret v :: u64
  assumes "on_stack c ws" "length ws < 1000"
  defines "c' \<equiv> exec L ret (isr_err_stub v @ xframe_entry) c"
  shows "stack (stack_mem c') (regs c' RDI) (drop 2 (saved_words c) @ v # ws)"
proof -
  have "stack (stack_mem c') (sp c - 200) (ret # saved_words c @ v # ws)"
    using entry_stack [OF assms(1,2), of L ret v] entry_regs(2) [of L ret v c] by (simp add: on_stack_def c'_def)
  then show ?thesis
    using entry_regs(1) [of L ret v c] by (simp add: saved_words_def Let_def c'_def)
qed

lemma read_stacked:
  "stack m p (w0 # w1 # w2 # w3 # w4 # w5 # w6 # w7 # w8 # w9 # w10 # w11 # w12 # w13 # w14 # w15 # w16 # w17 # w18
     # w19 # w20 # w21 # w22 # w23 # w24 # w25 # w26 # ws) \<Longrightarrow>
   read_frame m p = \<lparr>frame_cr4 = w0, frame_cr3 = w1, frame_cr2 = w2, frame_cr1 = w3, frame_cr0 = w4, r15 = w5, r14 = w6, r13 = w7,
     r12 = w8, r11 = w9, r10 = w10, r9 = w11, r8 = w12, frame_rdi = w13, frame_rsi = w14, frame_rdx = w15, frame_rcx = w16,
     frame_rbx = w17, frame_rax = w18, frame_rbp = w19, frame_vector = w20, error_code = w21, rip = w22, cs = w23,
     rflags = w24, rsp = w25, dss = w26\<rparr>"
  by (simp add: read_frame_def add.commute [of p])

text \<open>\<open>deep n k c c'\<close>: \<open>c'\<close> is \<open>k\<close> words below \<open>c\<close>, and memory was changed at most in the \<open>n\<close> words below \<open>c\<close>.\<close>

definition deep :: "nat \<Rightarrow> nat \<Rightarrow> core \<Rightarrow> core \<Rightarrow> bool" where
  "deep n k c c' \<longleftrightarrow> sp c' = sp c - 8 * of_nat k \<and> (\<forall>x. 8 * n \<le> unat (x - (sp c - 8 * of_nat n)) \<longrightarrow> stack_mem c' x = stack_mem c x)"

lemma deep_push:
  assumes "0 < k" "k \<le> n" "n < 2000" "deep n (k - 1) c c'"
  shows "deep n k c (push v c')"
proof -
  let ?a = "sp c - 8 * of_nat k"
  have k: "of_nat k = of_nat (k - 1) + (1 :: u64)" using assms(1) by (metis Suc_diff_1 of_nat_Suc add.commute)
  have a: "sp c' - 8 = ?a" using assms(4) by (simp add: deep_def k algebra_simps)
  have "store64 m ?a v x = m x" if x: "8 * n \<le> unat (x - (sp c - 8 * of_nat n))" for m x
  proof (rule c64.put_local)
    define d where "d = x - (sp c - 8 * of_nat n)"
    define e where "e = (of_nat (8 * (n - k)) :: u64)"
    have "x - ?a = d - e" using assms(2) by (simp add: d_def e_def of_nat_diff algebra_simps)
    moreover have u: "unat e = 8 * (n - k)" using assms(3) unfolding e_def by (subst unat_of_nat_64) auto
    moreover have "e \<le> d" using x u unfolding word_le_nat_alt d_def [symmetric] by linarith
    ultimately have "unat (x - ?a) = unat d - 8 * (n - k)" by (simp add: unat_diff_64)
    then show "\<not> unat (x - ?a) < 8" using x assms(1,2) unfolding d_def by auto
  qed
  moreover have p: "sp (push v c') = ?a" "stack_mem (push v c') = store64 (stack_mem c') ?a v"
    using a by (simp_all add: push_def)
  ultimately show ?thesis using assms(4) unfolding deep_def p by simp
qed

lemma deep_simps:
  "deep n 0 c c" "deep n k c (set_reg r v c') = deep n k c c'" "deep n (Suc k) c c' \<Longrightarrow> deep n k c (pop c')"
  by (simp_all add: deep_def pop_def algebra_simps)

lemma entry_deep:
  "deep 26 25 c (exec L ret (isr_err_stub v @ xframe_entry) c)"
  "deep 26 26 c (exec L ret (isr_err_stub v @ xframe_entry) (push 0 c))"
  by (simp_all add: code_defs deep_simps deep_push)

text \<open>The entry holds no instruction that can be refused; the exit loads \<open>cr4\<close> with the zero that the entry has pushed.\<close>

lemma run_entry: "run ok L ret (isr_stub v @ xframe_entry) c = Inr (exec L ret (isr_stub v @ xframe_entry) c)"
  by (simp add: isr_stub_def code_defs)

lemma run_exit:
  assumes "on_stack d (saved_words c @ ws)"
  shows "\<exists>i d'. run ok L ret xframe_exit d = Inl (i, d')
    \<and> (if ok (ucast (regs c R15)) then i = Mov_cr_rax CR4 \<and> regs d' RAX = 0 \<and> seg_ds d' = ucast (regs c R15) \<and> sp d' = sp d + 24
       else i = Mov_ds_ax \<and> seg_ds d' = seg_ds d)"
proof -
  have "load64 (stack_mem d) (8 + sp d) = regs c R15" "load64 (stack_mem d) (16 + sp d) = 0"
    using assms by (simp_all add: saved_words_def Let_def on_stack_def add.commute [of "sp d"])
  then show ?thesis
    by (cases "ok (ucast (regs c R15))") (simp_all add: code_defs stack_top_def pop_def set_reg_def add.commute [of "sp d"])
qed

text \<open>The macros that save and restore registers match each other.\<close>

lemma grd_restore:
  assumes "stack_mem d = stack_mem (exec L ret pushagrd c)" "sp d = sp (exec L ret pushagrd c)"
  shows "regs (exec L ret popagrd d) = (regs c)(RBP := regs d RBP) \<and> sp (exec L ret popagrd d) = sp c"
proof -
  have "on_stack (exec L ret pushagrd c) (map (regs c) [R15, R14, R13, R12, R11, R10, R9, R8, RDI, RSI, RDX, RCX, RBX, RAX])"
    by (simp add: code_defs) (simp add: on_stack_def)
  then have d: "on_stack d (map (regs c) [R15, R14, R13, R12, R11, R10, R9, R8, RDI, RSI, RDX, RCX, RBX, RAX])"
    using assms by (simp add: on_stack_def)
  have "sp d = sp c - 112" using assms(2) by (simp add: code_defs push_def)
  then have "sp (exec L ret popagrd d) = sp c" by (simp add: code_defs pop_def set_reg_def)
  moreover have "regs (exec L ret popagrd d) r = ((regs c)(RBP := regs d RBP)) r" for r
    using d by (cases r) (simp_all add: code_defs on_stack_def stack_top_def pop_def set_reg_def add.commute [of "sp d"])
  ultimately show ?thesis by (auto simp: fun_eq_iff)
qed

section \<open>Properties\<close>

text \<open>
  What the processor has pushed when stub \<open>v\<close> is entered: for some vectors an error code, below the five words of every interrupt. The
  stubs of the vectors 21 (control protection) and 29 (VMM communication) are made as if there were none.
\<close>

definition processor_error_code :: "u64 \<Rightarrow> bool" where
  "processor_error_code v \<longleftrightarrow> v \<in> {8, 10, 11, 12, 13, 14, 17, 21, 29, 30}"

definition entered :: "core \<Rightarrow> u64 \<Rightarrow> u64 \<Rightarrow> u64 \<Rightarrow> u64 \<Rightarrow> u64 \<Rightarrow> u64 \<Rightarrow> u64 \<Rightarrow> bool" where
  "entered c v err ip sel fl osp oss \<longleftrightarrow>
     on_stack c ((if processor_error_code v then [err] else []) @ [ip, sel, fl, osp, oss]) \<and> (\<not> processor_error_code v \<longrightarrow> err = 0)"

lemma error_codes: "processor_error_code v \<longleftrightarrow> has_error_code v \<or> v \<in> {21, 29}" "has_error_code v \<Longrightarrow> v \<notin> {21, 29}"
  by (auto simp: processor_error_code_def has_error_code_def)

text \<open>After the first push of a stub without error code, all stubs are alike: six words lie above the place of the vector.\<close>

lemma entered_err:
  assumes "entered c v err ip sel fl osp oss"
  shows "\<exists>b ws. exec L ret (isr_stub v @ xframe_entry) c = exec L ret (isr_err_stub v @ xframe_entry) b
    \<and> on_stack b ((if v \<in> {21, 29} then [0, err, ip, sel, fl, osp] else [err, ip, sel, fl, osp, oss]) @ ws) \<and> length ws < 900
    \<and> regs b = regs c \<and> cregs b = cregs c \<and> seg_ds b = seg_ds c \<and> (b = c \<or> b = push 0 c)"
proof (cases "has_error_code v")
  case True
  then show ?thesis using assms error_codes [of v] by (intro exI [of _ c] exI [of _ "[]"]) (auto simp: isr_stub_def entered_def)
next
  case False
  then show ?thesis
    using assms error_codes [of v] by (intro exI [of _ "push 0 c"] exI [of _ "if v \<in> {21, 29} then [oss] else []"])
      (auto simp: isr_stub_def entered_def no_err_stub)
qed

text \<open>The frame the handler should be given; the register \<open>cr1\<close> does not exist.\<close>

definition interrupted_frame :: "core \<Rightarrow> u64 \<Rightarrow> u64 \<Rightarrow> u64 \<Rightarrow> u64 \<Rightarrow> u64 \<Rightarrow> u64 \<Rightarrow> isr_stack_frame_t" where
  "interrupted_frame c v err ip sel fl osp =
     \<lparr>frame_cr4 = cregs c CR4, frame_cr3 = cregs c CR3, frame_cr2 = cregs c CR2, frame_cr1 = 0, frame_cr0 = cregs c CR0,
      r15 = regs c R15, r14 = regs c R14, r13 = regs c R13, r12 = regs c R12, r11 = regs c R11, r10 = regs c R10,
      r9 = regs c R9, r8 = regs c R8, frame_rdi = regs c RDI, frame_rsi = regs c RSI, frame_rdx = regs c RDX,
      frame_rcx = regs c RCX, frame_rbx = regs c RBX, frame_rax = regs c RAX, frame_rbp = regs c RBP, frame_vector = v,
      error_code = err, rip = ip, cs = sel, rflags = fl, rsp = osp, dss = 0\<rparr>"

text \<open>C25. The stub of every exception runs without a fault of its own and saves the interrupted state, in at most 26 words below the stack
  pointer and nowhere else, but passes the handler a pointer that is eight bytes too low: read as an \<open>isr_stack_frame_t\<close>, the vector is the
  interrupted \<open>rbp\<close>, the error code is the vector, and so on for every field from \<open>cr0\<close> on. Eight bytes higher these fields are all
  right, and only the other control registers are not, for which the structure has a slot more than the code saves. For the
  vectors 21 and 29, whose stubs push a zero although the processor has pushed an error code, the fields from the error
  code on are one place off there as well: the error code reads as the instruction pointer.\<close>
theorem isr_frame_shifted:
  assumes "entered c v err ip sel fl osp oss" and c': "c' = exec L ret (isr_stub v @ xframe_entry) c"
  shows "run ok L ret (isr_stub v @ xframe_entry) c = Inr c'
    \<and> frame_vector (read_frame (stack_mem c') (regs c' RDI)) = regs c RBP
    \<and> error_code (read_frame (stack_mem c') (regs c' RDI)) = v
    \<and> (v \<notin> {21, 29} \<longrightarrow> rip (read_frame (stack_mem c') (regs c' RDI)) = err
        \<and> cs (read_frame (stack_mem c') (regs c' RDI)) = ip
        \<and> read_frame (stack_mem c') (regs c' RDI + 8) =
            (interrupted_frame c v err ip sel fl osp)\<lparr>frame_cr4 := (cregs c CR4 AND NOT 0xFFFF) OR ucast (seg_ds c),
              frame_cr3 := cregs c CR4, frame_cr2 := cregs c CR3, frame_cr1 := cregs c CR2, dss := oss\<rparr>)
    \<and> (v \<in> {21, 29} \<longrightarrow> rip (read_frame (stack_mem c') (regs c' RDI)) = 0
        \<and> read_frame (stack_mem c') (regs c' RDI + 8) =
            (interrupted_frame c v 0 err ip sel fl)\<lparr>frame_cr4 := (cregs c CR4 AND NOT 0xFFFF) OR ucast (seg_ds c),
              frame_cr3 := cregs c CR4, frame_cr2 := cregs c CR3, frame_cr1 := cregs c CR2, dss := osp\<rparr>)
    \<and> (\<forall>x. 208 \<le> unat (x - (sp c - 208)) \<longrightarrow> stack_mem c' x = stack_mem c x)"
proof -
  obtain b ws where b: "c' = exec L ret (isr_err_stub v @ xframe_entry) b" "length ws < 900"
      "on_stack b ((if v \<in> {21, 29} then [0, err, ip, sel, fl, osp] else [err, ip, sel, fl, osp, oss]) @ ws)"
      "regs b = regs c" "cregs b = cregs c" "seg_ds b = seg_ds c" "b = c \<or> b = push 0 c"
    using entered_err [OF assms(1)] c' by blast
  have rest: "run ok L ret (isr_stub v @ xframe_entry) c = Inr c'"
      "stack_mem c' x = stack_mem c x" if "208 \<le> unat (x - (sp c - 208))" for x
    using entry_deep [of c L ret v] b(7) that run_entry [of ok L ret v c] c' unfolding b(1) deep_def by auto
  have frames: "frame_vector (read_frame (stack_mem c') (regs c' RDI)) = regs c RBP
      \<and> error_code (read_frame (stack_mem c') (regs c' RDI)) = v \<and> rip (read_frame (stack_mem c') (regs c' RDI)) = w0
      \<and> cs (read_frame (stack_mem c') (regs c' RDI)) = w1
      \<and> read_frame (stack_mem c') (regs c' RDI + 8) =
          (interrupted_frame c v w0 w1 w2 w3 w4)\<lparr>frame_cr4 := (cregs c CR4 AND NOT 0xFFFF) OR ucast (seg_ds c),
            frame_cr3 := cregs c CR4, frame_cr2 := cregs c CR3, frame_cr1 := cregs c CR2, dss := w5\<rparr>"
    if "on_stack b ([w0, w1, w2, w3, w4, w5] @ ws)" for w0 w1 w2 w3 w4 w5
  proof -
    have f: "stack (stack_mem c') (regs c' RDI) (drop 2 (saved_words b) @ v # [w0, w1, w2, w3, w4, w5] @ ws)"
      unfolding b(1) using entry_frame [OF that, of L ret v] b(2) by simp
    note low = read_stacked [OF f [unfolded saved_words_def Let_def b(4-6), simplified numeral_2_eq_2 numeral_3_eq_3 list.map append.simps drop_Suc_Cons drop_0]]
    have "stack (stack_mem c') (regs c' RDI + 8) (drop 3 (saved_words b) @ v # [w0, w1, w2, w3, w4, w5] @ ws)"
      using f by (simp add: saved_words_def Let_def)
    note high = read_stacked [OF this [unfolded saved_words_def Let_def b(4-6), simplified numeral_2_eq_2 numeral_3_eq_3 list.map append.simps drop_Suc_Cons drop_0]]
    show ?thesis using low high by (simp add: interrupted_frame_def)
  qed
  show ?thesis
    using frames [of 0 err ip sel fl osp] frames [of err ip sel fl osp oss] b(3) rest run_entry [of ok L ret v c] c' by (cases "v \<in> {21, 29}") simp_all
qed

text \<open>A page fault at \<open>0x401000\<close>, with the frame the processor pushes for it.\<close>

definition fault_core :: core where
  "fault_core = push 2 (push 0x401000 (push 8 (push 0x202 (push 0x7000 (push 16
     \<lparr>regs = (\<lambda>_. 0)(RBP := 0x1234), sp = 0x9000, cregs = (\<lambda>_. 0)(CR2 := 0xDEAD), seg_ds = 48, seg_es = 48, stack_mem = (\<lambda>_. 0),
      core_rip = 0x401000, core_cs = 8, core_rflags = 0x202, core_ss = 16, address_space = (\<lambda>_ _. 0)\<rparr>)))))"

lemma fault_entered: "entered fault_core 14 2 0x401000 8 0x202 0x7000 16"
  by (simp add: entered_def processor_error_code_def fault_core_def) (simp add: on_stack_def)

theorem isr_frame_shifted_witness:
  "frame_vector (read_frame (stack_mem (exec (\<lambda>_. 0) 0x5000 (isr_stub 14 @ xframe_entry) fault_core))
     (regs (exec (\<lambda>_. 0) 0x5000 (isr_stub 14 @ xframe_entry) fault_core) RDI)) = 0x1234"
proof -
  have "regs fault_core RBP = 0x1234" by (simp add: fault_core_def)
  then show ?thesis
    using isr_frame_shifted [OF fault_entered refl, where L = "\<lambda>_. 0" and ret = "0x5000"] by (metis (no_types, lifting))
qed

text \<open>C26. The macros that save and restore the general registers match each other: whatever runs between them, the registers are restored if
  the stack is left as it was. The way out of a handler does not match the way in, for it removes two of the four words pushed last. Were
  the handler to return, no exception could be left: the data segment is loaded with the lower half of the interrupted \<open>r15\<close>, which is
  refused unless it happens to be a usable selector, and otherwise \<open>cr4\<close> is loaded with the zero pushed on the way in, which would
  clear PAE in 64-bit mode and is refused. The registers are never restored and \<open>iretq\<close> is never reached.\<close>
theorem isr_return_path:
  assumes "entered c v err ip sel fl osp oss" and c': "c' = exec L ret (isr_stub v @ xframe_entry) c"
    and d: "stack_mem d = stack_mem c'" "sp d = sp c' + 8"
    and e: "stack_mem e = stack_mem (exec L ret pushagrd c)" "sp e = sp (exec L ret pushagrd c)"
  shows "regs (exec L ret popagrd e) = (regs c)(RBP := regs e RBP) \<and> sp (exec L ret popagrd e) = sp c
    \<and> (\<exists>i d'. run ok L ret xframe_exit d = Inl (i, d')
        \<and> (if ok (ucast (regs c R15)) then i = Mov_cr_rax CR4 \<and> regs d' RAX = 0 \<and> seg_ds d' = ucast (regs c R15) \<and> sp d' = sp d + 24
           else i = Mov_ds_ax \<and> seg_ds d' = seg_ds d))"
proof -
  obtain b ws where b: "c' = exec L ret (isr_err_stub v @ xframe_entry) b" "length ws < 900"
      "on_stack b ((if v \<in> {21, 29} then [0, err, ip, sel, fl, osp] else [err, ip, sel, fl, osp, oss]) @ ws)" "regs b = regs c"
    using entered_err [OF assms(1)] c' by blast
  have "on_stack c' (ret # saved_words b @ v # (if v \<in> {21, 29} then [0, err, ip, sel, fl, osp] else [err, ip, sel, fl, osp, oss]) @ ws)"
    unfolding b(1) using entry_stack [OF b(3)] b(2) by simp
  then have "on_stack d (saved_words b @ v # (if v \<in> {21, 29} then [0, err, ip, sel, fl, osp] else [err, ip, sel, fl, osp, oss]) @ ws)"
    using d by (simp add: on_stack_def)
  from run_exit [OF this, of ok L ret, unfolded b(4)] show ?thesis using grd_restore [OF e] by blast
qed

theorem isr_return_path_witness:
  "\<exists>d'. run (\<lambda>sel. sel = 0) (\<lambda>_. 0) 0x5000 xframe_exit (pop (exec (\<lambda>_. 0) 0x5000 (isr_stub 14 @ xframe_entry) fault_core))
    = Inl (Mov_cr_rax CR4, d') \<and> regs d' RAX = 0"
proof -
  have "regs fault_core R15 = 0" by (simp add: fault_core_def)
  then show ?thesis
    using isr_return_path [OF fault_entered refl _ _ refl refl, where L = "\<lambda>_. 0" and ret = "0x5000" and ok = "\<lambda>sel. sel = 0"
      and d = "pop (exec (\<lambda>_. 0) 0x5000 (isr_stub 14 @ xframe_entry) fault_core)"]
    by (auto simp: pop_def simp del: exec_simps)
qed

end
