(* ===== verification/Uart.thy ===== *)
theory Uart
  imports Machine
begin

text \<open>
  The serial port, \<^verbatim>\<open>kernel/src/drivers/uart.c\<close> and \<^verbatim>\<open>uart.h\<close>. The device is a parameter: what \<open>inb\<close>
  answers is a function of the port and of all that was done with the device so far, the bytes written to its
  ports and the number of reads. The polling loop ends only when the device says so, so it is a partial
  function, and \<open>None\<close> is a call that never returns.
\<close>

section \<open>Ports\<close>

definition PORT :: u16 where "PORT = 0x3f8"

record uart =
  reads :: nat
  writes :: "(u16 \<times> u8) list"

type_synonym port_device = "uart \<Rightarrow> u16 \<Rightarrow> u8"

definition outb :: "uart \<Rightarrow> u16 \<Rightarrow> u8 \<Rightarrow> uart" where
  "outb s port val = s\<lparr>writes := writes s @ [(port, val)]\<rparr>"

definition inb :: "port_device \<Rightarrow> uart \<Rightarrow> u16 \<Rightarrow> u8 \<times> uart" where
  "inb dev s port = (dev s port, s\<lparr>reads := reads s + 1\<rparr>)"

section \<open>The driver\<close>

definition init_serial :: "uart \<Rightarrow> uart" where
  "init_serial s =
     (let s = outb s (PORT + 1) 0x00;
          s = outb s (PORT + 3) 0x80;
          s = outb s (PORT + 0) 0x03;
          s = outb s (PORT + 1) 0x00;
          s = outb s (PORT + 3) 0x03;
          s = outb s (PORT + 2) 0xc7
      in outb s (PORT + 4) 0x0B)"

definition uart_transmit_ready :: "port_device \<Rightarrow> uart \<Rightarrow> u8 \<times> uart" where
  "uart_transmit_ready dev s = (let (v, s) = inb dev s (PORT + 5) in (v AND 1, s))"

partial_function (option) wait_ready :: "port_device \<Rightarrow> uart \<Rightarrow> uart option" where
  "wait_ready dev s =
     (let (r, s) = uart_transmit_ready dev s
      in if r = 0 then wait_ready dev s else Some s)"

definition write_serial :: "port_device \<Rightarrow> uart \<Rightarrow> u8 \<Rightarrow> uart option" where
  "write_serial dev s a =
     (case wait_ready dev s of None \<Rightarrow> None | Some s \<Rightarrow> Some (outb s PORT a))"

partial_function (option) write_serial_string :: "port_device \<Rightarrow> memory \<Rightarrow> uart \<Rightarrow> u64 \<Rightarrow> uart option" where
  "write_serial_string dev m s str =
     (let c = m str
      in if c \<noteq> 0 then
           (case write_serial dev s c of None \<Rightarrow> None | Some s \<Rightarrow> write_serial_string dev m s (str + 1))
         else Some s)"

section \<open>Lemmas\<close>

text \<open>Bit 0 of the line status register after \<open>n\<close> more reads.\<close>

definition status_bit :: "port_device \<Rightarrow> uart \<Rightarrow> nat \<Rightarrow> bool" where
  "status_bit dev s n \<longleftrightarrow> dev (s\<lparr>reads := reads s + n\<rparr>) (PORT + 5) AND 1 \<noteq> 0"

lemma status_bit_later: "status_bit dev (s\<lparr>reads := Suc (reads s)\<rparr>) n = status_bit dev s (Suc n)"
  by (simp add: status_bit_def)

lemma wait_ready_step:
  "wait_ready dev s = (if status_bit dev s 0 then Some (s\<lparr>reads := Suc (reads s)\<rparr>) else wait_ready dev (s\<lparr>reads := Suc (reads s)\<rparr>))"
  by (subst wait_ready.simps) (simp add: uart_transmit_ready_def inb_def status_bit_def)

lemma wait_ready_returns:
  "status_bit dev s n \<Longrightarrow> \<exists>k. wait_ready dev s = Some (s\<lparr>reads := k\<rparr>)"
proof (induction n arbitrary: s)
  case 0
  then show ?case by (subst wait_ready_step) auto
next
  case (Suc n)
  then have "status_bit dev (s\<lparr>reads := Suc (reads s)\<rparr>) n" by (simp add: status_bit_later)
  then obtain k where "wait_ready dev (s\<lparr>reads := Suc (reads s)\<rparr>) = Some (s\<lparr>reads := k\<rparr>)"
    using Suc.IH by fastforce
  then show ?case by (subst wait_ready_step) auto
qed

lemma wait_ready_forever:
  assumes "\<And>n. \<not> status_bit dev s n"
  shows "wait_ready dev s = None"
proof -
  have "\<exists>n. status_bit dev s n" if r: "wait_ready dev s = Some s'" for s'
  proof (rule wait_ready.raw_induct [where P = "\<lambda>dev s s'. \<exists>n. status_bit dev s n", OF _ r])
    fix loop dev s y
    assume IH: "\<And>dev s y. loop dev s = Some y \<Longrightarrow> \<exists>n. status_bit dev s n"
      and body: "(let (r, s) = uart_transmit_ready dev s in if r = 0 then loop dev s else Some s) = Some y"
    show "\<exists>n. status_bit dev s n"
    proof (cases "status_bit dev s 0")
      case False
      then have "loop dev (s\<lparr>reads := Suc (reads s)\<rparr>) = Some y"
        using body by (simp add: uart_transmit_ready_def inb_def status_bit_def)
      from IH [OF this] show ?thesis unfolding status_bit_later by blast
    qed blast
  qed
  then show ?thesis using assms by (cases "wait_ready dev s") auto
qed

text \<open>The bytes of a string, sent one by one; \<open>write_serial_string\<close> is this on the string at its address.\<close>

primrec send_bytes :: "port_device \<Rightarrow> uart \<Rightarrow> u8 list \<Rightarrow> uart option" where
  "send_bytes dev s [] = Some s"
| "send_bytes dev s (c # cs) = (case write_serial dev s c of None \<Rightarrow> None | Some s \<Rightarrow> send_bytes dev s cs)"

lemma write_serial_string_bytes: "cstr_at m a cs \<Longrightarrow> write_serial_string dev m s a = send_bytes dev s cs"
proof (induction cs arbitrary: a s)
  case Nil
  then show ?case by (simp add: write_serial_string.simps)
next
  case (Cons c cs)
  have "m a = c" "c \<noteq> 0" "cstr_at m (a + 1) cs" using Cons.prems by auto
  with Cons.IH [of "a + 1"] show ?case by (subst write_serial_string.simps) (simp split: option.split)
qed

text \<open>A device that keeps raising bit 0 while it is polled, and one that never does.\<close>

definition responsive :: "port_device \<Rightarrow> bool" where
  "responsive dev \<longleftrightarrow> (\<forall>s. \<exists>n. dev (s\<lparr>reads := reads s + n\<rparr>) (PORT + 5) AND 1 \<noteq> 0)"

definition unresponsive :: "port_device \<Rightarrow> bool" where
  "unresponsive dev \<longleftrightarrow> (\<forall>s. dev s (PORT + 5) AND 1 = 0)"

lemma send_responsive:
  assumes "responsive dev"
  shows "\<exists>k. send_bytes dev s cs = Some (s\<lparr>reads := k, writes := writes s @ map (Pair PORT) cs\<rparr>)"
proof (induction cs arbitrary: s)
  case Nil
  then show ?case by (auto intro: exI [of _ "reads s"])
next
  case (Cons c cs)
  obtain n where "status_bit dev s n" using assms by (auto simp: responsive_def status_bit_def)
  then obtain k where "wait_ready dev s = Some (s\<lparr>reads := k\<rparr>)" using wait_ready_returns by blast
  then have "write_serial dev s c = Some (s\<lparr>reads := k, writes := writes s @ [(PORT, c)]\<rparr>)"
    by (simp add: write_serial_def outb_def)
  with Cons.IH [of "s\<lparr>reads := k, writes := writes s @ [(PORT, c)]\<rparr>"] show ?case by auto
qed

lemma write_unresponsive: "unresponsive dev \<Longrightarrow> write_serial dev s c = None"
  using wait_ready_forever [of dev s] by (simp add: unresponsive_def status_bit_def write_serial_def)

lemma send_unresponsive: "unresponsive dev \<Longrightarrow> cs \<noteq> [] \<Longrightarrow> send_bytes dev s cs = None"
  by (cases cs) (simp_all add: write_unresponsive)

section \<open>Properties\<close>

text \<open>C36. \<open>write_serial_string\<close> writes the bytes of the string, in order and each once, to the data port, and
  nothing to another port, provided the device keeps raising bit 0 of its line status register while the driver
  polls. That bit is the only one the driver tests: on a device that never raises it, whatever it says in
  bit 5 (transmitter empty), \<open>write_serial\<close> never returns.\<close>
theorem write_serial_string_sends:
  assumes "cstr_at m a (c # cs)"
  shows "((\<forall>s. \<exists>n. dev (s\<lparr>reads := reads s + n\<rparr>) (PORT + 5) AND 1 \<noteq> 0) \<longrightarrow>
      (\<exists>s'. write_serial_string dev m s a = Some s' \<and> writes s' = writes s @ map (Pair 0x3f8) (c # cs)))
    \<and> ((\<forall>s. dev s (PORT + 5) AND 1 = 0) \<longrightarrow>
      write_serial dev s c = None \<and> write_serial_string dev m s a = None)"
  using send_responsive [of dev s "c # cs"] write_unresponsive [of dev s c]
  unfolding write_serial_string_bytes [OF assms] responsive_def [symmetric] unresponsive_def [symmetric]
  by (auto simp: PORT_def)

text \<open>A device that raises bit 0 at every third read, and one whose transmitter is idle and that has received nothing.\<close>

theorem write_serial_string_sends_witness:
  "(\<exists>s'. write_serial_string (\<lambda>s p. if reads s mod 3 = 2 then 0x61 else 0x60) (write_bytes (\<lambda>_. 0) 8 [72, 105])
      \<lparr>reads = 0, writes = []\<rparr> 8 = Some s' \<and> writes s' = [(0x3f8, 72), (0x3f8, 105)])
   \<and> write_serial_string (\<lambda>s p. 0x60) (write_bytes (\<lambda>_. 0) 8 [72, 105]) \<lparr>reads = 0, writes = []\<rparr> 8 = None"
proof -
  have dev: "\<exists>n. (if reads (s\<lparr>reads := reads s + n\<rparr>) mod 3 = 2 then 0x61 else 0x60 :: u8) AND 1 \<noteq> 0" for s :: uart
  proof
    have "(reads s + (2 * reads s + 2)) mod 3 = 2" by presburger
    then show "(if reads (s\<lparr>reads := reads s + (2 * reads s + 2)\<rparr>) mod 3 = 2 then 0x61 else 0x60 :: u8) AND 1 \<noteq> 0"
      by simp
  qed
  have str: "cstr_at (write_bytes (\<lambda>_. 0) 8 [72, 105]) 8 [72, 105]" by (simp add: write_bytes_def)
  show ?thesis
    using write_serial_string_sends [OF str, of "\<lambda>s p. if reads s mod 3 = 2 then 0x61 else 0x60" "\<lparr>reads = 0, writes = []\<rparr>"]
      write_serial_string_sends [OF str, of "\<lambda>s p. 0x60" "\<lparr>reads = 0, writes = []\<rparr>"] dev by simp
qed

end
