(* ===== verification/Strings.thy ===== *)
theory Strings
  imports Machine "HOL-Library.Sublist"
begin

text \<open>
  C strings: \<open>strlen\<close> of \<^verbatim>\<open>libc/string/strlen.c\<close>, and \<open>checkStringEndsWith\<close>, \<open>strstr\<close> and \<open>getFile\<close> of
  \<^verbatim>\<open>kernel/src/main.c\<close>. Strings are read from the byte memory through pointers that wrap around, also below their
  start, as the code reads them; a loop that runs past a string that is not ended need not stop, so the
  loops are partial functions.
\<close>

section \<open>The string functions\<close>

partial_function (option) strlen_loop :: "memory \<Rightarrow> u64 \<Rightarrow> u64 \<Rightarrow> u64 option" where
  "strlen_loop m str len = (if m (str + len) \<noteq> 0 then strlen_loop m str (len + 1) else Some len)"

definition strlen :: "memory \<Rightarrow> u64 \<Rightarrow> u64 option" where
  "strlen m str = strlen_loop m str 0"

text \<open>The two loops of \<open>checkStringEndsWith\<close> that look for the end of a string.\<close>

partial_function (option) find_end :: "memory \<Rightarrow> u64 \<Rightarrow> u64 option" where
  "find_end m str = (if m str \<noteq> 0 then find_end m (str + 1) else Some str)"

partial_function (option) ends_loop :: "memory \<Rightarrow> u64 \<Rightarrow> u64 \<Rightarrow> u64 \<Rightarrow> u64 \<Rightarrow> bool option" where
  "ends_loop m str0 end0 str e =
     (if m str \<noteq> m e then Some False
      else let str = str - 1; e = e - 1
           in if e = end0 \<or> (str = str0 \<and> e = end0) then Some True
              else if str = str0 then Some False
              else ends_loop m str0 end0 str e)"

definition checkStringEndsWith :: "memory \<Rightarrow> u64 \<Rightarrow> u64 \<Rightarrow> bool option" where
  "checkStringEndsWith m str e =
     (case find_end m str of None \<Rightarrow> None | Some str' \<Rightarrow>
      case find_end m e of None \<Rightarrow> None | Some e' \<Rightarrow>
      ends_loop m str e (str' - 1) (e' - 1))"

partial_function (option) strstr_loop :: "memory \<Rightarrow> u64 \<Rightarrow> u64 \<Rightarrow> u64 \<Rightarrow> u64 \<Rightarrow> u64 option" where
  "strstr_loop m needle haystack h n =
     (if m n = 0 then Some haystack
      else if m h = 0 then Some 0
      else if m h = m n then strstr_loop m needle haystack (h + 1) (n + 1)
      else strstr_loop m needle (haystack + 1) (haystack + 1) needle)"

definition strstr :: "memory \<Rightarrow> u64 \<Rightarrow> u64 \<Rightarrow> u64 option" where
  "strstr m haystack needle = strstr_loop m needle haystack haystack needle"

section \<open>Boot modules\<close>

text \<open>
  The boot loader's answer to the module request is null or a list of files; of a file the code uses the
  path, a C string, and the address. \<open>write_serial_string\<close> is one entry of the trace, with the bytes it reads.
\<close>

record limine_file =
  path :: u64
  address :: u64

partial_function (option) read_cstr :: "memory \<Rightarrow> u64 \<Rightarrow> u8 list option" where
  "read_cstr m p = (if m p \<noteq> 0 then Option.bind (read_cstr m (p + 1)) (\<lambda>cs. Some (m p # cs)) else Some [])"

text \<open>\<open>getFile\<close> finds a file, finds none, or stops in \<open>hcf\<close>.\<close>

datatype found = File limine_file | No_file | Halted

fun getFile_loop :: "machine \<Rightarrow> u64 \<Rightarrow> limine_file list \<Rightarrow> (found \<times> machine) option" where
  "getFile_loop s name [] = Some (No_file, s)"
| "getFile_loop s name (f # fs) =
     (case read_cstr (mem s) (path f) of None \<Rightarrow> None | Some cs \<Rightarrow>
      let s = say (Serial cs) s
      in case strstr (mem s) (path f) name of None \<Rightarrow> None | Some r \<Rightarrow>
         if r \<noteq> 0 then Some (File f, say_serial ''Found file!'' s)
         else getFile_loop s name fs)"

definition getFile :: "machine \<Rightarrow> limine_file list option \<Rightarrow> u64 \<Rightarrow> (found \<times> machine) option" where
  "getFile s response name =
     (case response of
        None \<Rightarrow> Some (Halted, say_serial ''get file failed!'' s)
      | Some modules \<Rightarrow> getFile_loop s name modules)"

section \<open>Lemmas\<close>

lemma cstr_at_nth:
  "cstr_at m a cs \<longleftrightarrow> (\<forall>i<length cs. m (a + of_nat i) = cs ! i \<and> cs ! i \<noteq> 0) \<and> m (a + of_nat (length cs)) = 0"
proof (induction cs arbitrary: a)
  case (Cons c cs)
  have e: "a + 1 + of_nat i = a + of_nat (Suc i)" for i by (simp add: add.assoc)
  show ?case
    unfolding cstr_at.simps Cons.IH e by (auto simp: All_less_Suc2)
qed simp

lemma cstr_at_drop: "cstr_at m a cs \<Longrightarrow> i \<le> length cs \<Longrightarrow> cstr_at m (a + of_nat i) (drop i cs)"
  unfolding cstr_at_nth by (auto simp: add.assoc simp flip: of_nat_add)

lemma strlen_loop_counts:
  "cstr_at m (str + len) cs \<Longrightarrow> strlen_loop m str len = Some (len + of_nat (length cs))"
  by (induction cs arbitrary: len) (simp_all add: strlen_loop.simps [of m str] add.assoc)

lemma find_end_ends: "cstr_at m a cs \<Longrightarrow> find_end m a = Some (a + of_nat (length cs))"
  by (induction cs arbitrary: a) (simp_all add: find_end.simps add.assoc)

lemma read_cstr_reads: "cstr_at m a cs \<Longrightarrow> read_cstr m a = Some cs"
  by (induction cs arbitrary: a) (simp_all add: read_cstr.simps)

text \<open>The search: \<open>h\<close> has matched \<open>length ns - length n\<close> characters of the needle from \<open>haystack\<close> on.\<close>

lemma strstr_loop_match:
  assumes "cstr_at m n ns" "cstr_at m h hs" "prefix ns hs"
  shows "strstr_loop m needle haystack h n = Some haystack"
  using assms
proof (induction ns arbitrary: n h hs)
  case Nil
  then show ?case by (simp add: strstr_loop.simps)
next
  case (Cons c ns)
  then obtain hs' where "hs = c # hs'" "prefix ns hs'" using Cons.prems(3) by (cases hs) auto
  then show ?case using Cons by (subst strstr_loop.simps) auto
qed

text \<open>A mismatch restarts one character on; the end of the haystack gives null.\<close>

lemma strstr_loop_mismatch:
  assumes "cstr_at m n ns" "cstr_at m h hs" "\<not> prefix ns hs"
  shows "strstr_loop m needle haystack h n =
    (if prefix hs ns then Some 0 else strstr_loop m needle (haystack + 1) (haystack + 1) needle)"
  using assms
proof (induction ns arbitrary: n h hs)
  case (Cons c ns)
  show ?case
  proof (cases hs)
    case Nil
    then show ?thesis using Cons.prems by (subst strstr_loop.simps) simp
  next
    case h: (Cons d ds)
    show ?thesis
    proof (cases "c = d")
      case True
      then have "strstr_loop m needle haystack h n = strstr_loop m needle haystack (h + 1) (n + 1)"
        using Cons.prems h by (subst strstr_loop.simps) simp
      then show ?thesis using Cons.IH [of "n + 1" "h + 1" ds] Cons.prems h True by simp
    next
      case False
      then show ?thesis using Cons.prems h by (subst strstr_loop.simps) simp
    qed
  qed
qed simp

text \<open>The first position at which one string occurs in another.\<close>

fun first_occurrence :: "'a list \<Rightarrow> 'a list \<Rightarrow> nat option" where
  "first_occurrence ns [] = (if ns = [] then Some 0 else None)"
| "first_occurrence ns (h # hs) =
     (if prefix ns (h # hs) then Some 0 else map_option Suc (first_occurrence ns hs))"

lemma first_occurrence_least:
  "first_occurrence ns hs = Some i \<Longrightarrow> i \<le> length hs \<and> prefix ns (drop i hs) \<and> (\<forall>j<i. \<not> prefix ns (drop j hs))"
  by (induction hs arbitrary: i) (auto simp: less_Suc_eq_0_disj split: if_splits)

lemma first_occurrence_none: "first_occurrence ns hs = None \<longleftrightarrow> \<not> sublist ns hs"
  by (induction hs) (auto simp: sublist_Cons_right)

lemma prefix_no_occurrence: "\<not> prefix ns hs \<Longrightarrow> prefix hs ns \<Longrightarrow> first_occurrence ns hs = None"
proof -
  assume a: "\<not> prefix ns hs" "prefix hs ns"
  then have "length hs < length ns" by (metis linorder_not_le prefix_length_le prefix_order.antisym prefix_length_prefix prefix_order.refl)
  then show ?thesis unfolding first_occurrence_none using sublist_length_le [of ns hs] by auto
qed

lemma strstr_first:
  assumes n: "cstr_at m needle ns"
  shows "cstr_at m a hs \<Longrightarrow> strstr m a needle = Some (case first_occurrence ns hs of None \<Rightarrow> 0 | Some i \<Rightarrow> a + of_nat i)"
proof (induction hs arbitrary: a)
  case Nil
  then show ?case
    using strstr_loop_match [OF n Nil] strstr_loop_mismatch [OF n Nil] by (cases "ns = []") (simp_all add: strstr_def)
next
  case (Cons h hs)
  consider "prefix ns (h # hs)" | "\<not> prefix ns (h # hs)" "prefix (h # hs) ns"
    | "\<not> prefix ns (h # hs)" "\<not> prefix (h # hs) ns" by blast
  then show ?case
  proof cases
    case 1
    then show ?thesis using strstr_loop_match [OF n Cons.prems] by (simp add: strstr_def)
  next
    case 2
    then show ?thesis
      using strstr_loop_mismatch [OF n Cons.prems] prefix_no_occurrence [of ns "h # hs"] by (simp add: strstr_def del: first_occurrence.simps)
  next
    case 3
    then have "strstr m a needle = strstr m (a + 1) needle"
      using strstr_loop_mismatch [OF n Cons.prems] by (simp add: strstr_def)
    then show ?thesis using Cons 3 by (auto split: option.split)
  qed
qed

text \<open>A C string is shorter than the address space, so its positions have distinct addresses.\<close>

lemma cstr_at_short:
  assumes "cstr_at m a cs"
  shows "length cs < 18446744073709551616"
proof (rule ccontr)
  define i where "i = length cs mod 18446744073709551616"
  assume "\<not> ?thesis"
  then have "i < length cs" unfolding i_def
    by (meson linorder_not_less mod_less_divisor order_less_le_trans zero_less_numeral)
  moreover have "(of_nat i :: u64) = of_nat (length cs)"
    by (rule word_unat_eq_iff [THEN iffD2]) (simp add: i_def unat_of_nat)
  ultimately show False using assms unfolding cstr_at_nth by metis
qed

lemma cstr_position: "cstr_at m a cs \<Longrightarrow> i \<le> length cs \<Longrightarrow> a + of_nat i = a \<longleftrightarrow> i = 0"
proof -
  assume "cstr_at m a cs" "i \<le> length cs"
  then have "i < 18446744073709551616" using cstr_at_short by fastforce
  then have "unat (of_nat i :: u64) = i" by (simp add: unat_of_nat)
  moreover have "of_nat i = (0 :: u64) \<longleftrightarrow> unat (of_nat i :: u64) = 0" by (simp only: unat_eq_0)
  ultimately show ?thesis by simp
qed

lemma ends_loop_compares:
  assumes s: "cstr_at m a ss" and e: "cstr_at m b es"
  shows "0 < i \<Longrightarrow> i < length ss \<Longrightarrow> 0 < j \<Longrightarrow> j < length es \<Longrightarrow>
    ends_loop m a b (a + of_nat i) (b + of_nat j) = Some (j \<le> i \<and> (\<forall>t<j. ss ! (i - t) = es ! (j - t)))"
proof (induction j arbitrary: i)
  case (Suc j)
  then obtain i' where i: "i = Suc i'" by (cases i) auto
  have m: "m (a + of_nat i) = ss ! i" "m (b + of_nat (Suc j)) = es ! Suc j"
    using Suc.prems s e unfolding cstr_at_nth by auto
  have p: "a + of_nat i - 1 = a + of_nat i'" "b + of_nat (Suc j) - 1 = b + of_nat j" by (simp_all add: i)
  have z: "b + of_nat j = b \<longleftrightarrow> j = 0" "a + of_nat i' = a \<longleftrightarrow> i' = 0"
    using cstr_position [OF e, of j] cstr_position [OF s, of i'] Suc.prems i by auto
  have step: "ends_loop m a b (a + of_nat i) (b + of_nat (Suc j)) =
      (if ss ! i \<noteq> es ! Suc j then Some False else if j = 0 then Some True else if i' = 0 then Some False
       else ends_loop m a b (a + of_nat i') (b + of_nat j))"
    unfolding ends_loop.simps [of m a b "a + of_nat i" "b + of_nat (Suc j)"] m Let_def p z by auto
  have all: "(\<forall>t<Suc j. ss ! (i - t) = es ! (Suc j - t)) \<longleftrightarrow> ss ! i = es ! Suc j \<and> (\<forall>t<j. ss ! (i' - t) = es ! (j - t))"
    by (simp add: All_less_Suc2 i)
  have "ends_loop m a b (a + of_nat i') (b + of_nat j) = Some (j \<le> i' \<and> (\<forall>t<j. ss ! (i' - t) = es ! (j - t)))"
    if "j \<noteq> 0" "i' \<noteq> 0"
    using Suc.IH [of i'] Suc.prems that i by simp
  then show ?case unfolding step all by (auto simp: i)
qed simp

lemma suffix_tl_nth:
  assumes "es \<noteq> []" "length es \<le> length ss"
  shows "suffix (tl es) ss \<longleftrightarrow> (\<forall>t<length es - 1. ss ! (length ss - 1 - t) = es ! (length es - 1 - t))" (is "_ = ?r")
proof -
  let ?k = "length es - 1"
  have k: "?k \<le> length ss" using assms by simp
  have "suffix (tl es) ss \<longleftrightarrow> drop (length ss - ?k) ss = tl es"
  proof
    assume "suffix (tl es) ss"
    then show "drop (length ss - ?k) ss = tl es" by (auto simp: suffix_def)
  next
    assume "drop (length ss - ?k) ss = tl es"
    then show "suffix (tl es) ss" using suffix_drop [of "length ss - ?k" ss] by simp
  qed
  also have "\<dots> \<longleftrightarrow> (\<forall>i<?k. ss ! (length ss - ?k + i) = es ! Suc i)"
    using k by (subst list_eq_iff_nth_eq) (simp add: nth_tl)
  also have "\<dots> \<longleftrightarrow> ?r"
  proof
    assume l: "\<forall>i<?k. ss ! (length ss - ?k + i) = es ! Suc i"
    have "ss ! (length ss - 1 - t) = es ! (?k - t)" if t: "t < ?k" for t
    proof -
      have "length ss - ?k + (?k - 1 - t) = length ss - 1 - t" "Suc (?k - 1 - t) = ?k - t" using t k by simp_all
      then show ?thesis using l [rule_format, of "?k - 1 - t"] t by simp
    qed
    then show ?r by simp
  next
    assume r: ?r
    have "ss ! (length ss - ?k + i) = es ! Suc i" if i: "i < ?k" for i
    proof -
      have "length ss - 1 - (?k - 1 - i) = length ss - ?k + i" "?k - (?k - 1 - i) = Suc i" using i k by simp_all
      then show ?thesis using r [rule_format, of "?k - 1 - i"] i by simp
    qed
    then show "\<forall>i<?k. ss ! (length ss - ?k + i) = es ! Suc i" by simp
  qed
  finally show ?thesis .
qed

section \<open>Finding a module\<close>

text \<open>The path of a module as a list of characters; a proper path is an ended string that does not run over the end of memory.\<close>

definition path_string :: "memory \<Rightarrow> limine_file \<Rightarrow> u8 list" where
  "path_string m f = (case read_cstr m (path f) of None \<Rightarrow> [] | Some cs \<Rightarrow> cs)"

definition path_ok :: "memory \<Rightarrow> limine_file \<Rightarrow> bool" where
  "path_ok m f \<longleftrightarrow> path f \<noteq> 0 \<and> cstr_at m (path f) (path_string m f)
     \<and> unat (path f) + length (path_string m f) < 18446744073709551616"

lemma strstr_nonnull:
  assumes n: "cstr_at m name ns" and f: "path_ok m f"
  shows "\<exists>r. strstr m (path f) name = Some r \<and> (r \<noteq> 0 \<longleftrightarrow> sublist ns (path_string m f))"
proof (cases "first_occurrence ns (path_string m f)")
  case None
  then show ?thesis
    using strstr_first [OF n, of "path f" "path_string m f"] f first_occurrence_none [of ns "path_string m f"] by (simp add: path_ok_def)
next
  case (Some i)
  have "unat (path f + of_nat i) = unat (path f) + i"
    using first_occurrence_least [OF Some] f by (simp add: unat_add_64 unat_of_nat_64 path_ok_def)
  moreover have "0 < unat (path f)" using f by (simp add: path_ok_def unat_gt_0)
  ultimately have "path f + of_nat i \<noteq> 0" by auto
  then show ?thesis
    using strstr_first [OF n, of "path f" "path_string m f"] f Some first_occurrence_none [of ns "path_string m f"] by (simp add: path_ok_def)
qed

lemma getFile_loop_finds:
  "cstr_at (mem s) name ns \<Longrightarrow> \<forall>f\<in>set fs. path_ok (mem s) f \<Longrightarrow>
   \<exists>t. getFile_loop s name fs =
     Some (case find (\<lambda>f. sublist ns (path_string (mem s) f)) fs of None \<Rightarrow> No_file | Some f \<Rightarrow> File f, s\<lparr>trace := trace s @ map Serial t\<rparr>)"
proof (induction fs arbitrary: s)
  case Nil
  show ?case by (auto intro: exI [of _ "[]"])
next
  case (Cons f fs)
  define s1 where "s1 = say (Serial (path_string (mem s) f)) s"
  have c: "read_cstr (mem s) (path f) = Some (path_string (mem s) f)"
    using Cons.prems read_cstr_reads by (simp add: path_ok_def)
  obtain r where r: "strstr (mem s) (path f) name = Some r" "r \<noteq> 0 \<longleftrightarrow> sublist ns (path_string (mem s) f)"
    using strstr_nonnull [OF Cons.prems(1), of f] Cons.prems(2) by auto
  show ?case
  proof (cases "r = 0")
    case True
    obtain t where "getFile_loop s1 name fs =
        Some (case find (\<lambda>f. sublist ns (path_string (mem s1) f)) fs of None \<Rightarrow> No_file | Some f \<Rightarrow> File f, s1\<lparr>trace := trace s1 @ map Serial t\<rparr>)"
      using Cons.IH [of s1] Cons.prems by (auto simp: s1_def)
    then show ?thesis
      using True c r by (auto simp: s1_def say_def intro: exI [of _ "path_string (mem s) f # t"])
  next
    case False
    then show ?thesis
      using c r by (auto simp: say_def intro: exI [of _ "[path_string (mem s) f, cbytes ''Found file!'']"])
  qed
qed

text \<open>Whatever the strings are, only the trace changes, by serial output.\<close>

lemma getFile_loop_trace:
  "getFile_loop s name fs = Some (r, s') \<Longrightarrow> \<exists>t. s' = s\<lparr>trace := trace s @ map Serial t\<rparr>"
proof (induction s name fs rule: getFile_loop.induct)
  case (1 s name)
  then show ?case by (auto intro: exI [of _ "[]"])
next
  case (2 s name f fs)
  then obtain cs p where cs: "read_cstr (mem s) (path f) = Some cs" "strstr (mem s) (path f) name = Some p"
    by (auto split: option.splits simp: Let_def)
  show ?case
  proof (cases "p = 0")
    case True
    then obtain t where "s' = (say (Serial cs) s)\<lparr>trace := trace (say (Serial cs) s) @ map Serial t\<rparr>"
      using 2 cs by fastforce
    then show ?thesis by (auto simp: say_def intro: exI [of _ "cs # t"])
  next
    case False
    then show ?thesis using 2(2) cs by (auto simp: say_def intro: exI [of _ "[cs, cbytes ''Found file!'']"])
  qed
qed

lemma getFile_trace:
  assumes "getFile s fs name = Some (r, s')"
  shows "\<exists>t. s' = s\<lparr>trace := trace s @ map Serial t\<rparr>"
proof (cases fs)
  case None
  then show ?thesis using assms by (auto simp: getFile_def say_def intro: exI [of _ "[cbytes ''get file failed!'']"])
next
  case (Some files)
  then show ?thesis using assms getFile_loop_trace by (auto simp: getFile_def)
qed

section \<open>Properties\<close>

text \<open>C37. \<open>strstr\<close> returns the address of the first occurrence of the needle in the haystack, and null exactly
  when the needle does not occur (for a haystack whose occurrences are not at address 0); \<open>strlen\<close> returns the
  length of the string. Neither runs on when the strings are ended.\<close>
theorem strstr_finds_first:
  assumes "cstr_at m a hs" "cstr_at m b ns"
  shows "(if sublist ns hs
      then \<exists>i\<le>length hs. strstr m a b = Some (a + of_nat i) \<and> prefix ns (drop i hs) \<and> (\<forall>j<i. \<not> prefix ns (drop j hs))
      else strstr m a b = Some 0)
    \<and> strlen m a = Some (of_nat (length hs))"
proof (rule conjI)
  show "if sublist ns hs
      then \<exists>i\<le>length hs. strstr m a b = Some (a + of_nat i) \<and> prefix ns (drop i hs) \<and> (\<forall>j<i. \<not> prefix ns (drop j hs))
      else strstr m a b = Some 0"
  proof (cases "first_occurrence ns hs")
    case None
    then show ?thesis using strstr_first [OF assms(2,1)] first_occurrence_none [of ns hs] by simp
  next
    case (Some i)
    then have "sublist ns hs" using first_occurrence_none [of ns hs] by simp
    then show ?thesis using Some strstr_first [OF assms(2,1)] first_occurrence_least [OF Some] by auto
  qed
  show "strlen m a = Some (of_nat (length hs))"
    unfolding strlen_def using strlen_loop_counts [of m a 0 hs] assms(1) by simp
qed

text \<open>A memory that holds \<open>font.psf\<close> at 100 and \<open>.psf\<close> at 200.\<close>

definition two_strings :: "string \<Rightarrow> string \<Rightarrow> memory" where
  "two_strings s t = write_bytes (write_bytes (\<lambda>_. 0) 100 (cbytes s)) 200 (cbytes t)"

lemma two_strings_font: "cstr_at (two_strings ''font.psf'' ''.psf'') 100 (cbytes ''font.psf'')"
    "cstr_at (two_strings ''font.psf'' ''.psf'') 200 (cbytes ''.psf'')"
  by (simp_all add: two_strings_def write_bytes_def cbytes_def)

theorem strstr_finds_first_witness:
  "strstr (two_strings ''font.psf'' ''.psf'') 200 100 = Some 0
   \<and> (\<exists>i\<le>8. strstr (two_strings ''font.psf'' ''.psf'') 100 200 = Some (100 + of_nat i)
        \<and> prefix (cbytes ''.psf'') (drop i (cbytes ''font.psf''))
        \<and> (\<forall>j<i. \<not> prefix (cbytes ''.psf'') (drop j (cbytes ''font.psf''))))
   \<and> strlen (two_strings ''font.psf'' ''.psf'') 100 = Some 8"
proof -
  have s: "sublist (cbytes ''.psf'') (cbytes ''font.psf'')" "\<not> sublist (cbytes ''font.psf'') (cbytes ''.psf'')"
    using first_occurrence_none [of "cbytes ''.psf''" "cbytes ''font.psf''"]
      first_occurrence_none [of "cbytes ''font.psf''" "cbytes ''.psf''"] by (simp_all add: cbytes_def)
  have l: "length (cbytes ''font.psf'') = 8" by (simp add: cbytes_def)
  show ?thesis
    using strstr_finds_first [OF two_strings_font(2,1)] strstr_finds_first [OF two_strings_font] s unfolding l by simp
qed

text \<open>\<open>checkStringEndsWith\<close> on strings of at least two characters always returns, and says that the first
  ends with all of the second but its first character, which it never compares: it accepts every string that has the
  suffix, and others. For a suffix of one character it compares the byte in front of the suffix's storage and
  so rejects a string that has the suffix when that byte is not the string's last but one.\<close>
theorem checkStringEndsWith_skips_first:
  assumes "cstr_at m a ss" "cstr_at m b es" "2 \<le> length ss"
  shows "(2 \<le> length es \<longrightarrow> checkStringEndsWith m a b = Some (length es \<le> length ss \<and> suffix (tl es) ss)
        \<and> (suffix es ss \<longrightarrow> checkStringEndsWith m a b = Some True))
    \<and> (es = [last ss] \<and> m (b - 1) \<noteq> ss ! (length ss - 2) \<longrightarrow> checkStringEndsWith m a b = Some False)"
proof -
  have f: "checkStringEndsWith m a b = ends_loop m a b (a + of_nat (length ss) - 1) (b + of_nat (length es) - 1)"
    by (simp add: checkStringEndsWith_def find_end_ends [OF assms(1)] find_end_ends [OF assms(2)])
  have p: "x + of_nat n - 1 = x + of_nat (n - 1)" if "0 < n" for x :: u64 and n
    using that by (simp add: of_nat_diff)
  have main: "checkStringEndsWith m a b = Some (length es \<le> length ss \<and> suffix (tl es) ss)" if "2 \<le> length es"
  proof -
    have "0 < length ss" "0 < length es" using that assms(3) by linarith+
    then have "checkStringEndsWith m a b = Some (length es - 1 \<le> length ss - 1
        \<and> (\<forall>t<length es - 1. ss ! (length ss - 1 - t) = es ! (length es - 1 - t)))"
      unfolding f p [OF \<open>0 < length ss\<close>] p [OF \<open>0 < length es\<close>] using that assms(3)
      by (intro ends_loop_compares [OF assms(1,2)]) simp_all
    moreover have "es \<noteq> []" using that by auto
    ultimately show ?thesis using suffix_tl_nth [of es ss] that assms(3) by auto
  qed
  have covers: "checkStringEndsWith m a b = Some True" if e: "2 \<le> length es" and s: "suffix es ss"
  proof -
    have "suffix (tl es) ss" using s suffix_order.trans [OF suffix_tl] by blast
    then show ?thesis using main [OF e] suffix_length_le [OF s] by simp
  qed
  have one: "checkStringEndsWith m a b = Some False" if "es = [last ss]" "m (b - 1) \<noteq> ss ! (length ss - 2)"
  proof (rule trans [OF f])
    let ?n = "length ss"
    have at: "m (a + of_nat i) = ss ! i" if "i < ?n" for i using assms(1) that unfolding cstr_at_nth by blast
    have ne: "ss \<noteq> []" "?n - 1 < ?n" "?n - 2 < ?n" using assms(3) by auto
    have m: "m (a + of_nat (?n - 1)) = last ss" "m b = last ss" "m (a + of_nat (?n - 2)) = ss ! (?n - 2)"
      using at [OF ne(2)] at [OF ne(3)] last_conv_nth [OF ne(1)] assms(2) that(1) by simp_all
    have q: "a + of_nat (?n - 1) - 1 = a + of_nat (?n - 2)" using p [of "?n - 1" a] assms(3) by (simp add: numeral_2_eq_2)
    have z: "a + of_nat (?n - 2) = a \<longleftrightarrow> ?n = 2" using cstr_position [OF assms(1), of "?n - 2"] assms(3) by auto
    have "ends_loop m a b (a + of_nat (?n - 1)) b = Some False"
      unfolding ends_loop.simps [of m a b "a + of_nat (?n - 1)"] m q Let_def z
      by (simp add: ends_loop.simps [of m a b "a + of_nat (?n - 2)"] m that(2) that(2) [symmetric])
    then show "ends_loop m a b (a + of_nat (length ss) - 1) (b + of_nat (length es) - 1) = Some False"
      using p [of ?n a] ne(1) that(1) by (simp add: algebra_simps)
  qed
  show ?thesis using main covers one by blast
qed

text \<open>\<open>font_psf\<close> is accepted as ending with \<open>.psf\<close>; \<open>font\<close> is rejected for \<open>t\<close>.\<close>

theorem checkStringEndsWith_skips_first_witness:
  "checkStringEndsWith (two_strings ''font_psf'' ''.psf'') 100 200 = Some True
   \<and> \<not> suffix (cbytes ''.psf'') (cbytes ''font_psf'')
   \<and> checkStringEndsWith (two_strings ''font'' ''t'') 100 200 = Some False"
proof -
  have c: "cstr_at (two_strings ''font_psf'' ''.psf'') 100 (cbytes ''font_psf'')"
      "cstr_at (two_strings ''font_psf'' ''.psf'') 200 (cbytes ''.psf'')"
      "cstr_at (two_strings ''font'' ''t'') 100 (cbytes ''font'')"
      "cstr_at (two_strings ''font'' ''t'') 200 (cbytes ''t'')"
    by (simp_all add: two_strings_def write_bytes_def cbytes_def)
  have "suffix (tl (cbytes ''.psf'')) (cbytes ''font_psf'')" "\<not> suffix (cbytes ''.psf'') (cbytes ''font_psf'')"
    by (simp_all add: cbytes_def suffix_to_prefix)
  moreover have "two_strings ''font'' ''t'' 199 = 0" by (simp add: two_strings_def write_bytes_def cbytes_def)
  ultimately show ?thesis
    using checkStringEndsWith_skips_first [OF c(1,2)] checkStringEndsWith_skips_first [OF c(3,4)]
    by (simp add: cbytes_def)
qed

end
