(* ===== verification/Printf.thy ===== *)
theory Printf
  imports Strings
begin

text \<open>
  Formatted output, \<^verbatim>\<open>kernel/src/klibc/string/printf.c\<close>. The format, the string arguments and the buffer are in the byte
  memory; an argument list is the list of its eight-byte slots. \<open>_vprintf\<close> is a partial function: it is
  \<open>None\<close> where the C function does not return or reads what is not there (an argument past the last one, or
  the digit string at a negative index, see \<open>itoa\<close>). The reference is \<open>format_text\<close>, which works on lists of characters.
\<close>

section \<open>Conversions\<close>

text \<open>The local variables of the conversion of a number.\<close>

record conversion =
  conv_base :: int
  conv_sign :: bool
  conv_length :: int
  conv_isPtr :: bool

definition conv_init :: conversion where
  "conv_init = \<lparr>conv_base = 10, conv_sign = True, conv_length = 32, conv_isPtr = False\<rparr>"

text \<open>
  The letters of one conversion, the \<open>do\<close> loop: \<open>p\<close> ends it, and so does a character that is none of the letters, which
  is not consumed.
\<close>

partial_function (option) conv_loop :: "memory \<Rightarrow> u64 \<Rightarrow> conversion \<Rightarrow> (u64 \<times> conversion) option" where
  "conv_loop m fmt c =
     (if m fmt = of_char (CHR ''i'') then conv_loop m (fmt + 1) (c\<lparr>conv_length := 32\<rparr>)
      else if m fmt = of_char (CHR ''p'') then
        Some (fmt + 1, c\<lparr>conv_base := 16, conv_isPtr := True, conv_sign := False, conv_length := 64\<rparr>)
      else if m fmt = of_char (CHR ''u'') then conv_loop m (fmt + 1) (c\<lparr>conv_sign := False\<rparr>)
      else if m fmt = of_char (CHR ''h'') then conv_loop m (fmt + 1) (c\<lparr>conv_base := 16\<rparr>)
      else if m fmt = of_char (CHR ''l'') then conv_loop m (fmt + 1) (c\<lparr>conv_length := 64\<rparr>)
      else Some (fmt, c))"

text \<open>\<open>utoa\<close> and \<open>itoa\<close> into the local array \<open>res\<close> of 100 zeros, read back up to its first zero.\<close>

definition res_utoa :: "u64 \<Rightarrow> int \<Rightarrow> u8 list option" where
  "res_utoa v base = (case utoa (\<lambda>_. 0) v 0 (word_of_int base) of None \<Rightarrow> None | Some (_, m) \<Rightarrow> Some (local_string 100 m 0))"

definition res_itoa :: "u64 \<Rightarrow> int \<Rightarrow> u8 list option" where
  "res_itoa v base = (case itoa (\<lambda>_. 0) v 0 (word_of_int base) of None \<Rightarrow> None | Some (_, m) \<Rightarrow> Some (local_string 100 m 0))"

definition convert :: "conversion \<Rightarrow> u64 \<Rightarrow> u8 list option" where
  "convert c arg =
     (if conv_isPtr c then res_utoa arg 16
      else if \<not> conv_sign c \<and> conv_length c = 32 then res_utoa (ucast (ucast arg :: u32)) (conv_base c)
      else if conv_sign c \<and> conv_length c = 32 then res_itoa (scast (ucast arg :: u32)) (conv_base c)
      else if \<not> conv_sign c \<and> conv_length c = 64 then res_utoa arg (conv_base c)
      else if conv_sign c \<and> conv_length c = 64 then res_itoa arg (conv_base c)
      else Some [])"

section \<open>The formatting loop\<close>

primrec put_bytes :: "memory \<Rightarrow> u64 \<Rightarrow> u8 list \<Rightarrow> memory \<times> u64" where
  "put_bytes m buffer [] = (m, buffer)"
| "put_bytes m buffer (c # cs) = put_bytes (m(buffer := c)) (buffer + 1) cs"

text \<open>\<open>while (*str) { *buffer = *str; str++; buffer++; }\<close>\<close>

partial_function (option) copy_str :: "memory \<Rightarrow> u64 \<Rightarrow> u64 \<Rightarrow> (memory \<times> u64) option" where
  "copy_str m str buffer =
     (if m str \<noteq> 0 then copy_str (m(buffer := m str)) (str + 1) (buffer + 1) else Some (m, buffer))"

definition is_conversion :: "u8 \<Rightarrow> bool" where
  "is_conversion c \<longleftrightarrow> c \<in> set (cbytes ''ipuhl'')"

text \<open>\<open>_vprintf\<close>; the value is the memory and where the buffer pointer ends.\<close>

partial_function (option) vprintf :: "memory \<Rightarrow> u64 \<Rightarrow> u64 \<Rightarrow> u64 list \<Rightarrow> (memory \<times> u64) option" where
  "vprintf m fmt buffer args =
     (if m fmt = 0 then Some (m, buffer)
      else if m fmt = of_char (CHR ''%'') then
        let fmt = fmt + 1
        in if m fmt = of_char (CHR '' '') \<or> m fmt = of_char (CHR ''%'') then
             vprintf (m(buffer := of_char (CHR ''%''))) (fmt + 1) (buffer + 1) args
           else if m fmt = of_char (CHR ''s'') then
             (case args of [] \<Rightarrow> None | str # args \<Rightarrow>
                Option.bind (copy_str m str buffer) (\<lambda>(m, buffer). vprintf m (fmt + 1) buffer args))
           else if is_conversion (m fmt) then
             Option.bind (conv_loop m fmt conv_init) (\<lambda>(fmt, c).
               case args of [] \<Rightarrow> None | arg # args \<Rightarrow>
                 Option.bind (convert c arg) (\<lambda>res.
                   let (m, buffer) = (if conv_base c = 16 then put_bytes m buffer (cbytes ''0x'') else (m, buffer));
                       (m, buffer) = put_bytes m buffer res
                   in vprintf m fmt buffer args))
           else vprintf m fmt buffer args
      else vprintf (m(buffer := m fmt)) (fmt + 1) (buffer + 1) args)"

text \<open>
  The callers. \<open>buffer\<close> of \<open>printf\<close>, \<open>serial_printf\<close> and \<open>println\<close> is a local array of \<open>PRINTBUFLEN\<close> bytes at an address of the
  stack, cleared by its initialiser and again by \<open>memset\<close>; \<open>sprintf\<close> is given its buffer and clears nothing.
\<close>

definition PRINTBUFLEN :: u64 where "PRINTBUFLEN = 1024"

definition print_buffer :: "memory \<Rightarrow> u64 \<Rightarrow> u64 \<Rightarrow> u64 list \<Rightarrow> (u8 list \<times> memory) option" where
  "print_buffer m fmt buffer args =
     (let m = snd (memset m buffer 0 PRINTBUFLEN);
          m = snd (memset m buffer 0 PRINTBUFLEN)
      in Option.bind (vprintf m fmt buffer args) (\<lambda>(m, _).
           Option.bind (read_cstr m buffer) (\<lambda>text. Some (text, m))))"

definition printf :: "machine \<Rightarrow> u64 \<Rightarrow> u64 \<Rightarrow> u64 list \<Rightarrow> machine option" where
  "printf s buffer fmt args =
     Option.bind (print_buffer (mem s) fmt buffer args) (\<lambda>(text, m). Some (say (Tty_print text) (s\<lparr>mem := m\<rparr>)))"

definition sprintf :: "machine \<Rightarrow> u64 \<Rightarrow> u64 \<Rightarrow> u64 list \<Rightarrow> machine option" where
  "sprintf s fmt buffer args = Option.bind (vprintf (mem s) fmt buffer args) (\<lambda>(m, _). Some (s\<lparr>mem := m\<rparr>))"

definition serial_printf :: "machine \<Rightarrow> u64 \<Rightarrow> u64 \<Rightarrow> u64 list \<Rightarrow> machine option" where
  "serial_printf s buffer fmt args =
     Option.bind (print_buffer (mem s) fmt buffer args) (\<lambda>(text, m). Some (say (Serial text) (s\<lparr>mem := m\<rparr>)))"

definition println :: "machine \<Rightarrow> u64 \<Rightarrow> u64 \<Rightarrow> u64 list \<Rightarrow> machine option" where
  "println s buffer fmt args =
     Option.bind (print_buffer (mem s) fmt buffer args)
       (\<lambda>(text, m). Some (say Tty_break (say (Tty_print text) (s\<lparr>mem := m\<rparr>))))"

section \<open>The reference\<close>

fun scan_conversion :: "conversion \<Rightarrow> u8 list \<Rightarrow> conversion \<times> u8 list" where
  "scan_conversion c [] = (c, [])"
| "scan_conversion c (x # xs) =
     (if x = of_char (CHR ''i'') then scan_conversion (c\<lparr>conv_length := 32\<rparr>) xs
      else if x = of_char (CHR ''p'') then
        (c\<lparr>conv_base := 16, conv_isPtr := True, conv_sign := False, conv_length := 64\<rparr>, xs)
      else if x = of_char (CHR ''u'') then scan_conversion (c\<lparr>conv_sign := False\<rparr>) xs
      else if x = of_char (CHR ''h'') then scan_conversion (c\<lparr>conv_base := 16\<rparr>) xs
      else if x = of_char (CHR ''l'') then scan_conversion (c\<lparr>conv_length := 64\<rparr>) xs
      else (c, x # xs))"

lemma scan_shorter: "length (snd (scan_conversion c xs)) \<le> length xs"
  by (induction c xs rule: scan_conversion.induct) auto

lemma scan_subset: "set (snd (scan_conversion c xs)) \<subseteq> set xs"
  by (induction c xs rule: scan_conversion.induct) auto

lemma scan_shorter_Cons: "length (snd (scan_conversion c (x # xs))) < Suc (Suc (length xs))"
  using scan_shorter [of c "x # xs"] by simp

text \<open>A signed number in a base, and the text of one conversion.\<close>

definition signed_text :: "nat \<Rightarrow> int \<Rightarrow> u8 list" where
  "signed_text b v = (if v < 0 then of_char (CHR ''-'') # render b (nat (- v)) else render b (nat v))"

definition number_text :: "conversion \<Rightarrow> u64 \<Rightarrow> u8 list" where
  "number_text c v =
     (let digits =
        if conv_isPtr c then render 16 (unat v)
        else if conv_length c = 32 then
          (if conv_sign c then signed_text (nat (conv_base c)) (sint (ucast v :: u32))
           else render (nat (conv_base c)) (unat (ucast v :: u32)))
        else (if conv_sign c then signed_text (nat (conv_base c)) (sint v) else render (nat (conv_base c)) (unat v))
      in (if conv_base c = 16 then cbytes ''0x'' else []) @ digits)"

text \<open>The one value that has no text: the smallest 64-bit number, printed as a signed one.\<close>

definition printable :: "conversion \<Rightarrow> u64 \<Rightarrow> bool" where
  "printable c v \<longleftrightarrow> \<not> (conv_sign c \<and> conv_length c = 64 \<and> v = 0x8000000000000000)"

function format_text :: "u8 list \<Rightarrow> va list \<Rightarrow> u8 list option" where
  "format_text [] args = Some []"
| "format_text (x # xs) args =
     (if x \<noteq> of_char (CHR ''%'') then map_option (Cons x) (format_text xs args)
      else case xs of
        [] \<Rightarrow> Some []
      | y # ys \<Rightarrow>
          if y = of_char (CHR '' '') \<or> y = of_char (CHR ''%'') then map_option (Cons (of_char (CHR ''%''))) (format_text ys args)
          else if y = of_char (CHR ''s'') then
            (case args of Va_str s # args \<Rightarrow> map_option ((@) s) (format_text ys args) | _ \<Rightarrow> None)
          else if is_conversion y then
            (case args of
               Va_int v # args \<Rightarrow>
                 (if printable (fst (scan_conversion conv_init xs)) v
                  then map_option ((@) (number_text (fst (scan_conversion conv_init xs)) v))
                    (format_text (snd (scan_conversion conv_init xs)) args)
                  else None)
             | _ \<Rightarrow> None)
          else format_text xs args)"
  by pat_completeness auto
termination
  by (relation "measure (length \<circ> fst)") (auto simp: scan_shorter_Cons simp del: scan_conversion.simps)

declare format_text.simps [simp del]

section \<open>Lemmas\<close>

lemma filled_zeros: "filled (\<lambda>_. 0) a 0 n = (\<lambda>_. 0)"
  by (simp add: filled_def)

lemma local_string_zeros:
  assumes "0 \<notin> set s" "length s < n" "n < 18446744073709551616"
  shows "local_string n (write_bytes (\<lambda>_. 0) 0 s) 0 = s"
proof (rule local_string_cstr)
  show "cstr_at (write_bytes (\<lambda>_. 0) 0 s) 0 s"
    unfolding cstr_at_nth using assms nth_mem by (fastforce simp: write_bytes_def unat_of_nat_64)
qed (use assms in simp)

lemma digits_fit: "2 \<le> b \<Longrightarrow> length (render b (unat (v :: u64))) \<le> 64"
proof -
  assume b: "2 \<le> b"
  have "unat v < b ^ 64"
    using unat_lt_64 [of v] power_mono [OF b, of 64] by simp
  then show ?thesis using length_to_base [of b "unat v" 64] b by (simp add: render_def)
qed

lemma res_utoa_digits:
  assumes "b = 10 \<or> b = 16"
  shows "res_utoa v b = Some (render (nat b) (unat v))"
proof -
  have w: "2 \<le> (word_of_int b :: u8)" "word_of_int b \<le> (16 :: u8)" "unat (word_of_int b :: u8) = nat b" "2 \<le> nat b" "nat b \<le> 36"
    using assms by auto
  show ?thesis
    using utoa_writes [OF w(1,2)] digits_fit [OF w(4), of v] render_nonzero [OF w(4,5)]
    by (simp add: res_utoa_def w(3) filled_zeros local_string_zeros)
qed

lemma res_itoa_digits:
  assumes b: "b = 10 \<or> b = 16" and v: "v \<noteq> 0x8000000000000000"
  shows "res_itoa v b = Some (signed_text (nat b) (sint v))"
proof (cases "sint v < 0")
  case True
  have w: "2 \<le> (word_of_int b :: u8)" "word_of_int b \<le> (16 :: u8)" "unat (word_of_int b :: u8) = nat b" "2 \<le> nat b" "nat b \<le> 36"
    using b by auto
  have n: "unat (- v) = nat (- sint v)" using sint_negate_64(2) [OF True v] by linarith
  show ?thesis
    using itoa_negative [OF w(1,2) True v] digits_fit [OF w(4), of "- v"] render_nonzero [OF w(4,5)] True
    by (simp add: res_itoa_def w(3) filled_zeros local_string_zeros signed_text_def n)
next
  case False
  then have "nat (sint v) = unat v" using uint_lt_64 [of v] by (simp add: sint_64 split: if_splits)
  then show ?thesis
    using False itoa_nonneg [of v] res_utoa_digits [OF b, of v] by (simp add: res_itoa_def res_utoa_def signed_text_def)
qed

text \<open>The conversions that the letters can describe.\<close>

definition conv_ok :: "conversion \<Rightarrow> bool" where
  "conv_ok c \<longleftrightarrow> (conv_base c = 10 \<or> conv_base c = 16) \<and> (conv_length c = 32 \<or> conv_length c = 64)
     \<and> (conv_isPtr c \<longrightarrow> conv_base c = 16 \<and> \<not> conv_sign c)"

lemma scan_conv_ok: "conv_ok c \<Longrightarrow> \<not> conv_isPtr c \<Longrightarrow> conv_ok (fst (scan_conversion c xs))"
  by (induction c xs rule: scan_conversion.induct) (auto simp: conv_ok_def)

lemma sint_scast_32: "sint (scast (x :: u32) :: u64) = sint x"
proof -
  have "signed_take_bit 63 (sint x) = sint x"
    using sint_range_size [of x] by (intro signed_take_bit_int_eq_self) (simp_all add: word_size)
  then show ?thesis by (simp add: signed_scast_eq)
qed

lemma unat_ucast_32: "unat (ucast (x :: u32) :: u64) = unat x"
  using unsigned_less [where ?'a = nat, of x] by (simp add: unsigned_ucast_eq take_bit_nat_eq_self)

lemma convert_text:
  assumes "conv_ok c" "printable c v"
  shows "convert c v = Some (drop (if conv_base c = 16 then 2 else 0) (number_text c v))"
proof -
  have "(scast (ucast v :: u32) :: u64) \<noteq> 0x8000000000000000"
  proof
    assume a: "(scast (ucast v :: u32) :: u64) = 0x8000000000000000"
    have "sint (0x8000000000000000 :: u64) = - 9223372036854775808" by simp
    then show False using sint_scast_32 [of "ucast v"] sint_ge [of "ucast v :: u32"] unfolding a by simp
  qed
  then show ?thesis
    using assms res_utoa_digits [of 16 v] res_utoa_digits [of "conv_base c"] res_itoa_digits [of "conv_base c"]
    by (auto simp: conv_ok_def printable_def convert_def number_text_def sint_scast_32 cbytes_def unat_ucast_32)
qed

text \<open>The prefix and the digits are put out one after the other.\<close>

lemma number_pieces:
  assumes "conv_ok c" "printable c v"
  shows "\<exists>res. convert c v = Some res \<and> number_text c v = (if conv_base c = 16 then cbytes ''0x'' else []) @ res"
  unfolding convert_text [OF assms] number_text_def by (simp add: cbytes_def Let_def)

text \<open>Strings that lie in a set of addresses that the output stays out of.\<close>

definition cstr_in :: "u64 set \<Rightarrow> memory \<Rightarrow> u64 \<Rightarrow> u8 list \<Rightarrow> bool" where
  "cstr_in S m a s \<longleftrightarrow> cstr_at m a s \<and> (\<forall>i\<le>length s. a + of_nat i \<in> S)"

lemma cstr_in_Nil [simp]: "cstr_in S m a [] \<longleftrightarrow> m a = 0 \<and> a \<in> S"
  by (simp add: cstr_in_def)

lemma cstr_in_Cons [simp]: "cstr_in S m a (c # s) \<longleftrightarrow> c \<noteq> 0 \<and> m a = c \<and> a \<in> S \<and> cstr_in S m (a + 1) s"
proof -
  have "(\<forall>i\<le>length (c # s). a + of_nat i \<in> S) \<longleftrightarrow> a \<in> S \<and> (\<forall>i\<le>length s. a + 1 + of_nat i \<in> S)"
    using All_less_Suc2 [of "Suc (length s)" "\<lambda>i. a + of_nat i \<in> S"] by (simp add: less_Suc_eq_le add.assoc)
  then show ?thesis unfolding cstr_in_def by auto
qed

lemma cstr_in_frame: "(\<And>x. x \<in> S \<Longrightarrow> m' x = m x) \<Longrightarrow> cstr_in S m' a s = cstr_in S m a s"
  by (induction s arbitrary: a) auto

definition out_of :: "u64 set \<Rightarrow> u64 \<Rightarrow> nat \<Rightarrow> bool" where
  "out_of S b n \<longleftrightarrow> (\<forall>i<n. b + of_nat i \<notin> S)"

lemma out_of_0 [simp]: "out_of S b 0"
  by (simp add: out_of_def)

lemma out_of_Suc [simp]: "out_of S b (Suc n) \<longleftrightarrow> b \<notin> S \<and> out_of S (b + 1) n"
  by (simp add: out_of_def All_less_Suc2 add.assoc)

lemma put_bytes_append:
  "put_bytes m b (xs @ ys) = put_bytes (fst (put_bytes m b xs)) (snd (put_bytes m b xs)) ys"
  by (induction xs arbitrary: m b) auto

lemma put_bytes_end: "snd (put_bytes m b xs) = b + of_nat (length xs)"
  by (induction xs arbitrary: m b) (simp_all add: add.assoc)

lemma out_of_append: "out_of S b (length (xs @ ys)) \<longleftrightarrow> out_of S b (length xs) \<and> out_of S (snd (put_bytes m b xs)) (length ys)"
  by (induction xs arbitrary: m b) auto

lemma put_bytes_frame: "out_of S b (length xs) \<Longrightarrow> x \<in> S \<Longrightarrow> fst (put_bytes m b xs) x = m x"
  by (induction xs arbitrary: m b) auto

lemma put_bytes_write:
  "length xs < 18446744073709551616 \<Longrightarrow> put_bytes m b xs = (write_bytes m b xs, b + of_nat (length xs))"
  by (induction xs arbitrary: m b) (simp_all add: write_bytes_Cons add.assoc)

lemma copy_str_puts: "cstr_in S m str s \<Longrightarrow> out_of S b (length s) \<Longrightarrow> copy_str m str b = Some (put_bytes m b s)"
proof (induction s arbitrary: m str b)
  case Nil
  then show ?case by (simp add: copy_str.simps)
next
  case (Cons c s)
  have "cstr_in S (m(b := c)) (str + 1) s"
    using Cons.prems cstr_in_frame [of S "m(b := c)" m "str + 1" s] by fastforce
  then have "copy_str (m(b := c)) (str + 1) (b + 1) = Some (put_bytes m b (c # s))"
    using Cons.IH [of "m(b := c)" "str + 1" "b + 1"] Cons.prems by (simp add: fun_upd_def)
  then show ?case using Cons.prems by (subst copy_str.simps) simp
qed

lemma conv_loop_scans:
  "cstr_in S m fmt xs \<Longrightarrow> \<exists>fmt'. conv_loop m fmt c = Some (fmt', fst (scan_conversion c xs))
     \<and> cstr_in S m fmt' (snd (scan_conversion c xs))"
proof (induction c xs arbitrary: fmt rule: scan_conversion.induct)
  case (1 c)
  then show ?case by (simp add: conv_loop.simps)
next
  case (2 c x xs)
  have x: "m fmt = x" "cstr_in S m (fmt + 1) xs" using 2(5) by simp_all
  show ?case
    unfolding conv_loop.simps [of m fmt] x(1) scan_conversion.simps
    using 2(1-4) 2(5) x(2) by auto
qed

text \<open>What a slot holds.\<close>

fun holds :: "u64 set \<Rightarrow> memory \<Rightarrow> va \<Rightarrow> u64 \<Rightarrow> bool" where
  "holds S m (Va_int v) slot \<longleftrightarrow> slot = v"
| "holds S m (Va_str s) slot \<longleftrightarrow> cstr_in S m slot s"

lemma holds_frame:
  assumes "\<And>x. x \<in> S \<Longrightarrow> m' x = m x"
  shows "holds S m' v slot = holds S m v slot"
  using cstr_in_frame [OF assms] by (cases v) simp_all

lemma args_frame:
  assumes "\<And>x. x \<in> S \<Longrightarrow> m' x = m x"
  shows "list_all2 (holds S m') vs slots = list_all2 (holds S m) vs slots"
proof -
  have "holds S m' = holds S m" by (intro ext holds_frame assms)
  then show ?thesis by simp
qed

text \<open>
  One more piece of output: the pieces are put out one after the other, and what is put out leaves the format and
  the arguments as they are.
\<close>

lemma vprintf_continue:
  assumes "out_of S b (length (xs @ ys))" "cstr_in S m fmt F" "list_all2 (holds S m) vs args"
    and rest: "\<And>m b. cstr_in S m fmt F \<Longrightarrow> list_all2 (holds S m) vs args \<Longrightarrow> out_of S b (length ys)
      \<Longrightarrow> vprintf m fmt b args = Some (put_bytes m b ys)"
  shows "vprintf (fst (put_bytes m b xs)) fmt (snd (put_bytes m b xs)) args = Some (put_bytes m b (xs @ ys))"
proof -
  have o: "out_of S b (length xs)" "out_of S (snd (put_bytes m b xs)) (length ys)"
    using assms(1) out_of_append by blast+
  have f: "fst (put_bytes m b xs) x = m x" if "x \<in> S" for x using put_bytes_frame [OF o(1) that] .
  show ?thesis
    unfolding put_bytes_append using assms(2,3) o(2) by (intro rest) (simp_all add: cstr_in_frame [OF f] args_frame [OF f])
qed

lemma vprintf_formats:
  "format_text F vs = Some out \<Longrightarrow> cstr_in S m fmt F \<Longrightarrow> list_all2 (holds S m) vs args \<Longrightarrow> out_of S b (length out)
   \<Longrightarrow> vprintf m fmt b args = Some (put_bytes m b out)"
proof (induction F vs arbitrary: m fmt args b out rule: format_text.induct)
  case (1 vs)
  then show ?case by (simp add: vprintf.simps format_text.simps)
next
  case (2 x xs vs)
  have x: "x \<noteq> 0" "m fmt = x" "cstr_in S m (fmt + 1) xs" using 2 by simp_all
  show ?case
  proof (cases "x = of_char (CHR ''%'')")
    case False
    then obtain t where t: "format_text xs vs = Some t" "out = [x] @ t" using 2(6) by (auto simp: format_text.simps)
    have "vprintf (fst (put_bytes m b [x])) (fmt + 1) (snd (put_bytes m b [x])) args = Some (put_bytes m b ([x] @ t))"
      using 2 x t False by (intro vprintf_continue [of S b "[x]" t]) auto
    then show ?thesis using x False t(2) by (subst vprintf.simps) simp
  next
    case percent: True
    show ?thesis
    proof (cases xs)
      case Nil
      then have "m (fmt + 1) = 0" "out = []" using x 2(6) percent by (auto simp: format_text.simps)
      then show ?thesis
        using x percent by (subst vprintf.simps) (simp add: Let_def is_conversion_def cbytes_def vprintf.simps [of m "fmt + 1"])
    next
      case (Cons y ys)
      have y: "m (fmt + 1) = y" "y \<noteq> 0" "cstr_in S m (fmt + 1 + 1) ys" using x(3) Cons by simp_all
      consider (sign) "y = of_char (CHR '' '') \<or> y = of_char (CHR ''%'')"
        | (str) "\<not> (y = of_char (CHR '' '') \<or> y = of_char (CHR ''%''))" "y = of_char (CHR ''s'')"
        | (num) "\<not> (y = of_char (CHR '' '') \<or> y = of_char (CHR ''%''))" "y \<noteq> of_char (CHR ''s'')" "is_conversion y"
        | (other) "\<not> (y = of_char (CHR '' '') \<or> y = of_char (CHR ''%''))" "y \<noteq> of_char (CHR ''s'')" "\<not> is_conversion y"
        by blast
      then show ?thesis
      proof cases
        case sign
        then obtain t where t: "format_text ys vs = Some t" "out = [of_char (CHR ''%'')] @ t"
          using 2(6) percent Cons by (auto simp: format_text.simps)
        have "vprintf (fst (put_bytes m b [of_char (CHR ''%'')])) (fmt + 1 + 1) (snd (put_bytes m b [of_char (CHR ''%'')])) args
            = Some (put_bytes m b ([of_char (CHR ''%'')] @ t))"
          using 2(8,9) y t by (intro vprintf_continue [of S b "[of_char (CHR ''%'')]" t] 2(2) [OF _ Cons sign]) (simp_all add: percent)
        then show ?thesis using x y sign percent t(2) by (subst vprintf.simps) (auto simp: Let_def)
      next
        case other
        then have "format_text xs vs = Some out"
          using 2(6) percent Cons by (subst (asm) format_text.simps(2)) simp
        then have "vprintf m (fmt + 1) b args = Some (put_bytes m b out)"
          using 2(8,9) x(3) percent by (intro 2(5) [OF _ Cons other]) simp_all
        then show ?thesis using x(1,2) y other percent by (subst vprintf.simps) (simp add: Let_def)
      next
        case str
        then obtain s vs' t where v: "vs = Va_str s # vs'" "format_text ys vs' = Some t" "out = s @ t"
          using 2(6) percent Cons by (auto simp: format_text.simps split: list.splits va.splits)
        then obtain slot args' where a: "args = slot # args'" "cstr_in S m slot s" "list_all2 (holds S m) vs' args'"
          using 2(8) by (auto simp: list_all2_Cons1)
        have "out_of S b (length s)" using 2(9) v(3) out_of_append by blast
        then have copy: "copy_str m slot b = Some (put_bytes m b s)" using copy_str_puts [OF a(2)] by simp
        have "vprintf (fst (put_bytes m b s)) (fmt + 1 + 1) (snd (put_bytes m b s)) args' = Some (put_bytes m b (s @ t))"
          using 2(9) y(3) a(3) v by (intro vprintf_continue [of S b s t] 2(3) [OF _ Cons str v(1) refl]) (simp_all add: percent)
        then show ?thesis
          using x(1,2) y str percent a(1) v(3) copy by (subst vprintf.simps) (simp add: Let_def case_prod_beta)
      next
        case num
        let ?c = "fst (scan_conversion conv_init xs)" and ?F = "snd (scan_conversion conv_init xs)"
        from num obtain v vs' t where v: "vs = Va_int v # vs'" "printable ?c v" "format_text ?F vs' = Some t" "out = number_text ?c v @ t"
          using 2(6) percent Cons by (auto simp: format_text.simps simp del: scan_conversion.simps split: list.splits va.splits if_splits)
        then obtain args' where a: "args = v # args'" "list_all2 (holds S m) vs' args'"
          using 2(8) by (auto simp: list_all2_Cons1)
        obtain fmt' where f: "conv_loop m (fmt + 1) conv_init = Some (fmt', ?c)" "cstr_in S m fmt' ?F"
          using conv_loop_scans [OF x(3)] by blast
        have "vprintf (fst (put_bytes m b (number_text ?c v))) fmt' (snd (put_bytes m b (number_text ?c v))) args'
            = Some (put_bytes m b (number_text ?c v @ t))"
          using 2(9) f(2) a(2) v
          by (intro vprintf_continue [of S b "number_text ?c v" t] 2(4) [OF _ Cons num v(1) refl]) (simp_all add: percent)
        moreover have "conv_ok ?c" by (rule scan_conv_ok) (simp_all add: conv_ok_def conv_init_def)
        then obtain res where "convert ?c v = Some res"
            "number_text ?c v = (if conv_base ?c = 16 then cbytes ''0x'' else []) @ res"
          using number_pieces v(2) by blast
        ultimately show ?thesis
          using x(1,2) y(1) num percent a(1) v(4) f(1)
          by (subst vprintf.simps) (auto simp: Let_def case_prod_beta put_bytes_append)
      qed
    qed
  qed
qed

text \<open>No piece of output contains a zero.\<close>

lemma number_text_nonzero: "conv_ok c \<Longrightarrow> 0 \<notin> set (number_text c v)"
  using render_nonzero [of 10] render_nonzero [of 16]
  by (auto simp: number_text_def conv_ok_def signed_text_def cbytes_def Let_def)

lemma format_nonzero:
  "format_text F vs = Some out \<Longrightarrow> 0 \<notin> set F \<Longrightarrow> (\<And>s. Va_str s \<in> set vs \<Longrightarrow> 0 \<notin> set s) \<Longrightarrow> 0 \<notin> set out"
proof (induction F vs arbitrary: out rule: format_text.induct)
  case (1 vs)
  then show ?case by (simp add: format_text.simps)
next
  case (2 x xs vs)
  let ?c = "fst (scan_conversion conv_init xs)" and ?F = "snd (scan_conversion conv_init xs)"
  have ok: "conv_ok ?c" by (rule scan_conv_ok) (simp_all add: conv_ok_def conv_init_def)
  have "0 \<notin> set ?F" using scan_subset [of conv_init xs] 2(7) by auto
  then show ?case
    using 2 number_text_nonzero [OF ok]
    by (auto simp: format_text.simps(2) simp del: scan_conversion.simps split: if_splits list.splits va.splits)
qed

text \<open>Addresses outside of a range of \<open>n\<close> bytes.\<close>

definition beyond :: "u64 \<Rightarrow> nat \<Rightarrow> u64 set" where
  "beyond b n = {x. n \<le> unat (x - b)}"

lemma out_of_beyond: "k \<le> n \<Longrightarrow> n \<le> 18446744073709551616 \<Longrightarrow> out_of (beyond b n) b k"
  by (auto simp: out_of_def beyond_def unat_of_nat_64)

lemma holds_nonzero: "list_all2 (holds S m) vs args \<Longrightarrow> Va_str s \<in> set vs \<Longrightarrow> 0 \<notin> set s"
proof -
  assume "list_all2 (holds S m) vs args" "Va_str s \<in> set vs"
  then obtain slot where "holds S m (Va_str s) slot" by (auto simp: list_all2_conv_all_nth in_set_conv_nth)
  then show ?thesis by (auto simp: cstr_in_def cstr_at_nth in_set_conv_nth)
qed

lemma print_buffer_text:
  assumes F: "format_text F vs = Some out" and len: "length out < 1024"
    and fmt: "cstr_in (beyond buf 1024) m fmt F" and args: "list_all2 (holds (beyond buf 1024) m) vs args"
  shows "print_buffer m fmt buf args = Some (out, write_bytes (filled m buf 0 1024) buf out)"
proof -
  let ?S = "beyond buf 1024" and ?m = "filled m buf 0 1024"
  have m: "snd (memset (snd (memset m buf 0 PRINTBUFLEN)) buf 0 PRINTBUFLEN) = ?m"
    by (simp add: memset_filled PRINTBUFLEN_def filled_def fun_eq_iff)
  have fr: "?m x = m x" if "x \<in> ?S" for x using that by (simp add: filled_def beyond_def)
  have "vprintf ?m fmt buf args = Some (put_bytes ?m buf out)"
    using vprintf_formats [OF F, of ?S ?m fmt args buf] fmt args out_of_beyond [of "length out" 1024 buf] len
    by (simp add: cstr_in_frame [OF fr] args_frame [OF fr])
  then have v: "vprintf ?m fmt buf args = Some (write_bytes ?m buf out, buf + of_nat (length out))"
    using put_bytes_write [of out ?m buf] len by simp
  have "0 \<notin> set F" using fmt by (auto simp: cstr_in_def cstr_at_nth in_set_conv_nth)
  then have nz: "0 \<notin> set out" using format_nonzero [OF F] holds_nonzero [OF args] by blast
  have "out ! i \<noteq> 0" if "i < length out" for i using nth_mem [OF that] nz by metis
  then have "cstr_at (write_bytes ?m buf out) buf out"
    unfolding cstr_at_nth using len by (simp add: write_bytes_def unat_of_nat_64 filled_def)
  then show ?thesis
    by (simp add: print_buffer_def m v read_cstr_reads)
qed

section \<open>Properties\<close>

text \<open>C11. \<open>sprintf\<close>, given a format that \<open>format_text\<close> turns into a text, arguments that hold what the format asks for, and a
  buffer that neither the format nor a string argument overlaps, returns with exactly that text in the buffer and changes
  no other byte: it does not end the text with a zero, so what the buffer then holds as a C string depends
  on what was there before.\<close>
theorem sprintf_writes_text:
  assumes "format_text F vs = Some out" "length out < 18446744073709551616"
    and "cstr_in (beyond buf (length out)) (mem s) fmt F" "list_all2 (holds (beyond buf (length out)) (mem s)) vs args"
  shows "sprintf s fmt buf args = Some (s\<lparr>mem := write_bytes (mem s) buf out\<rparr>)
    \<and> write_bytes (mem s) buf out (buf + of_nat (length out)) = mem s (buf + of_nat (length out))"
proof -
  have "vprintf (mem s) fmt buf args = Some (write_bytes (mem s) buf out, buf + of_nat (length out))"
    using vprintf_formats [OF assms(1,3,4)] out_of_beyond [of "length out" "length out" buf] assms(2)
      put_bytes_write [of out "mem s" buf] by simp
  then show ?thesis using assms(2) by (simp add: sprintf_def write_bytes_def unat_of_nat_64)
qed

text \<open>The format \<open>%ul%% of %s\<close> at 100, \<open>disk\<close> at 200, and a value of more than 32 bits.\<close>

definition print_example :: machine where
  "print_example = \<lparr>mem = two_strings ''%ul%% of %s'' ''disk'', cr3 = 0, PHYSICAL_ADDRESS_OFFSET = 0, KHEAPSTART = 0,
     K_HEAP_END = 0, kheap_spinlock = 0, vmm_frameAlloc = 0, trace = []\<rparr>"

theorem sprintf_writes_text_witness:
  "sprintf print_example 100 300 [4294967301, 200] =
     Some (print_example\<lparr>mem := write_bytes (mem print_example) 300 (cbytes ''4294967301% of disk'')\<rparr>)"
proof -
  have F: "format_text (cbytes ''%ul%% of %s'') [Va_int 4294967301, Va_str (cbytes ''disk'')] = Some (cbytes ''4294967301% of disk'')"
    by (simp add: cbytes_def format_text.simps is_conversion_def conv_init_def printable_def number_text_def render_def
        to_base_small to_base_big digit_char_def digit_table_def Let_def)
  have l: "length (cbytes ''4294967301% of disk'') = 19" by (simp add: cbytes_def)
  have "cstr_in (beyond 300 19) (mem print_example) 100 (cbytes ''%ul%% of %s'')"
      "cstr_in (beyond 300 19) (mem print_example) 200 (cbytes ''disk'')"
    by (simp_all add: print_example_def two_strings_def write_bytes_def cbytes_def beyond_def)
  then show ?thesis
    using sprintf_writes_text [OF F, of 300 print_example 100 "[4294967301, 200]"] unfolding l by simp
qed

text \<open>C38. \<open>printf\<close>, \<open>serial_printf\<close> and \<open>println\<close> send exactly the formatted text to the terminal or the serial port, when it is
  shorter than their buffer of 1024 bytes, and change nothing outside of the buffer. A longer text is not cut: the bytes
  from 1024 on are written past the end of the array.\<close>
theorem printf_prints_text:
  assumes "format_text F vs = Some out" "length out < 18446744073709551616"
    and "cstr_in (beyond buf (max 1024 (length out))) (mem s) fmt F"
    and "list_all2 (holds (beyond buf (max 1024 (length out))) (mem s)) vs args"
  shows "if length out < 1024
    then \<exists>m. printf s buf fmt args = Some (say (Tty_print out) (s\<lparr>mem := m\<rparr>))
      \<and> serial_printf s buf fmt args = Some (say (Serial out) (s\<lparr>mem := m\<rparr>))
      \<and> println s buf fmt args = Some (say Tty_break (say (Tty_print out) (s\<lparr>mem := m\<rparr>)))
      \<and> (\<forall>x\<in>beyond buf 1024. m x = mem s x)
    else \<exists>m e. vprintf (filled (mem s) buf 0 1024) fmt buf args = Some (m, e)
      \<and> (\<forall>i. 1024 \<le> i \<and> i < length out \<longrightarrow> m (buf + of_nat i) = out ! i)"
proof (cases "length out < 1024")
  case True
  then have mx: "max 1024 (length out) = 1024" by simp
  have "write_bytes (filled (mem s) buf 0 1024) buf out x = mem s x" if "x \<in> beyond buf 1024" for x
    using that True by (auto simp: beyond_def write_bytes_def filled_def)
  then show ?thesis
    using print_buffer_text [OF assms(1) True assms(3,4) [unfolded mx]] True
    by (auto simp: printf_def serial_printf_def println_def)
next
  case False
  let ?S = "beyond buf (length out)" and ?m = "filled (mem s) buf 0 1024"
  have mx: "max 1024 (length out) = length out" using False by simp
  have fr: "?m x = mem s x" if "x \<in> ?S" for x using that False by (simp add: filled_def beyond_def)
  have "vprintf ?m fmt buf args = Some (put_bytes ?m buf out)"
    using vprintf_formats [OF assms(1), of ?S ?m fmt args buf] assms(3,4) out_of_beyond [of "length out" "length out" buf] assms(2)
    unfolding mx by (simp add: cstr_in_frame [OF fr] args_frame [OF fr])
  then show ?thesis
    using False assms(2) by (simp add: put_bytes_write write_bytes_def unat_of_nat_64)
qed

theorem printf_prints_text_witness:
  "\<exists>m. printf print_example 0x7000 100 [7, 200] = Some (say (Tty_print (cbytes ''7% of disk'')) (print_example\<lparr>mem := m\<rparr>))"
proof -
  have F: "format_text (cbytes ''%ul%% of %s'') [Va_int 7, Va_str (cbytes ''disk'')] = Some (cbytes ''7% of disk'')"
    by (simp add: cbytes_def format_text.simps is_conversion_def conv_init_def printable_def number_text_def render_def
        to_base_small digit_char_def digit_table_def Let_def)
  have l: "length (cbytes ''7% of disk'') = 10" by (simp add: cbytes_def)
  have "cstr_in (beyond 0x7000 1024) (mem print_example) 100 (cbytes ''%ul%% of %s'')"
      "cstr_in (beyond 0x7000 1024) (mem print_example) 200 (cbytes ''disk'')"
    by (simp_all add: print_example_def two_strings_def write_bytes_def cbytes_def beyond_def)
  then show ?thesis
    using printf_prints_text [OF F, of "0x7000" print_example 100 "[7, 200]"] unfolding l by auto
qed

end
