(* ===== verification/Tty.thy ===== *)
theory Tty
  imports Machine
begin

text \<open>
  The text console on the frame buffer, \<^verbatim>\<open>kernel/src/drivers/vga/framebuffer.c\<close>. Pixels are 32-bit cells of the byte
  memory. The renderer's frame buffer and font are reached through pointers but never changed here, so they are part of the
  renderer's value. Coordinates are 32-bit and pointers 64-bit words, with the products computed at the
  width the C expression has.
\<close>

section \<open>Structures\<close>

definition TBLACK :: u32 where "TBLACK = 0"
definition BGREEN :: u32 where "BGREEN = 0xff00FF00"

record Point =
  x_pos :: u32
  y_pos :: u32

record FrameBuffer =
  base_address :: u64
  buffer_size :: u64
  fb_width :: u32
  fb_height :: u32
  pixels_per_scan_line :: u32

record PSF1_HEADER =
  magic :: "u8 \<times> u8"
  mode :: u8
  charsize :: u8

record PSF1_FONT =
  psf1_header :: PSF1_HEADER
  glyph_buffer :: u64

record TTYRenderer =
  cursor_position :: Point
  framebuffer :: FrameBuffer
  psf1_font :: PSF1_FONT
  color :: u32
  overwrite :: bool

abbreviation char_size :: "TTYRenderer \<Rightarrow> u8" where
  "char_size r \<equiv> charsize (psf1_header (psf1_font r))"

abbreviation set_x :: "u32 \<Rightarrow> TTYRenderer \<Rightarrow> TTYRenderer" where
  "set_x v r \<equiv> r\<lparr>cursor_position := (cursor_position r)\<lparr>x_pos := v\<rparr>\<rparr>"

abbreviation set_y :: "u32 \<Rightarrow> TTYRenderer \<Rightarrow> TTYRenderer" where
  "set_y v r \<equiv> r\<lparr>cursor_position := (cursor_position r)\<lparr>y_pos := v\<rparr>\<rparr>"

section \<open>Counting loops\<close>

lemma unat_Suc_less: "(i :: 'a::len word) < b \<Longrightarrow> unat (i + 1) = Suc (unat i)"
proof -
  assume "i < b"
  then have "Suc (unat i) < 2 ^ LENGTH('a)"
    using unsigned_less [where ?'a = nat, of b] unfolding word_less_nat_alt by linarith
  then show ?thesis by (simp add: unat_word_ariths)
qed

text \<open>\<open>for (i = a; i < b; i++)\<close> on unsigned numbers; the body cannot change the bound.\<close>

function for_up :: "'a::len word \<Rightarrow> 'a word \<Rightarrow> ('a word \<Rightarrow> 's \<Rightarrow> 's) \<Rightarrow> 's \<Rightarrow> 's" where
  "for_up i b f s = (if i < b then for_up (i + 1) b f (f i s) else s)"
  by pat_completeness auto
termination
  by (relation "measure (\<lambda>(i, b, f, s). unat b - unat i)") (simp_all add: unat_Suc_less word_less_nat_alt diff_less_mono2)

declare for_up.simps [simp del]

section \<open>The console\<close>

definition init_tty_renderer :: "TTYRenderer \<Rightarrow> FrameBuffer \<Rightarrow> PSF1_FONT \<Rightarrow> TTYRenderer" where
  "init_tty_renderer r fb font =
     (let r = r\<lparr>color := TBLACK\<rparr>;
          r = set_x 0 r;
          r = set_y 0 r;
          r = r\<lparr>framebuffer := fb\<rparr>
      in r\<lparr>psf1_font := font\<rparr>)"

definition move_tty_cursor_down :: "TTYRenderer \<Rightarrow> machine \<Rightarrow> TTYRenderer \<times> machine" where
  "move_tty_cursor_down r s =
     (let fb = framebuffer r
      in if y_pos (cursor_position r) + ucast (char_size r) \<ge> fb_height fb - ucast (char_size r) then
           let s = say_serial ''Scroll Buffer Activated!'' s;
               frameBufStart = base_address fb;
               copyRegionStart = base_address fb + ucast (pixels_per_scan_line fb * (ucast (char_size r) * 4) :: u32);
               firstRegionSize = ucast (pixels_per_scan_line fb) * ucast (char_size r) * 4;
               copySize = buffer_size fb - firstRegionSize
           in (r, s\<lparr>mem := snd (memmove (mem s) frameBufStart copyRegionStart copySize)\<rparr>)
         else (set_x 0 (set_y (y_pos (cursor_position r) + ucast (char_size r)) r), s))"

text \<open>
  One row of a glyph: eight pixels, the mask moving right. The symbol is a signed character: its glyph is found by
  a signed offset.
\<close>

definition put_row :: "TTYRenderer \<Rightarrow> u64 \<Rightarrow> u32 \<Rightarrow> u32 \<Rightarrow> memory \<Rightarrow> memory" where
  "put_row r glyphPtr x_offset y m =
     snd (for_up x_offset (x_offset + 8)
       (\<lambda>x (mask, m).
          let m = (if scast (m glyphPtr) AND mask > 0
                   then store32 m (base_address (framebuffer r) + 4 * ucast x
                          + 4 * ucast (y * pixels_per_scan_line (framebuffer r))) (color r)
                   else m)
          in (drop_bit 1 mask, m))
       (push_bit 7 1 :: u32, m))"

definition put_char :: "TTYRenderer \<Rightarrow> u8 \<Rightarrow> u32 \<Rightarrow> u32 \<Rightarrow> machine \<Rightarrow> machine" where
  "put_char r symbol x_offset y_offset s =
     (let glyphPtr = glyph_buffer (psf1_font r) + word_of_int (sint symbol * uint (char_size r))
      in s\<lparr>mem := snd (for_up y_offset (y_offset + ucast (char_size r))
           (\<lambda>y (glyphPtr, m). (glyphPtr + 1, put_row r glyphPtr x_offset y m)) (glyphPtr, mem s))\<rparr>)"

definition draw_char :: "TTYRenderer \<Rightarrow> u8 \<Rightarrow> u32 \<Rightarrow> u32 \<Rightarrow> machine \<Rightarrow> machine" where
  "draw_char r c cx cy s = s"

text \<open>One turn of the loop of \<open>tty_print\<close>, for the character \<open>c\<close>.\<close>

definition tty_char :: "u8 \<Rightarrow> TTYRenderer \<times> machine \<Rightarrow> TTYRenderer \<times> machine" where
  "tty_char c = (\<lambda>(r, s).
     let (r, s) =
           (if c = of_char (CHR 0x0A) then move_tty_cursor_down (set_x 0 r) s
            else if c = of_char (CHR 0x09) then (set_x (x_pos (cursor_position r) + 9) r, s)
            else let s = put_char r c (x_pos (cursor_position r)) (y_pos (cursor_position r)) s
                 in (set_x (x_pos (cursor_position r) + 9) r, s))
     in if x_pos (cursor_position r) + 9 > fb_width (framebuffer r)
        then move_tty_cursor_down (set_x 0 r) s
        else (r, s))"

partial_function (option) tty_print :: "TTYRenderer \<Rightarrow> u64 \<Rightarrow> machine \<Rightarrow> (TTYRenderer \<times> machine) option" where
  "tty_print r str s =
     (if mem s str \<noteq> 0 then let (r, s) = tty_char (mem s str) (r, s) in tty_print r (str + 1) s
      else Some (r, s))"

text \<open>\<open>tty_print\<close> of a string literal: its bytes are not in the memory that the console writes.\<close>

definition tty_literal :: "string \<Rightarrow> TTYRenderer \<times> machine \<Rightarrow> TTYRenderer \<times> machine" where
  "tty_literal text = fold tty_char (cbytes text)"

definition tty_break :: "TTYRenderer \<times> machine \<Rightarrow> TTYRenderer \<times> machine" where
  "tty_break = tty_literal ('' '' @ [CHR 0x0A])"

definition tty_clear :: "TTYRenderer \<Rightarrow> u32 \<Rightarrow> bool \<Rightarrow> machine \<Rightarrow> TTYRenderer \<times> machine" where
  "tty_clear r c reset_cursor s =
     (let fb = framebuffer r;
          fbBase = base_address fb;
          pxlsPerScanLine = ucast (pixels_per_scan_line fb) :: u64;
          m = for_up 0 (ucast (fb_height fb) :: u64) (\<lambda>y.
                for_up 0 (ucast (fb_width fb)) (\<lambda>x m. store32 m (fbBase + 4 * (x + pxlsPerScanLine * y)) c)) (mem s);
          r = (if reset_cursor then set_y 0 (set_x 0 r) else r)
      in (r, s\<lparr>mem := m\<rparr>))"

definition clear_tty_line :: "TTYRenderer \<Rightarrow> u32 \<Rightarrow> u32 \<Rightarrow> machine \<Rightarrow> machine" where
  "clear_tty_line r c line s =
     (let fb = framebuffer r;
          scanline = pixels_per_scan_line fb;
          line = line * (scanline * 4)
      in s\<lparr>mem := for_up line (line + ucast (char_size r)) (\<lambda>y.
             for_up 0 (fb_width fb) (\<lambda>x m. store32 m (base_address fb + 4 * ucast (4 * (x + scanline * y))) c)) (mem s)\<rparr>)"

section \<open>Lemmas\<close>

text \<open>A counting loop is a fold over the numbers it counts through.\<close>

lemma for_up_fold: "for_up i b f s = fold (\<lambda>k. f (of_nat k)) [unat i..<unat b] s"
proof (induction i b f s rule: for_up.induct)
  case (1 i b f s)
  show ?case
  proof (cases "i < b")
    case True
    then have lt: "unat i < unat b" by (simp add: word_less_nat_alt)
    have "unat (i + 1) = Suc (unat i)" using unat_Suc_less [OF True] .
    then show ?thesis using True 1 lt by (subst for_up.simps) (simp add: upt_conv_Cons)
  next
    case False
    then show ?thesis by (subst for_up.simps) (simp add: word_less_nat_alt)
  qed
qed

text \<open>Loop rule: what holds at the start and is kept by every turn holds at the end.\<close>

lemma for_up_invariant:
  assumes "P (unat i) s" "unat i \<le> unat b"
    and "\<And>k s. unat i \<le> k \<Longrightarrow> k < unat b \<Longrightarrow> P k s \<Longrightarrow> P (Suc k) (f (of_nat k) s)"
  shows "P (unat b) (for_up i b f s)"
proof -
  have "P (unat i + n) (fold (\<lambda>k. f (of_nat k)) [unat i..<unat i + n] s)" if "unat i + n \<le> unat b" for n
    using that
  proof (induction n)
    case (Suc n)
    then show ?case using assms(3) [of "unat i + n"] by simp
  qed (use assms in simp)
  from this [of "unat b - unat i"] show ?thesis using assms(2) by (simp add: for_up_fold)
qed

subsection \<open>Pixels\<close>

text \<open>
  A frame buffer as the boot loader describes it: lines of \<open>P\<close> pixels of which the first \<open>W\<close> are visible, \<open>H\<close> lines, no more
  than 4 GiB, not around the end of the address space.
\<close>

definition fb_bytes :: "FrameBuffer \<Rightarrow> nat" where
  "fb_bytes fb = 4 * (unat (pixels_per_scan_line fb) * unat (fb_height fb))"

definition fb_ok :: "FrameBuffer \<Rightarrow> bool" where
  "fb_ok fb \<longleftrightarrow> unat (fb_width fb) \<le> unat (pixels_per_scan_line fb) \<and> fb_bytes fb < 4294967296
     \<and> unat (buffer_size fb) = fb_bytes fb \<and> unat (base_address fb) + fb_bytes fb \<le> 18446744073709551616"

definition pixel_address :: "FrameBuffer \<Rightarrow> nat \<Rightarrow> nat \<Rightarrow> u64" where
  "pixel_address fb x y = base_address fb + of_nat (4 * (x + unat (pixels_per_scan_line fb) * y))"

definition pixel :: "FrameBuffer \<Rightarrow> memory \<Rightarrow> nat \<Rightarrow> nat \<Rightarrow> u32" where
  "pixel fb m x y = load32 m (pixel_address fb x y)"

text \<open>Two memories that differ in the frame buffer at most.\<close>

definition same_outside :: "FrameBuffer \<Rightarrow> memory \<Rightarrow> memory \<Rightarrow> bool" where
  "same_outside fb m m' \<longleftrightarrow> (\<forall>a. fb_bytes fb \<le> unat (a - base_address fb) \<longrightarrow> m' a = m a)"

lemma same_outside_refl [simp]: "same_outside fb m m"
  by (simp add: same_outside_def)

lemma same_outside_trans: "same_outside fb m m' \<Longrightarrow> same_outside fb m' m'' \<Longrightarrow> same_outside fb m m''"
  by (simp add: same_outside_def)

lemma pixel_index:
  assumes "fb_ok fb" "x < unat (pixels_per_scan_line fb)" "y < unat (fb_height fb)"
  shows "4 * (x + unat (pixels_per_scan_line fb) * y) + 4 \<le> fb_bytes fb" "fb_bytes fb < 4294967296"
proof -
  let ?P = "unat (pixels_per_scan_line fb)"
  have "?P * y + ?P \<le> ?P * unat (fb_height fb)"
    using assms(3) mult_le_mono2 [of "Suc y" "unat (fb_height fb)" ?P] by simp
  moreover have "4 * (x + a) + 4 \<le> 4 * b" if "a + ?P \<le> b" for a b using that assms(2) by simp
  ultimately show "4 * (x + ?P * y) + 4 \<le> fb_bytes fb" unfolding fb_bytes_def by blast
  show "fb_bytes fb < 4294967296" using assms(1) by (simp add: fb_ok_def)
qed

lemma pixel_index_inj:
  assumes "x < P" "x' < (P :: nat)"
  shows "x + P * y = x' + P * y' \<longleftrightarrow> x = x' \<and> y = y'"
proof
  assume e: "x + P * y = x' + P * y'"
  have "(x + P * y) div P = y" "(x' + P * y') div P = y'" using assms by simp_all
  then have "y = y'" using e by simp
  then show "x = x' \<and> y = y'" using e by simp
qed simp

lemma cells_apart:
  assumes "i \<noteq> j" "4 * i < 4294967296" "4 * j < 4294967296"
  shows "sep (b + of_nat (4 * i)) 4 (b + of_nat (4 * j)) 4"
proof -
  have u: "unat (of_nat (4 * i) :: u64) = 4 * i" "unat (of_nat (4 * j) :: u64) = 4 * j"
    using assms by (intro unat_of_nat_64; linarith)+
  show ?thesis
    unfolding sep_offsets unat_diff_if_64 u using assms by auto
qed

lemma pixel_store:
  assumes "fb_ok fb" "x < unat (pixels_per_scan_line fb)" "y < unat (fb_height fb)"
    "x' < unat (pixels_per_scan_line fb)" "y' < unat (fb_height fb)"
  shows "pixel fb (store32 m (pixel_address fb x' y') c) x y = (if x = x' \<and> y = y' then c else pixel fb m x y)"
proof (cases "x = x' \<and> y = y'")
  case True
  then show ?thesis by (simp add: pixel_def mem_simps)
next
  case False
  let ?P = "unat (pixels_per_scan_line fb)"
  have "x + ?P * y \<noteq> x' + ?P * y'" using False pixel_index_inj [OF assms(2,4)] by blast
  then have "sep (pixel_address fb x y) 4 (pixel_address fb x' y') 4"
    unfolding pixel_address_def using pixel_index [OF assms(1-3)] pixel_index [OF assms(1,4,5)] by (intro cells_apart) linarith+
  then show ?thesis using False by (auto simp: pixel_def mem_simps)
qed

lemma store_inside:
  assumes "fb_ok fb" "x < unat (pixels_per_scan_line fb)" "y < unat (fb_height fb)"
  shows "same_outside fb m (store32 m (pixel_address fb x y) c)"
proof -
  let ?i = "4 * (x + unat (pixels_per_scan_line fb) * y)"
  have i: "?i + 4 \<le> fb_bytes fb" "fb_bytes fb < 4294967296" using pixel_index [OF assms] by auto
  have u: "unat (of_nat ?i :: u64) = ?i" using i by (intro unat_of_nat_64) linarith
  have "\<not> unat (a - pixel_address fb x y) < 4" if "fb_bytes fb \<le> unat (a - base_address fb)" for a
  proof -
    define d where "d = a - base_address fb"
    have e: "a - pixel_address fb x y = d - of_nat ?i" by (simp add: pixel_address_def d_def)
    show ?thesis
      unfolding e using that i unat_diff_64 [of "of_nat ?i" d] u unfolding d_def [symmetric] word_le_nat_alt by linarith
  qed
  then show ?thesis by (simp add: same_outside_def store32_def store_def)
qed

subsection \<open>Glyphs\<close>

lemma ucast_of_nat_32: "n < 4294967296 \<Longrightarrow> (ucast (of_nat n :: u32) :: u64) = of_nat n"
  by (rule word_unat_eq_iff [THEN iffD2]) (simp add: unat_of_nat unsigned_ucast_eq take_bit_nat_eq_self)

lemma row_address:
  assumes "fb_ok fb" "x < unat (pixels_per_scan_line fb)" "y < unat (fb_height fb)"
  shows "base_address fb + 4 * ucast (of_nat x :: u32) + 4 * ucast ((of_nat y :: u32) * pixels_per_scan_line fb) = pixel_address fb x y"
proof -
  let ?P = "unat (pixels_per_scan_line fb)"
  have i: "x + ?P * y < 1073741824" using pixel_index [OF assms] by simp
  have "(of_nat y :: u32) * pixels_per_scan_line fb = of_nat (?P * y)" by (simp add: mult.commute)
  then show ?thesis
    using ucast_of_nat_32 [of x] ucast_of_nat_32 [of "?P * y"] i by (simp add: pixel_address_def algebra_simps)
qed

lemma mask_bit:
  assumes "j < 8"
  shows "scast (b :: u8) AND drop_bit j (push_bit 7 1 :: u32) > 0 \<longleftrightarrow> bit b (7 - j)"
proof -
  have "drop_bit j (push_bit 7 1 :: u32) = push_bit (7 - j) 1"
  proof -
    have "j = 0 \<or> j = 1 \<or> j = 2 \<or> j = 3 \<or> j = 4 \<or> j = 5 \<or> j = 6 \<or> j = 7" using assms by arith
    then show ?thesis by (elim disjE) simp_all
  qed
  moreover have "scast b AND push_bit (7 - j) (1 :: u32) \<noteq> 0 \<longleftrightarrow> bit (scast b :: u32) (7 - j)"
    by (simp only: bit_iff_and_push_bit_not_eq_0)
  moreover have "bit (scast b :: u32) (7 - j) \<longleftrightarrow> bit b (7 - j)" using assms by (auto simp: bit_simps)
  ultimately show ?thesis by (simp only: word_neq_0_conv)
qed

text \<open>\<open>drawn r m m' A\<close>: the pixels of \<open>A\<close> have the renderer's colour, everything else is as before.\<close>

definition drawn :: "TTYRenderer \<Rightarrow> memory \<Rightarrow> memory \<Rightarrow> (nat \<Rightarrow> nat \<Rightarrow> bool) \<Rightarrow> bool" where
  "drawn r m m' A \<longleftrightarrow> same_outside (framebuffer r) m m'
     \<and> (\<forall>x<unat (pixels_per_scan_line (framebuffer r)). \<forall>y<unat (fb_height (framebuffer r)).
          pixel (framebuffer r) m' x y = (if A x y then color r else pixel (framebuffer r) m x y))"

lemma drawn_next:
  assumes "drawn r m m' A" "drawn r m' m'' B" "\<And>x y. C x y \<longleftrightarrow> A x y \<or> B x y"
  shows "drawn r m m'' C"
  using assms same_outside_trans unfolding drawn_def by auto

lemma put_row_draws:
  fixes r g x0 y m
  defines "fb \<equiv> framebuffer r"
  assumes ok: "fb_ok fb" and x0: "unat x0 + 8 \<le> unat (pixels_per_scan_line fb)" and y: "y < unat (fb_height fb)"
    and g: "fb_bytes fb \<le> unat (g - base_address fb)"
  shows "drawn r m (put_row r g x0 (of_nat y) m) (\<lambda>x y'. y' = y \<and> unat x0 \<le> x \<and> x < unat x0 + 8 \<and> bit (m g) (7 - (x - unat x0)))"
proof -
  let ?f = "\<lambda>(x :: u32) (mask :: u32, m). let m = (if scast (m g) AND mask > 0
      then store32 m (base_address fb + 4 * ucast x + 4 * ucast (of_nat y * pixels_per_scan_line fb)) (color r) else m)
    in (drop_bit 1 mask, m)"
  let ?P = "\<lambda>k (mask :: u32, m'). mask = drop_bit (k - unat x0) (push_bit 7 1)
    \<and> drawn r m m' (\<lambda>x y'. y' = y \<and> unat x0 \<le> x \<and> x < k \<and> bit (m g) (7 - (x - unat x0)))"
  have b8: "unat (x0 + 8) = unat x0 + 8"
    using x0 unsigned_less [where ?'a = nat, of "pixels_per_scan_line fb"] by (simp add: unat_word_ariths)
  have "?P (unat (x0 + 8)) (for_up x0 (x0 + 8) ?f (push_bit 7 1, m))"
  proof (rule for_up_invariant)
    show "?P (unat x0) (push_bit 7 1, m)" by (auto simp: drawn_def)
    show "unat x0 \<le> unat (x0 + 8)" by (simp add: b8)
    fix k s
    assume k: "unat x0 \<le> k" "k < unat (x0 + 8)" and P: "?P k s"
    obtain mask :: u32 and m' where s: "s = (mask, m')" by fastforce
    have mask: "mask = drop_bit (k - unat x0) (push_bit 7 1)"
      and d: "drawn r m m' (\<lambda>x y'. y' = y \<and> unat x0 \<le> x \<and> x < k \<and> bit (m g) (7 - (x - unat x0)))"
      using P s by auto
    have kP: "k < unat (pixels_per_scan_line fb)" using k x0 b8 by linarith
    have "m' g = m g" using d g by (simp add: drawn_def same_outside_def fb_def)
    then have bit: "scast (m' g) AND mask > 0 \<longleftrightarrow> bit (m g) (7 - (k - unat x0))"
      unfolding mask using k b8 mask_bit [of "k - unat x0" "m g"] by simp
    have a: "base_address fb + 4 * ucast (of_nat k :: u32) + 4 * ucast (of_nat y * pixels_per_scan_line fb) = pixel_address fb k y"
      by (rule row_address [OF ok kP y])
    have "drawn r m (if bit (m g) (7 - (k - unat x0)) then store32 m' (pixel_address fb k y) (color r) else m')
        (\<lambda>x y'. y' = y \<and> unat x0 \<le> x \<and> x < Suc k \<and> bit (m g) (7 - (x - unat x0)))"
      using d pixel_store [OF ok _ _ kP y] same_outside_trans [OF _ store_inside [OF ok kP y]] k
      by (auto simp: drawn_def less_Suc_eq simp flip: fb_def)
    moreover have "drop_bit 1 mask = drop_bit (Suc k - unat x0) (push_bit 7 1)"
      unfolding mask using k by (simp add: Suc_diff_le)
    ultimately show "?P (Suc k) (?f (of_nat k) s)"
      unfolding s by (simp only: prod.case Let_def bit a)
  qed
  then show ?thesis unfolding b8 put_row_def fb_def case_prod_beta by simp
qed

text \<open>The glyph of a symbol, and that it is not stored in the frame buffer.\<close>

definition glyph_address :: "PSF1_FONT \<Rightarrow> u8 \<Rightarrow> u64" where
  "glyph_address font c = glyph_buffer font + word_of_int (sint c * uint (charsize (psf1_header font)))"

definition glyph_outside :: "TTYRenderer \<Rightarrow> u8 \<Rightarrow> bool" where
  "glyph_outside r c \<longleftrightarrow> (\<forall>j<unat (char_size r).
     fb_bytes (framebuffer r) \<le> unat (glyph_address (psf1_font r) c + of_nat j - base_address (framebuffer r)))"

definition glyph_pixel :: "TTYRenderer \<Rightarrow> memory \<Rightarrow> u8 \<Rightarrow> nat \<Rightarrow> nat \<Rightarrow> bool" where
  "glyph_pixel r m c i j \<longleftrightarrow> i < 8 \<and> j < unat (char_size r) \<and> bit (m (glyph_address (psf1_font r) c + of_nat j)) (7 - i)"

lemma put_char_draws:
  assumes ok: "fb_ok (framebuffer r)" and x0: "unat x0 + 8 \<le> unat (pixels_per_scan_line (framebuffer r))"
    and y0: "unat y0 + unat (char_size r) \<le> unat (fb_height (framebuffer r))" and g: "glyph_outside r c"
  shows "drawn r (mem s) (mem (put_char r c x0 y0 s))
    (\<lambda>x y. unat x0 \<le> x \<and> unat y0 \<le> y \<and> glyph_pixel r (mem s) c (x - unat x0) (y - unat y0))"
proof -
  let ?m = "mem s" and ?g = "glyph_address (psf1_font r) c" and ?cs = "ucast (char_size r) :: u32"
  let ?f = "\<lambda>(y :: u32) (g, m). (g + 1, put_row r g x0 y m)"
  let ?P = "\<lambda>k (g, m'). g = ?g + of_nat (k - unat y0)
    \<and> drawn r ?m m' (\<lambda>x y. unat x0 \<le> x \<and> unat y0 \<le> y \<and> y < k \<and> glyph_pixel r ?m c (x - unat x0) (y - unat y0))"
  have cs: "unat ?cs = unat (char_size r)"
    using unsigned_less [where ?'a = nat, of "char_size r"] by (simp add: unsigned_ucast_eq take_bit_nat_eq_self)
  have ye: "unat (y0 + ?cs) = unat y0 + unat (char_size r)"
    using y0 unsigned_less [where ?'a = nat, of "fb_height (framebuffer r)"] cs by (simp add: unat_word_ariths)
  have "?P (unat (y0 + ?cs)) (for_up y0 (y0 + ?cs) ?f (?g, ?m))"
  proof (rule for_up_invariant)
    show "?P (unat y0) (?g, ?m)" by (auto simp: drawn_def)
    show "unat y0 \<le> unat (y0 + ?cs)" by (simp add: ye)
    fix k p
    assume k: "unat y0 \<le> k" "k < unat (y0 + ?cs)" and P: "?P k p"
    obtain m' where p: "p = (?g + of_nat (k - unat y0), m')"
      and d: "drawn r ?m m' (\<lambda>x y. unat x0 \<le> x \<and> unat y0 \<le> y \<and> y < k \<and> glyph_pixel r ?m c (x - unat x0) (y - unat y0))"
      using P by (cases p) auto
    let ?a = "?g + of_nat (k - unat y0)"
    have j: "k - unat y0 < unat (char_size r)" using k ye by linarith
    have out: "fb_bytes (framebuffer r) \<le> unat (?a - base_address (framebuffer r))" using g j by (simp add: glyph_outside_def)
    have "m' ?a = ?m ?a" using d out by (simp add: drawn_def same_outside_def)
    moreover have "k < unat (fb_height (framebuffer r))" using k ye y0 by linarith
    ultimately have "drawn r m' (put_row r ?a x0 (of_nat k) m')
        (\<lambda>x y. y = k \<and> unat x0 \<le> x \<and> x < unat x0 + 8 \<and> bit (?m ?a) (7 - (x - unat x0)))"
      using put_row_draws [OF ok x0 _ out, of k m'] by simp
    then have "drawn r ?m (put_row r ?a x0 (of_nat k) m')
        (\<lambda>x y. unat x0 \<le> x \<and> unat y0 \<le> y \<and> y < Suc k \<and> glyph_pixel r ?m c (x - unat x0) (y - unat y0))"
      by (rule drawn_next [OF d]) (use k j in \<open>auto simp: glyph_pixel_def less_Suc_eq\<close>)
    moreover have "?a + 1 = ?g + of_nat (Suc k - unat y0)" using k(1) by (simp add: Suc_diff_le)
    ultimately show "?P (Suc k) (?f (of_nat k) p)" unfolding p by simp
  qed
  then have "drawn r ?m (mem (put_char r c x0 y0 s))
      (\<lambda>x y. unat x0 \<le> x \<and> unat y0 \<le> y \<and> y < unat y0 + unat (char_size r) \<and> glyph_pixel r ?m c (x - unat x0) (y - unat y0))"
    unfolding ye by (simp add: put_char_def glyph_address_def case_prod_beta)
  moreover have "(\<lambda>x y. unat x0 \<le> x \<and> unat y0 \<le> y \<and> y < unat y0 + unat (char_size r) \<and> glyph_pixel r ?m c (x - unat x0) (y - unat y0))
      = (\<lambda>x y. unat x0 \<le> x \<and> unat y0 \<le> y \<and> glyph_pixel r ?m c (x - unat x0) (y - unat y0))"
    by (auto simp: fun_eq_iff glyph_pixel_def)
  ultimately show ?thesis by simp
qed

subsection \<open>Clearing and scrolling\<close>

text \<open>One line of \<open>tty_clear\<close>, and all of them.\<close>

lemma clear_address:
  assumes "fb_ok fb" "x < unat (pixels_per_scan_line fb)" "y < unat (fb_height fb)"
  shows "base_address fb + 4 * (of_nat x + ucast (pixels_per_scan_line fb) * of_nat y) = pixel_address fb x y"
proof -
  have "ucast (pixels_per_scan_line fb) = (of_nat (unat (pixels_per_scan_line fb)) :: u64)" by simp
  then show ?thesis by (simp add: pixel_address_def)
qed

lemma clear_line_draws:
  assumes ok: "fb_ok (framebuffer r)" and y: "y < unat (fb_height (framebuffer r))"
  shows "drawn (r\<lparr>color := c\<rparr>) m
    (for_up 0 (ucast (fb_width (framebuffer r))) (\<lambda>x m. store32 m (base_address (framebuffer r)
        + 4 * (x + ucast (pixels_per_scan_line (framebuffer r)) * of_nat y)) c) m)
    (\<lambda>x y'. y' = y \<and> x < unat (fb_width (framebuffer r)))"
proof -
  let ?fb = "framebuffer r" and ?w = "ucast (fb_width (framebuffer r)) :: u64"
  let ?f = "\<lambda>x m. store32 m (base_address ?fb + 4 * (x + ucast (pixels_per_scan_line ?fb) * of_nat y)) c"
  have w: "unat ?w = unat (fb_width ?fb)"
    using unsigned_less [where ?'a = nat, of "fb_width ?fb"] by (simp add: unsigned_ucast_eq take_bit_nat_eq_self)
  have "drawn (r\<lparr>color := c\<rparr>) m (for_up 0 ?w ?f m) (\<lambda>x y'. y' = y \<and> x < unat ?w)"
  proof (rule for_up_invariant [where P = "\<lambda>k m'. drawn (r\<lparr>color := c\<rparr>) m m' (\<lambda>x y'. y' = y \<and> x < k)"])
    fix k m'
    assume "k < unat ?w" and d: "drawn (r\<lparr>color := c\<rparr>) m m' (\<lambda>x y'. y' = y \<and> x < k)"
    then have k: "k < unat (pixels_per_scan_line ?fb)" using ok w by (simp add: fb_ok_def)
    show "drawn (r\<lparr>color := c\<rparr>) m (?f (of_nat k) m') (\<lambda>x y'. y' = y \<and> x < Suc k)"
      unfolding clear_address [OF ok k y]
      using d pixel_store [OF ok _ _ k y] same_outside_trans [OF _ store_inside [OF ok k y]]
      by (auto simp: drawn_def less_Suc_eq)
  qed (simp_all add: drawn_def)
  then show ?thesis unfolding w .
qed

lemma tty_clear_draws:
  assumes ok: "fb_ok (framebuffer r)"
  shows "drawn (r\<lparr>color := c\<rparr>) (mem s) (mem (snd (tty_clear r c b s))) (\<lambda>x y. x < unat (fb_width (framebuffer r)))"
proof -
  let ?fb = "framebuffer r" and ?h = "ucast (fb_height (framebuffer r)) :: u64"
  let ?f = "\<lambda>y. for_up 0 (ucast (fb_width ?fb)) (\<lambda>x m. store32 m (base_address ?fb + 4 * (x + ucast (pixels_per_scan_line ?fb) * y)) c)"
  let ?A = "\<lambda>k x y. y < k \<and> x < unat (fb_width ?fb)"
  have h: "unat ?h = unat (fb_height ?fb)"
    using unsigned_less [where ?'a = nat, of "fb_height ?fb"] by (simp add: unsigned_ucast_eq take_bit_nat_eq_self)
  have "drawn (r\<lparr>color := c\<rparr>) (mem s) (for_up 0 ?h ?f (mem s)) (?A (unat ?h))"
  proof (rule for_up_invariant [where P = "\<lambda>k m'. drawn (r\<lparr>color := c\<rparr>) (mem s) m' (?A k)"])
    fix k m'
    assume "k < unat ?h" and d: "drawn (r\<lparr>color := c\<rparr>) (mem s) m' (?A k)"
    then have "k < unat (fb_height ?fb)" using h by simp
    from clear_line_draws [OF ok this, of c m'] show "drawn (r\<lparr>color := c\<rparr>) (mem s) (?f (of_nat k) m') (?A (Suc k))"
      by (rule drawn_next [OF d]) auto
  qed (simp_all add: drawn_def)
  then show ?thesis unfolding h by (simp add: tty_clear_def Let_def drawn_def)
qed

text \<open>
  Scrolling by \<open>k\<close> lines: what was \<open>k\<close> lines below is now here, but for the lowest \<open>k\<close> lines, which are what they were.
\<close>

definition scrolled :: "FrameBuffer \<Rightarrow> nat \<Rightarrow> memory \<Rightarrow> memory \<Rightarrow> bool" where
  "scrolled fb k m m' \<longleftrightarrow> same_outside fb m m'
     \<and> (\<forall>x<unat (pixels_per_scan_line fb). \<forall>y<unat (fb_height fb).
          pixel fb m' x y = pixel fb m x (if y + k < unat (fb_height fb) then y + k else y))"

lemma memmove_scrolls:
  fixes fb :: FrameBuffer and k :: nat
  defines "P \<equiv> unat (pixels_per_scan_line fb)" and "H \<equiv> unat (fb_height fb)"
  assumes ok: "fb_ok fb" and k: "k < H" and P: "0 < P"
  shows "scrolled fb k m (snd (memmove m (base_address fb) (base_address fb + of_nat (4 * (P * k))) (of_nat (fb_bytes fb - 4 * (P * k)))))"
proof -
  let ?b = "base_address fb" and ?D = "4 * (P * k)" and ?N = "fb_bytes fb - 4 * (P * k)"
  have bytes: "fb_bytes fb = 4 * (P * H)" "fb_bytes fb < 4294967296" "unat ?b + fb_bytes fb \<le> 18446744073709551616"
    using ok by (simp_all add: fb_ok_def fb_bytes_def P_def H_def)
  have "P * k < P * H" using k P by simp
  then have D: "?D < fb_bytes fb" unfolding bytes(1) by simp
  have u: "unat (of_nat ?D :: u64) = ?D" "unat (of_nat ?N :: u64) = ?N"
    using D bytes(2) by (intro unat_of_nat_64; linarith)+
  have ub: "unat (?b + of_nat ?D) = unat ?b + ?D" using u D bytes(3) by (subst unat_add_64) linarith+
  have nw: "no_wrap ?b (?b + of_nat ?D) (of_nat ?N)" unfolding no_wrap_def ub u using D bytes(3) by linarith
  let ?m' = "snd (memmove m ?b (?b + of_nat ?D) (of_nat ?N))"
  have kept: "?m' a = m a" if "?N \<le> unat (a - ?b)" for a
    using kmemmove.outside_kept [OF nw, of a m] that u by simp
  have "pixel fb ?m' x y = pixel fb m x (if y + k < H then y + k else y)" if x: "x < P" and y: "y < H" for x y
  proof (cases "y + k < H")
    case True
    let ?i = "4 * (x + P * y)"
    have "4 * (x + P * (y + k)) + 4 \<le> fb_bytes fb" using pixel_index(1) [OF ok x [unfolded P_def] True [unfolded H_def]] by (simp add: P_def)
    moreover have "4 * (x + P * (y + k)) = ?i + ?D" by (simp add: algebra_simps)
    ultimately have i: "?i + 4 \<le> ?N" by linarith
    then have "unat (of_nat ?i :: u64) = ?i" using bytes(2) by (intro unat_of_nat_64) linarith
    then have "load 4 ?m' (?b + of_nat ?i) = load 4 m (?b + of_nat ?D + of_nat ?i)"
      using i by (intro kmemmove.load_moved [OF nw]) (simp_all only: u)
    moreover have "?b + of_nat ?D + of_nat ?i = pixel_address fb x (y + k)"
      by (simp add: pixel_address_def P_def algebra_simps)
    moreover have "pixel_address fb x y = ?b + of_nat ?i" by (simp only: pixel_address_def P_def)
    ultimately show ?thesis
      using True by (simp only: pixel_def load32_def if_True)
  next
    case False
    let ?i = "4 * (x + P * y)"
    have i: "?i + 4 \<le> fb_bytes fb" using pixel_index(1) [OF ok x [unfolded P_def] y [unfolded H_def]] by (simp add: P_def)
    have "P * H \<le> P * y + P * k" using mult_le_mono2 [of H "y + k" P] False by (simp add: distrib_left)
    then have N: "?N \<le> ?i" unfolding bytes(1) by simp
    have "load32 ?m' (pixel_address fb x y) = load32 m (pixel_address fb x y)"
    proof (rule c32.get_local, rule kept)
      fix a :: u64 assume a: "unat (a - pixel_address fb x y) < 4"
      have ui: "unat (of_nat ?i :: u64) = ?i" using i bytes(2) by (intro unat_of_nat_64) linarith
      have "a - ?b = of_nat ?i + (a - pixel_address fb x y)" by (simp add: pixel_address_def P_def)
      moreover have "unat (of_nat ?i + (a - pixel_address fb x y)) = ?i + unat (a - pixel_address fb x y)"
        using a i bytes(2) ui by (subst unat_add_64) linarith+
      ultimately have "unat (a - ?b) = ?i + unat (a - pixel_address fb x y)" by (simp only:)
      then show "?N \<le> unat (a - ?b)" using N by linarith
    qed
    then show ?thesis using False by (simp add: pixel_def)
  qed
  moreover have "same_outside fb m ?m'"
    unfolding same_outside_def using kept by (meson diff_le_self order_trans)
  ultimately show ?thesis by (simp add: scrolled_def P_def H_def)
qed

subsection \<open>The cursor\<close>

text \<open>
  A console that text can be printed on: a line holds a character cell, the screen at least two lines of text, and the glyphs
  are stored elsewhere. The cursor always leaves room for a whole character.
\<close>

definition tty_ok :: "TTYRenderer \<Rightarrow> bool" where
  "tty_ok r \<longleftrightarrow> fb_ok (framebuffer r) \<and> 9 \<le> unat (fb_width (framebuffer r)) \<and> 0 < unat (char_size r)
     \<and> 2 * unat (char_size r) \<le> unat (fb_height (framebuffer r)) \<and> (\<forall>c. glyph_outside r c)"

definition cursor_ok :: "TTYRenderer \<Rightarrow> bool" where
  "cursor_ok r \<longleftrightarrow> unat (x_pos (cursor_position r)) + 9 \<le> unat (fb_width (framebuffer r))
     \<and> unat (y_pos (cursor_position r)) + unat (char_size r) \<le> unat (fb_height (framebuffer r))"

text \<open>Only the cursor of a renderer changes.\<close>

definition same_tty :: "TTYRenderer \<Rightarrow> TTYRenderer \<Rightarrow> bool" where
  "same_tty r r' \<longleftrightarrow> r' = r\<lparr>cursor_position := cursor_position r'\<rparr>"

lemma same_tty_fields:
  "same_tty r r' \<Longrightarrow> framebuffer r' = framebuffer r \<and> psf1_font r' = psf1_font r \<and> color r' = color r"
  unfolding same_tty_def by (metis TTYRenderer.select_convs TTYRenderer.surjective TTYRenderer.update_convs(1))

lemma same_tty_ok: "same_tty r r' \<Longrightarrow> tty_ok r' = tty_ok r"
  using same_tty_fields [of r r'] by (simp add: tty_ok_def glyph_outside_def)

lemma same_tty_refl [simp]: "same_tty r r" "same_tty r (r\<lparr>cursor_position := p\<rparr>)"
  by (simp_all add: same_tty_def)

lemma same_tty_trans: "same_tty r r' \<Longrightarrow> same_tty r' r'' \<Longrightarrow> same_tty r r''"
  unfolding same_tty_def by (metis TTYRenderer.surjective TTYRenderer.update_convs(1))

lemma unat_charsize: "unat (ucast (char_size r) :: u32) = unat (char_size r)" "unat (char_size r) < 256"
  using unsigned_less [where ?'a = nat, of "char_size r"] by (simp_all add: unsigned_ucast_eq take_bit_nat_eq_self)

lemma move_down_cases:
  fixes r :: TTYRenderer
  defines "fb \<equiv> framebuffer r" and "cs \<equiv> unat (char_size r)" and "y \<equiv> unat (y_pos (cursor_position r))"
  assumes ok: "tty_ok r" and y: "y + cs \<le> unat (fb_height fb)" and m: "move_tty_cursor_down r s = (r', s')"
  shows "if y + cs + cs \<ge> unat (fb_height fb)
    then r' = r \<and> scrolled fb cs (mem s) (mem s') \<and> trace s' = trace s @ [Serial (cbytes ''Scroll Buffer Activated!'')]
    else s' = s \<and> r' = r\<lparr>cursor_position := \<lparr>x_pos = 0, y_pos = y_pos (cursor_position r) + ucast (char_size r)\<rparr>\<rparr>"
proof -
  let ?H = "unat (fb_height fb)" and ?P = "unat (pixels_per_scan_line fb)"
  have c: "fb_ok fb" "0 < cs" "2 * cs \<le> ?H" "9 \<le> ?P" "unat (buffer_size fb) = fb_bytes fb" "fb_bytes fb < 4294967296"
    using ok by (auto simp: tty_ok_def fb_def cs_def fb_ok_def)
  have cs: "unat (ucast (char_size r) :: u32) = cs" using unat_charsize by (simp add: cs_def)
  have sum: "unat (y_pos (cursor_position r) + ucast (char_size r)) = y + cs"
    using y cs unsigned_less [where ?'a = nat, of "fb_height fb"] by (simp add: unat_word_ariths y_def)
  have diff: "unat (fb_height fb - ucast (char_size r)) = ?H - cs"
    using c(3) cs by (simp add: unat_sub word_le_nat_alt)
  have test: "y_pos (cursor_position r) + ucast (char_size r) \<ge> fb_height fb - ucast (char_size r) \<longleftrightarrow> ?H \<le> y + cs + cs"
    unfolding word_le_nat_alt sum diff using c(3) by linarith
  have "cs < ?H" using c by linarith
  then have "?P * cs < ?P * ?H" using c(4) by simp
  then have lt: "4 * (?P * cs) < fb_bytes fb" by (simp add: fb_bytes_def)
  have "pixels_per_scan_line fb * (ucast (char_size r) * 4) = (of_nat (4 * (?P * cs)) :: u32)" by (simp add: cs_def)
  then have start: "ucast (pixels_per_scan_line fb * (ucast (char_size r) * 4) :: u32) = (of_nat (4 * (?P * cs)) :: u64)"
    using ucast_of_nat_32 [of "4 * (?P * cs)"] lt c(6) by (simp only:)
  have "buffer_size fb = of_nat (fb_bytes fb)" by (metis c(5) of_nat_unat ucast_id)
  then have len: "buffer_size fb - ucast (pixels_per_scan_line fb) * ucast (char_size r) * 4 = of_nat (fb_bytes fb - 4 * (?P * cs))"
    using lt by (simp add: of_nat_diff cs_def)
  show ?thesis
  proof (cases "?H \<le> y + cs + cs")
    case True
    have "scrolled fb cs (mem s) (snd (memmove (mem s) (base_address fb) (base_address fb + of_nat (4 * (?P * cs)))
        (of_nat (fb_bytes fb - 4 * (?P * cs)))))"
      using c \<open>cs < ?H\<close> by (intro memmove_scrolls) linarith+
    moreover have "s' = (say_serial ''Scroll Buffer Activated!'' s)\<lparr>mem := snd (memmove (mem s) (base_address fb)
        (base_address fb + of_nat (4 * (?P * cs))) (of_nat (fb_bytes fb - 4 * (?P * cs))))\<rparr>" "r' = r"
      using m True test unfolding move_tty_cursor_down_def fb_def [symmetric] Let_def start len by auto
    ultimately show ?thesis using True by simp
  next
    case False
    then show ?thesis
      using m test unfolding move_tty_cursor_down_def fb_def [symmetric] Let_def by (cases "cursor_position r") auto
  qed
qed

text \<open>What printing keeps of a console and of the memory around the frame buffer.\<close>

definition tty_kept :: "TTYRenderer \<times> machine \<Rightarrow> TTYRenderer \<times> machine \<Rightarrow> bool" where
  "tty_kept p p' \<longleftrightarrow> same_tty (fst p) (fst p') \<and> cursor_ok (fst p')
     \<and> same_outside (framebuffer (fst p)) (mem (snd p)) (mem (snd p'))"

lemma tty_kept_trans: "tty_kept p p' \<Longrightarrow> tty_kept p' p'' \<Longrightarrow> tty_kept p p''"
  using same_tty_fields [of "fst p" "fst p'"] same_tty_trans [of "fst p" "fst p'" "fst p''"]
    same_outside_trans [of "framebuffer (fst p)" "mem (snd p)" "mem (snd p')" "mem (snd p'')"]
  by (auto simp: tty_kept_def)

lemma cursor_fits: "cursor_ok r \<Longrightarrow> \<not> x_pos (cursor_position r) + 9 > fb_width (framebuffer r)"
proof -
  assume "cursor_ok r"
  then have "unat (x_pos (cursor_position r)) + 9 \<le> unat (fb_width (framebuffer r))" by (simp add: cursor_ok_def)
  moreover from this have "unat (x_pos (cursor_position r) + 9) = unat (x_pos (cursor_position r)) + 9"
    using unsigned_less [where ?'a = nat, of "fb_width (framebuffer r)"] by (simp add: unat_word_ariths)
  ultimately show ?thesis by (simp add: word_less_nat_alt)
qed

lemma move_down_keeps:
  assumes ok: "tty_ok r" and cur: "cursor_ok r"
  shows "tty_kept (r, s) (move_tty_cursor_down r s)"
proof -
  obtain r' s' where m: "move_tty_cursor_down r s = (r', s')" by fastforce
  let ?cs = "unat (char_size r)" and ?H = "unat (fb_height (framebuffer r))" and ?y = "unat (y_pos (cursor_position r))"
  have y: "?y + ?cs \<le> ?H" using cur by (simp add: cursor_ok_def)
  note cases = move_down_cases [OF ok y m]
  show ?thesis
  proof (cases "?H \<le> ?y + ?cs + ?cs")
    case True
    then show ?thesis using cases cur m by (simp add: tty_kept_def scrolled_def)
  next
    case False
    have "unat (y_pos (cursor_position r) + ucast (char_size r)) = ?y + ?cs"
      using y unat_charsize [of r] unsigned_less [where ?'a = nat, of "fb_height (framebuffer r)"] by (simp add: unat_word_ariths)
    then show ?thesis
      using False cases m ok by (simp add: tty_kept_def cursor_ok_def tty_ok_def)
  qed
qed

lemma fb_width_small: "tty_ok r \<Longrightarrow> unat (fb_width (framebuffer r)) < 1073741824"
proof -
  assume ok: "tty_ok r"
  let ?P = "unat (pixels_per_scan_line (framebuffer r))" and ?H = "unat (fb_height (framebuffer r))"
  have "?P \<le> ?P * ?H" using ok by (auto simp: tty_ok_def)
  moreover have "4 * (?P * ?H) < 4294967296" "unat (fb_width (framebuffer r)) \<le> ?P"
    using ok by (auto simp: tty_ok_def fb_ok_def fb_bytes_def)
  ultimately show ?thesis by linarith
qed

lemma advance_keeps:
  assumes ok: "tty_ok r" and cur: "cursor_ok r"
  defines "r1 \<equiv> set_x (x_pos (cursor_position r) + 9) r"
  shows "tty_kept (r, s) (if x_pos (cursor_position r1) + 9 > fb_width (framebuffer r1)
     then move_tty_cursor_down (set_x 0 r1) s else (r1, s))"
proof -
  let ?W = "unat (fb_width (framebuffer r))" and ?x = "unat (x_pos (cursor_position r))"
  have W: "?W < 4294967296 - 9" "?x + 9 \<le> ?W" "9 \<le> ?W"
    using ok cur fb_width_small [OF ok] by (auto simp: cursor_ok_def tty_ok_def)
  have x1: "unat (x_pos (cursor_position r) + 9) = ?x + 9" using W by (simp add: unat_word_ariths)
  have x2: "unat (x_pos (cursor_position r) + 9 + 9) = ?x + 18" using W x1 by (simp add: unat_word_ariths)
  show ?thesis
  proof (cases "x_pos (cursor_position r1) + 9 > fb_width (framebuffer r1)")
    case True
    let ?r = "set_x 0 r1"
    have "same_tty r ?r" by (simp add: r1_def)
    moreover have "cursor_ok ?r" using cur W by (simp add: cursor_ok_def r1_def)
    ultimately have "tty_kept (?r, s) (move_tty_cursor_down ?r s)" "tty_kept (r, s) (?r, s)"
      using move_down_keeps same_tty_ok ok by (blast, simp add: tty_kept_def)
    then show ?thesis using True tty_kept_trans by simp
  next
    case False
    then have "cursor_ok r1" using cur x1 x2 by (simp add: cursor_ok_def r1_def word_less_nat_alt not_less)
    then show ?thesis using False by (simp add: tty_kept_def r1_def)
  qed
qed

lemma tty_char_keeps:
  assumes ok: "tty_ok r" and cur: "cursor_ok r"
  shows "tty_kept (r, s) (tty_char c (r, s))"
proof -
  consider (nl) "c = of_char (CHR 0x0A)" | (tab) "c \<noteq> of_char (CHR 0x0A)" "c = of_char (CHR 0x09)"
    | (glyph) "c \<noteq> of_char (CHR 0x0A)" "c \<noteq> of_char (CHR 0x09)" by blast
  then show ?thesis
  proof cases
    case nl
    let ?r = "set_x 0 r"
    have r: "tty_ok ?r" "cursor_ok ?r" using ok cur same_tty_ok [of r ?r] by (simp_all add: cursor_ok_def tty_ok_def)
    obtain r1 s1 where m: "move_tty_cursor_down ?r s = (r1, s1)" by fastforce
    have kept: "tty_kept (?r, s) (r1, s1)" using move_down_keeps [OF r, of s] m by simp
    have "\<not> x_pos (cursor_position r1) + 9 > fb_width (framebuffer r1)"
      using kept cursor_fits [of r1] by (simp add: tty_kept_def)
    moreover have "tty_kept (r, s) (?r, s)" using r(2) by (simp add: tty_kept_def)
    ultimately show ?thesis using tty_kept_trans [OF _ kept] nl m by (simp add: tty_char_def)
  next
    case tab
    then show ?thesis using advance_keeps [OF ok cur, of s] by (simp add: tty_char_def)
  next
    case glyph
    have "drawn r (mem s) (mem (put_char r c (x_pos (cursor_position r)) (y_pos (cursor_position r)) s))
        (\<lambda>x y. unat (x_pos (cursor_position r)) \<le> x \<and> unat (y_pos (cursor_position r)) \<le> y
          \<and> glyph_pixel r (mem s) c (x - unat (x_pos (cursor_position r))) (y - unat (y_pos (cursor_position r))))"
      using ok cur by (intro put_char_draws) (auto simp: tty_ok_def cursor_ok_def fb_ok_def)
    then show ?thesis
      using advance_keeps [OF ok cur, of "put_char r c (x_pos (cursor_position r)) (y_pos (cursor_position r)) s"] glyph same_outside_trans
      by (auto simp: tty_char_def tty_kept_def drawn_def Let_def)
  qed
qed

lemma tty_chars_keep:
  "tty_ok r \<Longrightarrow> cursor_ok r \<Longrightarrow> tty_kept (r, s) (fold tty_char cs (r, s))"
proof (induction cs arbitrary: r s)
  case Nil
  then show ?case by (simp add: tty_kept_def)
next
  case (Cons c cs)
  obtain r1 s1 where c: "tty_char c (r, s) = (r1, s1)" by fastforce
  have k: "tty_kept (r, s) (r1, s1)" using tty_char_keeps [OF Cons.prems, of s c] c by simp
  then have "tty_ok r1" "cursor_ok r1" using same_tty_ok Cons.prems by (auto simp: tty_kept_def)
  from tty_kept_trans [OF k Cons.IH [OF this]] show ?case by (simp add: c)
qed

text \<open>A string that is not in the frame buffer is still there after a character of it was printed.\<close>

definition string_outside :: "FrameBuffer \<Rightarrow> u64 \<Rightarrow> nat \<Rightarrow> bool" where
  "string_outside fb p n \<longleftrightarrow> (\<forall>i\<le>n. fb_bytes fb \<le> unat (p + of_nat i - base_address fb))"

lemma string_outside_0: "string_outside fb p 0 \<longleftrightarrow> fb_bytes fb \<le> unat (p - base_address fb)"
  by (simp add: string_outside_def)

lemma string_outside_Suc:
  "string_outside fb p (Suc n) \<longleftrightarrow> fb_bytes fb \<le> unat (p - base_address fb) \<and> string_outside fb (p + 1) n"
  using All_less_Suc2 [of "Suc n" "\<lambda>i. fb_bytes fb \<le> unat (p + of_nat i - base_address fb)"]
  by (simp add: string_outside_def less_Suc_eq_le add.assoc)

lemma cstr_at_outside:
  "cstr_at m p cs \<Longrightarrow> same_outside fb m m' \<Longrightarrow> string_outside fb p (length cs) \<Longrightarrow> cstr_at m' p cs"
proof (induction cs arbitrary: p)
  case Nil
  then show ?case by (simp add: same_outside_def string_outside_def)
next
  case (Cons c cs)
  then show ?case by (auto simp: string_outside_Suc same_outside_def)
qed

lemma tty_print_chars:
  "tty_ok r \<Longrightarrow> cursor_ok r \<Longrightarrow> cstr_at (mem s) p cs \<Longrightarrow> string_outside (framebuffer r) p (length cs) \<Longrightarrow>
   tty_print r p s = Some (fold tty_char cs (r, s))"
proof (induction cs arbitrary: r s p)
  case Nil
  then show ?case by (simp add: tty_print.simps)
next
  case (Cons c cs)
  obtain r1 s1 where c: "tty_char c (r, s) = (r1, s1)" by fastforce
  have k: "tty_kept (r, s) (r1, s1)" using tty_char_keeps [OF Cons.prems(1,2), of s c] c by simp
  then have r1: "tty_ok r1" "cursor_ok r1" "framebuffer r1 = framebuffer r" "same_outside (framebuffer r) (mem s) (mem s1)"
    using same_tty_ok same_tty_fields Cons.prems by (auto simp: tty_kept_def)
  have out: "string_outside (framebuffer r) (p + 1) (length cs)" using Cons.prems(4) by (simp add: string_outside_Suc)
  have "cstr_at (mem s1) (p + 1) cs" using cstr_at_outside [OF _ r1(4) out] Cons.prems(3) by simp
  then have "tty_print r1 (p + 1) s1 = Some (fold tty_char cs (r1, s1))" using Cons.IH [OF r1(1,2)] out r1(3) by simp
  then show ?case using Cons.prems(3) c by (subst tty_print.simps) simp
qed

section \<open>Properties\<close>

text \<open>C12. Printing a string that is not stored in the frame buffer returns, whatever the string is; the cursor keeps room for a
  whole character on the screen, nothing of the renderer but its cursor changes, and not a byte outside of the frame
  buffer is written, however often the text wraps and scrolls.\<close>
theorem tty_print_stays_inside:
  assumes "tty_ok r" "cursor_ok r" "cstr_at (mem s) p cs" "string_outside (framebuffer r) p (length cs)"
  shows "\<exists>r' s'. tty_print r p s = Some (r', s') \<and> cursor_ok r' \<and> tty_ok r' \<and> r' = r\<lparr>cursor_position := cursor_position r'\<rparr>
    \<and> (\<forall>a. fb_bytes (framebuffer r) \<le> unat (a - base_address (framebuffer r)) \<longrightarrow> mem s' a = mem s a)"
proof -
  obtain r' s' where f: "fold tty_char cs (r, s) = (r', s')" by fastforce
  have "tty_kept (r, s) (r', s')" using tty_chars_keep [OF assms(1,2), of s cs] f by simp
  then show ?thesis
    using tty_print_chars [OF assms] f same_tty_ok [of r r'] assms(1)
    by (auto simp: tty_kept_def same_tty_def same_outside_def)
qed

text \<open>A screen of 40 by 48 pixels at 65536 with a font of 16 lines at 4096.\<close>

definition small_screen :: FrameBuffer where
  "small_screen = \<lparr>base_address = 65536, buffer_size = 7680, fb_width = 40, fb_height = 48, pixels_per_scan_line = 40\<rparr>"

definition small_tty :: TTYRenderer where
  "small_tty = \<lparr>cursor_position = \<lparr>x_pos = 0, y_pos = 0\<rparr>, framebuffer = small_screen,
     psf1_font = \<lparr>psf1_header = \<lparr>magic = (0x36, 4), mode = 0, charsize = 16\<rparr>, glyph_buffer = 8192\<rparr>,
     color = 0xffffffff, overwrite = False\<rparr>"

lemma sint_8: "sint (x :: u8) = (if unat x < 128 then int (unat x) else int (unat x) - 256)"
proof -
  have lt: "uint x < 256" using uint_lt2p [of x] by simp
  have "bit (uint x) 7 \<longleftrightarrow> \<not> uint x < 128"
  proof -
    have "uint x div 128 \<in> {0, 1}" using lt by auto
    then show ?thesis by (auto simp: bit_iff_odd)
  qed
  moreover have "take_bit 8 (uint x) = uint x" using lt by (simp add: take_bit_eq_mod)
  ultimately have "sint x = (if uint x < 128 then uint x else uint x - 256)"
    by (simp add: sint_uint signed_take_bit_eq_take_bit_minus)
  moreover have "uint x < 128 \<longleftrightarrow> unat x < 128" using uint_nat [of x] by linarith
  ultimately show ?thesis by simp
qed

lemma small_glyphs: "glyph_outside small_tty c"
proof -
  have "7680 \<le> unat ((8192 :: u64) + word_of_int (sint c * 16) + of_nat j - 65536)" if "j < 16" for j
  proof -
    have c: "- 128 \<le> sint c" "sint c < 128" using sint_ge [of c] sint_lt [of c] by simp_all
    define k where "k = nat (sint c * 16 + 2048) + j"
    have k: "k < 4096" using c that by (simp add: k_def)
    have "(of_nat (nat (sint c * 16 + 2048)) :: u64) = word_of_int (sint c * 16) + 2048" using c by (simp add: of_nat_nat)
    then have "(8192 :: u64) + word_of_int (sint c * 16) + of_nat j - 65536 = of_nat k - 59392" by (simp add: k_def)
    moreover have "unat (of_nat k - 59392 :: u64) = k + 18446744073709551616 - 59392"
      using k unat_of_nat_64 [of k] unat_diff_if_64 [of "of_nat k" 59392] by simp
    ultimately have "unat ((8192 :: u64) + word_of_int (sint c * 16) + of_nat j - 65536) = k + 18446744073709551616 - 59392"
      by (simp only:)
    then show ?thesis by linarith
  qed
  then show ?thesis
    by (simp add: glyph_outside_def glyph_address_def small_tty_def small_screen_def fb_bytes_def)
qed

lemma small_tty_ok: "tty_ok small_tty" "cursor_ok small_tty"
  using small_glyphs by (simp_all add: tty_ok_def cursor_ok_def fb_ok_def fb_bytes_def small_tty_def small_screen_def)

definition hello_machine :: machine where
  "hello_machine = \<lparr>mem = write_bytes (\<lambda>_. 0) 100 (cbytes ''Hello''), cr3 = 0, PHYSICAL_ADDRESS_OFFSET = 0,
     KHEAPSTART = 0, K_HEAP_END = 0, kheap_spinlock = 0, vmm_frameAlloc = 0, trace = []\<rparr>"

theorem tty_print_stays_inside_witness:
  "\<exists>r' s'. tty_print small_tty 100 hello_machine = Some (r', s') \<and> cursor_ok r' \<and> mem s' 100 = 72"
proof -
  have s: "cstr_at (mem hello_machine) 100 (cbytes ''Hello'')" by (simp add: hello_machine_def write_bytes_def cbytes_def)
  have o: "string_outside (framebuffer small_tty) 100 (length (cbytes ''Hello''))"
    by (simp add: string_outside_Suc string_outside_0 small_tty_def small_screen_def fb_bytes_def cbytes_def)
  obtain r' s' where r: "tty_print small_tty 100 hello_machine = Some (r', s')" "cursor_ok r'"
      and f: "\<forall>a. fb_bytes (framebuffer small_tty) \<le> unat (a - base_address (framebuffer small_tty)) \<longrightarrow> mem s' a = mem hello_machine a"
    using tty_print_stays_inside [OF small_tty_ok s o] by blast
  have "mem s' 100 = mem hello_machine 100" using f by (simp add: small_tty_def small_screen_def fb_bytes_def)
  then show ?thesis using r by (simp add: hello_machine_def write_bytes_def cbytes_def)
qed

text \<open>C39. \<open>put_char\<close> gives the colour of the renderer to exactly the pixels of the cell whose bit in the glyph is set, the most
  significant bit on the left, and leaves every other pixel and every other byte as it is; \<open>tty_clear\<close> gives its colour to
  exactly the visible pixels. The glyph is found by the signed value of the character: for 128 to 255 it is taken from
  below the glyph table.\<close>
theorem put_char_draws_glyph:
  assumes "fb_ok (framebuffer r)" "unat x0 + 8 \<le> unat (pixels_per_scan_line (framebuffer r))"
    "unat y0 + unat (char_size r) \<le> unat (fb_height (framebuffer r))" "glyph_outside r c"
  shows "drawn r (mem s) (mem (put_char r c x0 y0 s))
      (\<lambda>x y. unat x0 \<le> x \<and> unat y0 \<le> y \<and> glyph_pixel r (mem s) c (x - unat x0) (y - unat y0))
    \<and> drawn (r\<lparr>color := col\<rparr>) (mem s) (mem (snd (tty_clear r col b s))) (\<lambda>x y. x < unat (fb_width (framebuffer r)))
    \<and> glyph_address (psf1_font r) c = (if unat c < 128 then glyph_buffer (psf1_font r) + of_nat (unat c * unat (char_size r))
         else glyph_buffer (psf1_font r) - of_nat ((256 - unat c) * unat (char_size r)))"
proof -
  have "glyph_address (psf1_font r) c = (if unat c < 128 then glyph_buffer (psf1_font r) + of_nat (unat c * unat (char_size r))
         else glyph_buffer (psf1_font r) - of_nat ((256 - unat c) * unat (char_size r)))"
  proof (cases "unat c < 128")
    case True
    then have "sint c * uint (char_size r) = int (unat c * unat (char_size r))" by (simp add: sint_8)
    then show ?thesis using True by (simp add: glyph_address_def del: of_nat_mult)
  next
    case False
    then have "sint c = - int (256 - unat c)" using unsigned_less [where ?'a = nat, of c] by (simp add: sint_8)
    then have "sint c * uint (char_size r) = - int ((256 - unat c) * unat (char_size r))" by simp
    then show ?thesis using False by (simp add: glyph_address_def del: of_nat_mult)
  qed
  then show ?thesis using put_char_draws [OF assms] tty_clear_draws [OF assms(1)] by blast
qed

theorem put_char_draws_glyph_witness:
  "drawn small_tty (mem hello_machine) (mem (put_char small_tty 72 9 16 hello_machine))
      (\<lambda>x y. 9 \<le> x \<and> 16 \<le> y \<and> glyph_pixel small_tty (mem hello_machine) 72 (x - 9) (y - 16))
   \<and> glyph_address (psf1_font small_tty) 0x80 = 6144"
proof -
  have ok: "fb_ok (framebuffer small_tty)" using small_tty_ok by (simp add: tty_ok_def)
  show ?thesis
    using put_char_draws_glyph [where r = small_tty and c = 72 and ?x0.0 = 9 and ?y0.0 = 16 and s = hello_machine, OF ok _ _ small_glyphs]
      put_char_draws_glyph [where r = small_tty and c = 128 and ?x0.0 = 9 and ?y0.0 = 16 and s = hello_machine, OF ok _ _ small_glyphs]
    by (simp add: small_tty_def small_screen_def)
qed

text \<open>A line break moves the cursor to the start of the next line of text while there are two more of them on the screen. Otherwise it
  scrolls: every line of pixels shows what was one line of text below, the cursor returns to the start of the same line, and
  the lowest line of text is not cleared but keeps its pixels.\<close>
theorem newline_scrolls:
  fixes r :: TTYRenderer
  defines "fb \<equiv> framebuffer r" and "cs \<equiv> unat (char_size r)" and "y \<equiv> unat (y_pos (cursor_position r))"
  assumes "tty_ok r" "cursor_ok r"
  shows "\<exists>r' s'. tty_char (of_char (CHR 0x0A)) (r, s) = (r', s') \<and> x_pos (cursor_position r') = 0
    \<and> (if y + cs + cs < unat (fb_height fb)
       then unat (y_pos (cursor_position r')) = y + cs \<and> s' = s
       else y_pos (cursor_position r') = y_pos (cursor_position r)
         \<and> (\<forall>a. fb_bytes fb \<le> unat (a - base_address fb) \<longrightarrow> mem s' a = mem s a)
         \<and> (\<forall>i<unat (pixels_per_scan_line fb). \<forall>j<unat (fb_height fb).
              pixel fb (mem s') i j = pixel fb (mem s) i (if j + cs < unat (fb_height fb) then j + cs else j)))"
proof -
  let ?r = "set_x 0 r"
  have ok: "tty_ok ?r" "cursor_ok ?r" using assms(4,5) same_tty_ok [of r ?r] by (simp_all add: cursor_ok_def tty_ok_def)
  obtain r' s' where m: "move_tty_cursor_down ?r s = (r', s')" by fastforce
  have y: "unat (y_pos (cursor_position ?r)) + unat (char_size ?r) \<le> unat (fb_height (framebuffer ?r))"
    using ok(2) by (simp add: cursor_ok_def)
  have "tty_kept (?r, s) (r', s')" using move_down_keeps [OF ok, of s] m by simp
  then have "\<not> x_pos (cursor_position r') + 9 > fb_width (framebuffer r')" using cursor_fits by (simp add: tty_kept_def)
  then have c: "tty_char (of_char (CHR 0x0A)) (r, s) = (r', s')" using m by (simp add: tty_char_def)
  have sum: "unat (y_pos (cursor_position r) + ucast (char_size r)) = y + cs"
    using y unat_charsize [of r] unsigned_less [where ?'a = nat, of "fb_height (framebuffer r)"]
    by (simp add: unat_word_ariths y_def cs_def)
  show ?thesis
  proof (cases "y + cs + cs < unat (fb_height fb)")
    case True
    then show ?thesis using c move_down_cases [OF ok(1) y m] sum by (simp add: fb_def cs_def y_def)
  next
    case False
    then show ?thesis
      using c move_down_cases [OF ok(1) y m] by (auto simp: fb_def cs_def y_def scrolled_def same_outside_def)
  qed
qed

theorem newline_scrolls_witness:
  "\<exists>r' s'. tty_char (of_char (CHR 0x0A)) (small_tty\<lparr>cursor_position := \<lparr>x_pos = 9, y_pos = 16\<rparr>\<rparr>, hello_machine) = (r', s')
    \<and> y_pos (cursor_position r') = 16 \<and> pixel small_screen (mem s') 0 40 = pixel small_screen (mem hello_machine) 0 40"
proof -
  let ?r = "small_tty\<lparr>cursor_position := \<lparr>x_pos = 9, y_pos = 16\<rparr>\<rparr>"
  have "same_tty small_tty ?r" by simp
  then have ok: "tty_ok ?r" using small_tty_ok same_tty_ok by blast
  have cur: "cursor_ok ?r" by (simp add: cursor_ok_def small_tty_def small_screen_def)
  show ?thesis
    using newline_scrolls [OF ok cur, of hello_machine] by (auto simp: small_tty_def small_screen_def)
qed

end
