(* ===== verification/Memorymap.thy ===== *)
theory Memorymap
  imports Framealloc
begin

text \<open>
  The boot loader's memory map, \<^verbatim>\<open>kernel/src/memory/memorymap.c\<close>. The map is the list of its entries. The file declares
  \<open>ultoa\<close> and \<open>itoa\<close> with an \<open>int\<close> value, while they are defined with a 64-bit one: the call passes the low half of a register, and what the
  callee finds in the upper half is not specified. It is the parameter \<open>widen\<close>, of which only the low half is known.
\<close>

section \<open>Reading the map\<close>

text \<open>The constant of the boot protocol, which is not part of the repository, is a parameter too.\<close>

record limine =
  widen :: "u32 \<Rightarrow> u64"
  LIMINE_MEMMAP_USABLE :: u64

definition local_itoa :: "nat \<Rightarrow> u64 \<Rightarrow> u8 \<Rightarrow> u8 list" where
  "local_itoa n v b = (case itoa (\<lambda>_. 0) v 0 b of None \<Rightarrow> [] | Some (r, m) \<Rightarrow> local_string n m r)"

definition print_memmap_entry :: "limine \<Rightarrow> limine_memmap_entry \<Rightarrow> u32 \<Rightarrow> machine \<Rightarrow> machine" where
  "print_memmap_entry L entry index s =
     (let s = say_serial ''Region: #'' s;
          s = say (Serial (local_itoa 40 (widen L index) 10)) s;
          s = say_serial [CHR 0x0A] s;
          s = say (Serial (local_ultoa 40 (widen L (ucast (mm_base entry))) 16)) s;
          s = say_serial ([CHR 0x0A] @ ''Length: '') s;
          s = say (Serial (local_ultoa 40 (widen L (ucast (mm_length entry div 4096))) 10)) s
      in say_serial [CHR 0x0A] s)"

text \<open>The variables of the loop; \<open>i\<close> is the index of the first entry of the rest.\<close>

record map_scan =
  total_usable :: u64
  total :: u64
  isFirst :: bool
  frameRegion :: "limine_memmap_entry option"

fun read_loop :: "limine \<Rightarrow> u32 \<Rightarrow> limine_memmap_entry list \<Rightarrow> map_scan \<Rightarrow> machine \<Rightarrow> map_scan \<times> machine" where
  "read_loop L i [] v s = (v, s)"
| "read_loop L i (entry # entries) v s =
     (let val = mm_length entry;
          (v, s) =
            (if mm_type entry = LIMINE_MEMMAP_USABLE L then
               let v = v\<lparr>total_usable := total_usable v + val\<rparr>;
                   s = print_memmap_entry L entry i s;
                   v = (if isFirst v then v\<lparr>isFirst := False\<rparr>
                        else if val div 4096 > 500 \<and> frameRegion v = None then v\<lparr>frameRegion := Some entry\<rparr>
                        else v)
               in (v, s)
             else (v, s));
          v = v\<lparr>total := total v + val\<rparr>
      in read_loop L (i + 1) entries v s)"

definition read_memory_map :: "limine \<Rightarrow> limine_memmap_entry list \<Rightarrow> machine \<Rightarrow> limine_memmap_entry option \<times> machine" where
  "read_memory_map L memmap s =
     (let (v, s) = read_loop L 0 memmap \<lparr>total_usable = 0, total = 0, isFirst = True, frameRegion = None\<rparr> s;
          s = say_serial ''Total Usable Memory: '' s;
          s = say (Serial (local_ultoa 80 (widen L (ucast (total_usable v))) 10)) s;
          s = say_serial ''KiB / '' s;
          s = say (Serial (local_ultoa 80 (widen L (ucast (total v))) 10)) s;
          s = say_serial ('' KiB '' @ [CHR 0x0A]) s
      in (frameRegion v, s))"

section \<open>The frame bitmap\<close>

type_synonym MemoryBitmap = "u64 list"

text \<open>
  The bitmap has 64 words. \<open>1 >> indice\<close> shifts an \<open>int\<close>, which C defines for a shift below 32 only: \<open>None\<close> otherwise. The
  value is cut to a byte.
\<close>

definition get_frame_status :: "MemoryBitmap \<Rightarrow> u64 \<Rightarrow> bool option" where
  "get_frame_status bitmap index =
     (let indice = index mod 64
      in if 32 \<le> indice then None
         else let msk = ucast (drop_bit (unat indice) (1 :: u32)) :: u64;
                  val = ucast (bitmap ! unat indice AND msk) :: u8
              in Some (val > 0))"

section \<open>Lemmas\<close>

lemma local_ultoa_dec: "local_ultoa 80 v 10 = render 10 (unat v)"
proof -
  obtain m' where "ultoa (\<lambda>_. 0) v 0 10 = Some (0, m')" "cstr_at m' 0 (render 10 (unat v))"
    using ultoa_fmt.fmt_writes [of 0 10 "\<lambda>_. 0" v] by (auto simp: fits_def)
  moreover have "length (render 10 (unat v)) \<le> 20"
    using length_to_base [of 10 "unat v" 20] unat_lt_64 [of v] by (simp add: render_def)
  ultimately show ?thesis
    by (simp add: local_ultoa_def local_string_cstr)
qed

text \<open>The choice as a specification: the first large one of the usable regions after the first.\<close>

definition large :: "limine_memmap_entry \<Rightarrow> bool" where
  "large e \<longleftrightarrow> unat (mm_length e) div 4096 > 500"

definition usable :: "limine \<Rightarrow> limine_memmap_entry list \<Rightarrow> limine_memmap_entry list" where
  "usable L es = filter (\<lambda>e. mm_type e = LIMINE_MEMMAP_USABLE L) es"

definition bytes_of :: "limine_memmap_entry list \<Rightarrow> nat" where
  "bytes_of es = (\<Sum>e\<leftarrow>es. unat (mm_length e))"

lemma large_word: "mm_length e div 4096 > 500 \<longleftrightarrow> large e"
  by (simp add: large_def word_less_nat_alt unat_div)

lemma print_memmap_keeps: "\<exists>t. print_memmap_entry L e i s = s\<lparr>trace := trace s @ t\<rparr>"
  by (simp add: print_memmap_entry_def say_def Let_def) blast

text \<open>One turn of the loop.\<close>

definition scan_entry :: "limine \<Rightarrow> limine_memmap_entry \<Rightarrow> map_scan \<Rightarrow> map_scan" where
  "scan_entry L e v = v\<lparr>total := total v + mm_length e,
     total_usable := (if mm_type e = LIMINE_MEMMAP_USABLE L then total_usable v + mm_length e else total_usable v),
     isFirst := (isFirst v \<and> mm_type e \<noteq> LIMINE_MEMMAP_USABLE L),
     frameRegion := (if mm_type e = LIMINE_MEMMAP_USABLE L \<and> \<not> isFirst v \<and> large e \<and> frameRegion v = None
       then Some e else frameRegion v)\<rparr>"

lemma scan_entry_fields:
  "frameRegion (scan_entry L e v) = (if mm_type e = LIMINE_MEMMAP_USABLE L \<and> \<not> isFirst v \<and> large e \<and> frameRegion v = None
     then Some e else frameRegion v)"
  "isFirst (scan_entry L e v) \<longleftrightarrow> isFirst v \<and> mm_type e \<noteq> LIMINE_MEMMAP_USABLE L"
  by (simp_all add: scan_entry_def)

lemma read_loop_step:
  "read_loop L i (e # es) v s = read_loop L (i + 1) es (scan_entry L e v)
     (if mm_type e = LIMINE_MEMMAP_USABLE L then print_memmap_entry L e i s else s)"
proof -
  have "mm_type e = LIMINE_MEMMAP_USABLE L \<Longrightarrow> ?thesis"
    by (cases v) (auto simp: scan_entry_def large_word Let_def)
  moreover have "mm_type e \<noteq> LIMINE_MEMMAP_USABLE L \<Longrightarrow> ?thesis"
    by (cases v) (simp add: scan_entry_def Let_def)
  ultimately show ?thesis by blast
qed

lemma read_loop_fold: "fst (read_loop L i es v s) = fold (scan_entry L) es v"
  by (induction es arbitrary: i v s) (simp_all add: read_loop_step del: read_loop.simps(2))

lemma read_loop_trace: "\<exists>t. snd (read_loop L i es v s) = s\<lparr>trace := trace s @ t\<rparr>"
proof (induction es arbitrary: i v s)
  case Nil
  then show ?case by (auto intro: exI [of _ "[]"])
next
  case (Cons e es)
  have "\<exists>t. (if mm_type e = LIMINE_MEMMAP_USABLE L then print_memmap_entry L e i s else s) = s\<lparr>trace := trace s @ t\<rparr>"
  proof (cases "mm_type e = LIMINE_MEMMAP_USABLE L")
    case True
    then show ?thesis using print_memmap_keeps [of L e i s] by simp
  next
    case False
    then show ?thesis by (intro exI [of _ "[]"]) simp
  qed
  then obtain t where t: "(if mm_type e = LIMINE_MEMMAP_USABLE L then print_memmap_entry L e i s else s) = s\<lparr>trace := trace s @ t\<rparr>"
    by blast
  obtain t' where "snd (read_loop L (i + 1) es (scan_entry L e v) (s\<lparr>trace := trace s @ t\<rparr>)) = s\<lparr>trace := trace s @ t @ t'\<rparr>"
    using Cons.IH [of "i + 1" "scan_entry L e v" "s\<lparr>trace := trace s @ t\<rparr>"] by auto
  then show ?case unfolding read_loop_step t by blast
qed

lemma scan_totals:
  "total (fold (scan_entry L) es v) = total v + of_nat (bytes_of es)"
  "total_usable (fold (scan_entry L) es v) = total_usable v + of_nat (bytes_of (usable L es))"
  by (induction es arbitrary: v) (simp_all add: bytes_of_def usable_def scan_entry_def)

lemma scan_region:
  "frameRegion (fold (scan_entry L) es v) =
     (case frameRegion v of Some e \<Rightarrow> Some e | None \<Rightarrow> find large (if isFirst v then tl (usable L es) else usable L es))"
proof (induction es arbitrary: v)
  case Nil
  then show ?case by (simp add: usable_def split: option.split)
next
  case (Cons e es)
  show ?case
    by (cases "frameRegion v"; cases "isFirst v"; cases "mm_type e = LIMINE_MEMMAP_USABLE L"; cases "large e")
      (simp_all add: Cons.IH scan_entry_fields usable_def)
qed

section \<open>Properties\<close>

text \<open>C40. \<open>read_memory_map\<close> chooses the first region of more than 500 pages among the usable regions after the first one, and null
  when there is none; it changes nothing but the output. The two totals it reports are the numbers of bytes, under the label KiB, and
  of each only the low 32 bits are sure to be reported.\<close>
theorem read_memory_map_selects:
  assumes "\<And>v. ucast (widen L v) = v"
  shows "\<exists>u w t. read_memory_map L es s = (find large (tl (usable L es)), s\<lparr>trace := trace s @ t @
      [Serial (cbytes ''Total Usable Memory: ''), Serial (render 10 u), Serial (cbytes ''KiB / ''), Serial (render 10 w),
       Serial (cbytes ('' KiB '' @ [CHR 0x0A]))]\<rparr>)
    \<and> u mod 2 ^ 32 = bytes_of (usable L es) mod 2 ^ 32 \<and> w mod 2 ^ 32 = bytes_of es mod 2 ^ 32"
proof -
  let ?v = "\<lparr>total_usable = 0, total = 0, isFirst = True, frameRegion = None\<rparr>"
  obtain v s' where r: "read_loop L 0 es ?v s = (v, s')" by fastforce
  have v: "v = fold (scan_entry L) es ?v" using read_loop_fold [of L 0 es ?v s] r by simp
  obtain t where s': "s' = s\<lparr>trace := trace s @ t\<rparr>" using read_loop_trace [of L 0 es ?v s] r by auto
  have low: "unat (widen L x) mod 2 ^ 32 = unat x" for x
    using arg_cong [OF assms [of x], of unat] by (simp add: unsigned_ucast_eq take_bit_eq_mod)
  have cut: "unat (ucast (of_nat n :: u64) :: u32) = n mod 2 ^ 32" for n
    by (simp add: unsigned_ucast_eq take_bit_eq_mod unat_of_nat mod_mod_cancel)
  show ?thesis
    using low [of "ucast (total_usable v)"] low [of "ucast (total v)"]
    by (intro exI [of _ "unat (widen L (ucast (total_usable v)))"] exI [of _ "unat (widen L (ucast (total v)))"] exI [of _ t])
      (simp add: read_memory_map_def r v scan_region scan_totals s' local_ultoa_dec say_def cut)
qed

text \<open>A map with a low region, a reserved one, one of 4 MiB and one of 8 GiB, on a machine that extends by zeros.\<close>

definition zero_extending :: limine where
  "zero_extending = \<lparr>widen = ucast, LIMINE_MEMMAP_USABLE = 0\<rparr>"

definition example_map :: "limine_memmap_entry list" where
  "example_map =
     [\<lparr>mm_base = 0x1000, mm_length = 0x9E000, mm_type = 0\<rparr>, \<lparr>mm_base = 0x9F000, mm_length = 0x61000, mm_type = 1\<rparr>,
      \<lparr>mm_base = 0x100000, mm_length = 0x400000, mm_type = 0\<rparr>, \<lparr>mm_base = 0x500000, mm_length = 0x200000000, mm_type = 0\<rparr>]"

theorem read_memory_map_selects_witness:
  "fst (read_memory_map zero_extending example_map boot_state) = Some \<lparr>mm_base = 0x100000, mm_length = 0x400000, mm_type = 0\<rparr>"
proof -
  have "ucast (widen zero_extending v) = v" for v
    unfolding zero_extending_def by (rule bit_word_eqI) (simp add: bit_simps)
  from read_memory_map_selects [OF this, of example_map boot_state] show ?thesis
    by (auto simp: usable_def example_map_def zero_extending_def large_def)
qed

text \<open>
  \<open>get_frame_status\<close> looks at one bit only: the lowest of the first word, for the frames whose number is a multiple of 64; for
  the 31 after each of them the answer is no, and for the rest it is undefined.
\<close>

theorem get_frame_status_lowest_bit:
  "get_frame_status bitmap index =
     (if unat index mod 64 = 0 then Some (bit (bitmap ! 0) 0) else if unat index mod 64 < 32 then Some False else None)"
proof -
  let ?i = "unat index mod 64"
  have i: "unat (index mod 64) = ?i" by (simp add: unat_mod)
  have ge: "32 \<le> index mod 64 \<longleftrightarrow> 32 \<le> ?i" by (simp add: word_le_nat_alt i)
  have shift: "drop_bit ?i (1 :: u32) = (if ?i = 0 then 1 else 0)" by (rule bit_word_eqI) (auto simp: bit_simps)
  have "ucast (w AND 1 :: u64) > (0 :: u8) \<longleftrightarrow> bit w 0" for w
  proof -
    have "w AND 1 = (if bit w 0 then 1 else 0)" by (rule bit_word_eqI) (auto simp: bit_simps intro: gr0I)
    then show ?thesis by simp
  qed
  then show ?thesis unfolding get_frame_status_def Let_def ge i shift by simp
qed

end
