(* ===== verification/Boot.thy ===== *)
theory Boot
  imports Bucketalloc Idt Uart Strings Tty Memorymap
begin

text \<open>
  Start-up: \<open>kernel_init\<close> of \<^verbatim>\<open>kernel/src/kernel.c\<close> and \<open>kmain\<close> of \<^verbatim>\<open>kernel/src/main.c\<close>, which call the other components in the
  order of the source. The answers of the boot loader are arguments. Text output is one entry of the trace per call. \<open>None\<close>
  is a call that does not return, or a null pointer or a missing entry that is read. The polling behind an output call is not part of
  these definitions but of \<open>transmit\<close> in \<open>Output\<close>, which runs the trace on the device; pages without a translation are the
  subject of \<open>Backing\<close>.
\<close>

section \<open>Initialising the kernel\<close>

record kernel =
  k_machine :: machine
  k_tty :: TTYRenderer
  k_idt :: idt_state
  k_uart :: uart

abbreviation nl :: string where "nl \<equiv> [CHR 0x0A]"

definition kernel_init_devices :: "(u8 \<Rightarrow> u64) \<Rightarrow> FrameBuffer \<Rightarrow> PSF1_FONT \<Rightarrow> kernel \<Rightarrow> kernel" where
  "kernel_init_devices isr_stub_table fb font k =
     (let r = init_tty_renderer (k_tty k) fb font;
          s = say_serial (''tty init'' @ nl) (k_machine k);
          (r, s) = tty_clear r BGREEN True s;
          s = say (Tty_print (cbytes (''Froggy Os: vga driver init complete..'' @ nl))) s;
          idt = idt_assemble isr_stub_table (k_idt k);
          s = say (Tty_print (cbytes (''IDT Initialised.'' @ nl))) s;
          s = say_serial (''IDT Init.'' @ nl) s
      in k\<lparr>k_machine := s, k_tty := r, k_idt := idt\<rparr>)"

text \<open>The frame list, built in the second region of the map from the region that was chosen, and a first mapping through it.\<close>

definition kernel_init_frames :: "limine \<Rightarrow> limine_memmap_entry list \<Rightarrow> machine \<Rightarrow> (u64 \<times> machine) option" where
  "kernel_init_frames L memmap s =
     (let (framesToAllocate, s) = read_memory_map L memmap s
      in if length memmap \<le> 1 then None
         else let frameAllocAddress = mm_base (memmap ! 1) + PHYSICAL_ADDRESS_OFFSET s
         in case framesToAllocate of None \<Rightarrow> None | Some region \<Rightarrow>
           let (frameList, s) = init_frame_list s frameAllocAddress region;
               s = say (Tty_printf (''PMM init complete'' @ nl) []) s;
               s = say_serial ''Next Free Address: 0x'' s;
               s = say (Serial (local_ultoa 60 (load64 (mem s) (ffl_nextFree (mem s) frameList)) 16)) s;
               s = say_serial (''!'' @ nl) s;
               virtAddr = 0xffff80000008c990;
               s = say_serial (''VirtAddr written'' @ nl) s;
               s = say_serial nl s;
               (frame, m) = pop_frame_list (mem s) frameList;
               (_, s) = map_to_page (s\<lparr>mem := m\<rparr>) virtAddr frame frameList 0
           in Some (frameList, s\<lparr>mem := store64 (mem s) virtAddr 69420\<rparr>))"

definition kernel_init_heap :: "u64 \<Rightarrow> machine \<Rightarrow> machine option" where
  "kernel_init_heap frameList s =
     (let s = init_heap s;
          s = say (Tty_println ''Init heap.'' []) s;
          s = init_vmm s frameList;
          s = say (Serial_printf (''Init VMM'' @ nl) []) s;
          s = say (Tty_println ''Init VMM.'' []) s
      in do {
        (_, s) \<leftarrow> kmalloc_init s 0x1000;
        let s = say Tty_break s;
        let s = say (Serial_printf (''Kmalloc init'' @ nl) []) s;
        let s = say (Tty_println ''KMalloc Initialised.'' []) s;
        (number, s) \<leftarrow> kmalloc s 8;
        let s = say (Serial_printf ('' '' @ nl @ ''malloced address %p '' @ nl) [Va_int number]) s;
        let s = s\<lparr>mem := store64 (mem s) number 10023\<rparr>;
        let s = say (Tty_println ''Number = %ul'' [Va_int (load64 (mem s) number)]) s;
        s \<leftarrow> kfree s number;
        let s = say Tty_break s;
        Some (say (Tty_printf (''F R O G E  L O A D I N G'' @ nl) []) s)
      })"

definition kernel_init ::
    "limine \<Rightarrow> (u8 \<Rightarrow> u64) \<Rightarrow> FrameBuffer \<Rightarrow> PSF1_FONT \<Rightarrow> limine_memmap_entry list \<Rightarrow> kernel \<Rightarrow> kernel option" where
  "kernel_init L isr_stub_table fb font memmap k =
     (let k = kernel_init_devices isr_stub_table fb font k
      in do {
        (frameList, s) \<leftarrow> kernel_init_frames L memmap (k_machine k);
        s \<leftarrow> kernel_init_heap frameList s;
        Some (k\<lparr>k_machine := s\<rparr>)
      })"

section \<open>The entry point\<close>

text \<open>What the boot loader answers; a null response is \<open>None\<close>. Of a frame buffer the code reads these fields.\<close>

record limine_framebuffer =
  lf_address :: u64
  lf_width :: u64
  lf_height :: u64
  lf_pitch :: u64

record responses =
  base_revision_supported :: bool
  framebuffers :: "limine_framebuffer list option"
  modules :: "limine_file list option"
  memmap_entries :: "limine_memmap_entry list option"
  hhdm_offset :: "u64 option"

text \<open>Every path ends in \<open>hcf\<close>, after an error or when the work is done.\<close>

datatype stop = Error_stop | Done_stop

definition kmain ::
    "limine \<Rightarrow> (u8 \<Rightarrow> u64) \<Rightarrow> u64 \<Rightarrow> responses \<Rightarrow> kernel \<Rightarrow> (stop \<times> kernel) option" where
  "kmain L isr_stub_table fName rs k =
     (if \<not> base_revision_supported rs then Some (Error_stop, k)
      else case framebuffers rs of
        None \<Rightarrow> Some (Error_stop, k)
      | Some [] \<Rightarrow> Some (Error_stop, k)
      | Some (f # _) \<Rightarrow>
          let fb = \<lparr>base_address = lf_address f, buffer_size = lf_height f * lf_pitch f, fb_width = ucast (lf_width f),
                    fb_height = ucast (lf_height f), pixels_per_scan_line = ucast (lf_pitch f div 4)\<rparr>;
              k = k\<lparr>k_uart := init_serial (k_uart k)\<rparr>;
              k = k\<lparr>k_machine := say_serial ''Hello Coomers!'' (k_machine k)\<rparr>
          in do {
            (r, s) \<leftarrow> getFile (k_machine k) (modules rs) fName;
            let k = k\<lparr>k_machine := s\<rparr>;
            (case r of
              Halted \<Rightarrow> Some (Error_stop, k)
            | No_file \<Rightarrow> Some (Error_stop, k)
            | File file \<Rightarrow>
                let start = address file;
                    header = \<lparr>magic = (mem s start, mem s (start + 1)), mode = mem s (start + 2), charsize = mem s (start + 3)\<rparr>
                in if fst (magic header) \<noteq> 0x36 \<or> snd (magic header) \<noteq> 0x04 then Some (Error_stop, k)
                   else
                     let font = \<lparr>psf1_header = header, glyph_buffer = start + 4\<rparr>;
                         s = say_serial (''font assigned'' @ nl) s
                     in (case memmap_entries rs of
                       None \<Rightarrow> Some (Error_stop, k\<lparr>k_machine := say_serial (''MemoryMap Request failed: response is null '' @ nl) s\<rparr>)
                     | Some memmap \<Rightarrow>
                         (case hhdm_offset rs of
                           None \<Rightarrow> Some (Error_stop, k\<lparr>k_machine := say_serial (''HHDM Request failed: response is null '' @ nl) s\<rparr>)
                         | Some offset \<Rightarrow>
                             let s = init_paging s offset;
                                 s = say_serial (''paging init complete '' @ nl) s
                             in do {
                               k \<leftarrow> kernel_init L isr_stub_table fb font memmap (k\<lparr>k_machine := s\<rparr>);
                               Some (Done_stop, k\<lparr>k_machine := say_serial (''kernel init complete'' @ nl) (k_machine k)\<rparr>)
                             })))
          })"

section \<open>Lemmas\<close>

text \<open>Mapping changes memory and the trace only, whatever the tables hold.\<close>

lemma same_regs_say [simp]: "same_regs s (say e t) = same_regs s t"
  by (simp add: same_regs_def)

lemma same_regs_mem [simp]: "same_regs s (t\<lparr>mem := m\<rparr>) = same_regs s t"
  by (simp add: same_regs_def)

text \<open>
  Relations between states that do not look at memory: mapping keeps every one of them that allows the output it makes. \<open>ok\<close> is the
  output that is allowed.
\<close>

locale memory_blind =
  fixes R :: "machine \<Rightarrow> machine \<Rightarrow> bool" and ok :: "io \<Rightarrow> bool"
  assumes refl: "R s s"
    and trans: "R s s' \<Longrightarrow> R s' s'' \<Longrightarrow> R s s''"
    and mem_update: "R s (s\<lparr>mem := m\<rparr>)"
    and say_ok: "ok e \<Longrightarrow> R s (say e s)"
    and serial: "ok (Serial xs)"
begin

lemma keeps_mem: "R s s' \<Longrightarrow> R s (s'\<lparr>mem := m\<rparr>)"
  using trans mem_update by blast

lemma keeps_say: "ok e \<Longrightarrow> R s s' \<Longrightarrow> R s (say e s')"
  using trans say_ok by blast

lemma create_table: "R s (snd (create_new_page_table s l))"
  by (simp add: create_new_page_table_def print_ptr_address_def case_prod_beta Let_def refl keeps_mem keeps_say serial)

lemma one_level: "R s (snd (map_level s t i l e))"
  using create_table [of s l] by (simp add: map_level_def case_prod_beta Let_def refl keeps_mem keeps_say serial)

lemma level_cases:
  assumes "R s s'" "\<And>v s''. R s s'' \<Longrightarrow> R s (snd (g v s''))"
  shows "R s (snd (case map_level s' t i l e of (None, s) \<Rightarrow> (0 :: u64, s) | (Some v, s) \<Rightarrow> g v s))"
proof -
  obtain v s'' where v: "map_level s' t i l e = (v, s'')" by fastforce
  have "R s s''" using one_level [of s' t i l e] v trans [OF assms(1)] by simp
  then show ?thesis using assms(2) by (cases v) (simp_all add: v)
qed

lemma mapping: "R s (snd (map_to_page s a f l p))"
  unfolding map_to_page_def Let_def by (cases "p = 0") (auto intro!: level_cases simp: refl keeps_mem)

lemma page:
  assumes "ok (Serial_printf (''Err: Given address for page is null'' @ [CHR 0x0A]) [])"
  shows "R s (snd (alloc_page s a))"
proof -
  obtain f s1 where g: "get_physical_frame_addr s = (f, s1)" by fastforce
  then have "R s s1" by (auto simp: get_physical_frame_addr_def case_prod_beta Let_def mem_update)
  then show ?thesis using mapping trans keeps_say [OF assms] by (auto simp: alloc_page_def g)
qed

end

interpretation regs: memory_blind same_regs "\<lambda>_. True"
  by unfold_locales (auto simp: same_regs_def)

lemmas map_to_page_regs = regs.mapping
lemmas alloc_page_regs = regs.page [OF TrueI]

lemma init_vmm_regs: "same_regs (s\<lparr>vmm_frameAlloc := l\<rparr>) (init_vmm s l)"
  using alloc_page_regs [of "s\<lparr>vmm_frameAlloc := l\<rparr>" "KHEAPSTART s"]
  by (simp add: init_vmm_def case_prod_beta Let_def)

text \<open>\<open>mmap\<close> reserves the range even if no page of it can be backed.\<close>

lemma mmap_reserves:
  assumes free: "\<not> bit (kheap_spinlock s) 0" and a: "K_HEAP_END s \<noteq> 0" "unat (K_HEAP_END s) + 8192 < 18446744073709551616"
    and sz: "1 \<le> unat sz" "unat sz \<le> 4096"
  shows "\<exists>s'. mmap s sz = Some (K_HEAP_END s, s') \<and> KHEAPSTART s' = KHEAPSTART s"
proof -
  let ?a = "K_HEAP_END s"
  obtain s1 where g: "grow_heap s sz = Some (?a, s1)" "KHEAPSTART s1 = KHEAPSTART s" using grow_heap_returns [OF free, of sz] by blast
  define s2 where "s2 = say (Tty_printf ''Region start %ulh'' [Va_int ?a]) s1"
  have u: "unat (?a + sz) = unat ?a + unat sz" "unat (?a + 0x1000) = unat ?a + 4096"
    using a sz by (subst unat_add_64; simp)+
  have "mmap_loop s2 ?a (?a + sz) = Some (snd (alloc_page s2 ?a))"
    using u sz by (subst mmap_loop.simps, subst mmap_loop.simps) (simp add: word_less_nat_alt)
  then have "mmap s sz = Some (?a, snd (alloc_page s2 ?a))" using g a by (simp add: mmap_def s2_def)
  then show ?thesis using alloc_page_regs [of s2 ?a] g by (simp add: same_regs_def s2_def)
qed

lemma kmalloc_init_fresh:
  assumes "\<not> bit (kheap_spinlock s) 0" "K_HEAP_END s = KHEAPSTART s" "KHEAPSTART s \<noteq> 0"
    "unat (KHEAPSTART s) + 69632 < 18446744073709551616"
  shows "\<exists>s'. kmalloc_init s 0x1000 = Some (KHEAPSTART s, s') \<and> heap_ok s' [(False, 69508)] \<and> KHEAPSTART s' = KHEAPSTART s"
proof -
  let ?s = "say (Serial_printf ([CHR 0x0A] @ '' kmalloc init start.'') []) s" and ?a = "KHEAPSTART s"
  have b: "bucket_bytes 0x1000 = 69632" "69632 div PAGESIZE = 17" by (simp_all add: bucket_bytes_def heap_consts)
  obtain s1 where s1: "mmap ?s 17 = Some (?a, s1)" "KHEAPSTART s1 = ?a"
    using mmap_reserves [of ?s 17] assms by auto
  then have mm: "mmap ?s (bucket_bytes 0x1000 div PAGESIZE) = Some (?a, s1)" by (simp add: b)
  obtain s2 where "create_bucket ?s 0x1000 (0 OR BUCKET_FLAG_FIRST) = Some (?a, s2)" "bucket_rep (mem s2) ?a [(False, 69508)]"
      "header_ok (mem s2) ?a [(False, 69508)]" "load32 (mem s2) (b_spinlock ?a) = 0" "same_regs s1 s2"
    using create_bucket_fresh [OF mm assms(3), of "0 OR BUCKET_FLAG_FIRST"] assms(4) by (auto simp: b)
  then show ?thesis using s1(2) by (auto simp: kmalloc_init_def heap_ok_def same_regs_def)
qed

text \<open>Half of a 64-bit cell, and zeroed cells.\<close>

lemma load32_store64_high: "load32 (store64 m a v) (a + 4) = ucast (drop_bit 32 v)"
proof (rule bit_word_eqI)
  fix n assume n: "n < LENGTH(32)"
  have "unat (a + 4 + of_nat (n div 8) - a) = 4 + n div 8"
  proof -
    have "unat (4 + of_nat (n div 8) :: u64) = 4 + n div 8"
      using n unat_of_nat_64 [of "4 + n div 8"] by (simp add: less_imp_le_nat)
    then show ?thesis by (simp add: algebra_simps)
  qed
  moreover have "n div 8 < 4" using n by simp
  moreover have "8 * (4 + n div 8) + n mod 8 = 32 + n" by simp
  ultimately show "bit (load32 (store64 m a v) (a + 4)) n = bit (ucast (drop_bit 32 v) :: u32) n"
    using n by (auto simp: load32_def store64_def store_def bit_simps bit_load add.commute [of 32 n])
qed

text \<open>
  The self-test at the end of \<open>kernel_init\<close>: eight bytes are allocated in a block of size 0, the 64 bytes that \<open>kmalloc\<close> clears are
  the header of the free block behind it, and \<open>kfree\<close> joins the two by what is left of that header.
\<close>

definition joined :: "memory \<Rightarrow> u64 \<Rightarrow> memory" where
  "joined m b = release_at (store64 (store64 (store64 (store32 (store32 (store32 m (b + 24) 1) (b + 68) 0) (b + 76) 1)
     (b + 80) 60) (b + 116) 0) (b + 8) 60) (b + 24)"

lemma kfree_joins_wiped:
  assumes m: "bucket_rep m b [(True, 0), (False, n)]" "load32 m (b_spinlock b) = 0" "load32 m (b_lflags b) AND BUCKET_FLAG_BEST = 0"
    and s: "mem s = store64 (filled m (b + 124) 0 64) (b + 124) 10023" "KHEAPSTART s = b"
  shows "kfree s (b + 124) = Some (s\<lparr>mem := joined (mem s) b\<rparr>)" "heap_ok (s\<lparr>mem := joined (mem s) b\<rparr>) [(False, 60)]"
proof -
  let ?m = "mem s"
  have room: "unat b + 184 < 18446744073709551616" "b \<noteq> 0"
    using m(1) by (auto simp: bucket_rep_def)
  have "unat (b + 64) = unat b + 64" "unat (b + 124) = unat b + 124" using room by (simp_all add: unat_add_64)
  then have ne: "b + 64 \<noteq> 0" "b + 124 \<noteq> 0" by auto
  have old: "load64 m (b + 40) = b + 64" "load32 m (b + 64) = KMALLOC_MAGIC_PEBBLE" "load64 m (b + 80) = 0" "load64 m (b + 100) = b"
      "load64 m (b + 108) = 0" "load64 m (b + 116) = b + 124" "load32 m (b + 24) = 0" "load32 m (b + 4) AND BUCKET_FLAG_BEST = 0"
    using m by (simp_all add: bucket_rep_def pebble_at_def layout add.assoc)
  have new: "load64 ?m (b + 40) = b + 64" "load32 ?m (b + 64) = KMALLOC_MAGIC_PEBBLE" "load64 ?m (b + 80) = 0" "load64 ?m (b + 100) = b"
      "load64 ?m (b + 108) = 0" "load64 ?m (b + 116) = b + 124" "load32 ?m (b + 24) = 0" "load32 ?m (b + 4) AND BUCKET_FLAG_BEST = 0"
    unfolding s using old by (simp_all add: mem_simps sep_offsets)
  have hdr: "load32 ?m (b + 128) = 0" "load64 ?m (b + 140) = 0" "load64 ?m (b + 176) = 0"
    unfolding s using load32_store64_high [of _ "b + 124" 10023] by (simp_all add: mem_simps sep_offsets add.assoc)
  define m1 where "m1 = store32 (store32 (store32 ?m (b + 24) 1) (b + 68) 0) (b + 76) 1"
  define m2 where "m2 = store64 (store64 (store64 m1 (b + 80) 60) (b + 116) 0) (b + 8) 60"
  have acq: "acquire_at ?m (b + 24) = Some (store32 ?m (b + 24) 1)"
    by (simp add: acquire_at_def acquire_spinlock_def new)
  have m1: "load64 m1 (b + 40) = b + 64" "load64 m1 (b + 80) = 0" "load64 m1 (b + 100) = b" "load64 m1 (b + 108) = 0"
      "load64 m1 (b + 116) = b + 124" "load32 m1 (b + 68) = 0" "load32 m1 (b + 128) = 0" "load64 m1 (b + 140) = 0" "load64 m1 (b + 176) = 0"
    unfolding m1_def using new hdr by (simp_all add: mem_simps sep_offsets)
  have melt: "melt_prev m1 (b + 64) = Some (b + 64, m1)" by (simp add: melt_prev_def layout m1 add.assoc)
  have absorb: "absorb_next m1 (b + 64) = Some (b + 64, m2)"
    using ne by (simp add: absorb_next_def layout m1 IS_PEBBLE_FREE_def PEBBLE_FLAG_IN_USE_def PEBBLE_FLAG_FREE_def sizeof_pebble_def
        mem_simps sep_offsets bucket_update_largest_def largest_loop.simps [of _ "b + 64"] largest_loop.simps [of _ 0] m2_def add.assoc Let_def)
  have m2: "load64 m2 (b + 40) = b + 64" "load32 m2 (b + 64) = KMALLOC_MAGIC_PEBBLE" "load64 m2 (b + 80) = 60" "load64 m2 (b + 100) = b"
      "load64 m2 (b + 108) = 0" "load64 m2 (b + 116) = 0" "load32 m2 (b + 68) = 0" "load64 m2 (b + 8) = 60" "load32 m2 (b + 24) = 1"
      "load32 m2 (b + 4) AND BUCKET_FLAG_BEST = 0"
    unfolding m2_def m1_def using new by (simp_all add: mem_simps sep_offsets)
  define m3 where "m3 = release_at m2 (b + 24)"
  have m3: "load64 m3 (b + 40) = b + 64" "load32 m3 (b + 64) = KMALLOC_MAGIC_PEBBLE" "load64 m3 (b + 80) = 60" "load64 m3 (b + 100) = b"
      "load64 m3 (b + 108) = 0" "load64 m3 (b + 116) = 0" "load32 m3 (b + 68) = 0" "load64 m3 (b + 8) = 60" "load32 m3 (b + 24) = 0"
      "load32 m3 (b + 4) AND BUCKET_FLAG_BEST = 0"
    unfolding m3_def release_at_def release_spinlock_def using m2 by (simp_all add: mem_simps sep_offsets)
  have p: "b + 124 - sizeof_pebble = b + 64" by (simp add: sizeof_pebble_def)
  have free: "IS_PEBBLE_FREE m3 (b + 64)" by (simp add: IS_PEBBLE_FREE_def layout m3 add.assoc PEBBLE_FLAG_FREE_def)
  have "kfree s (b + 124) = remove_bucket (s\<lparr>mem := m3\<rparr>) b"
    unfolding kfree_def Let_def p layout PEBBLE_FLAG_FREE_def
    using ne free by (simp add: new acq add.assoc m1_def [symmetric] melt absorb m2 m3 m3_def [symmetric])
  moreover have j: "joined ?m b = m3" by (simp add: joined_def m1_def m2_def m3_def)
  ultimately show "kfree s (b + 124) = Some (s\<lparr>mem := joined ?m b\<rparr>)" by (simp add: remove_bucket_def s(2))
  show "heap_ok (s\<lparr>mem := joined ?m b\<rparr>) [(False, 60)]"
    unfolding j using room s(2) by (simp add: heap_ok_def bucket_rep_def header_ok_def pebble_at_def layout m3 add.assoc
        IS_PEBBLE_FREE_def PEBBLE_FLAG_FREE_def)
qed

lemma kmalloc_8:
  assumes ok: "heap_ok s [(False, 69508)]"
  defines "b \<equiv> KHEAPSTART s"
  shows "\<exists>m s'. kmalloc s 8 = Some (b + 124, s') \<and> mem s' = filled m (b + 124) 0 64 \<and> KHEAPSTART s' = b
    \<and> bucket_rep m b [(True, 0), (False, 69448)] \<and> load32 m (b_spinlock b) = 0 \<and> load32 m (b_lflags b) AND BUCKET_FLAG_BEST = 0"
proof -
  have fit: "first_fit 0 [(False, 69508)] = Some ([], 69508, [])" by simp
  have cut: "cut_block 0 69508 = [(True, 0), (False, 69448)]"
    by (simp add: cut_block_def SPLIT_PEBBLE_def heap_consts)
  have r: "request_size 64 = 0" by (simp add: request_size_def heap_consts)
  have rep: "bucket_rep (mem s) (KHEAPSTART s) [(False, 69508)]" and lf: "load32 (mem s) (b_lflags b) AND BUCKET_FLAG_BEST = 0"
    using ok by (simp_all add: heap_ok_def header_ok_def b_def)
  obtain m s' where "kmalloc s 8 = Some (b + 124, s')" "mem s' = filled m (b + 124) 0 64" "KHEAPSTART s' = b"
      "bucket_rep m b [(True, 0), (False, 69448)]" "load32 m (b_spinlock b) = 0"
      "load32 m (b_lflags b) = load32 (mem s) (b_lflags b)"
    using kmalloc_fit [OF rep fit heap_open [OF ok fit], of 64 8] r cut by (auto simp: b_def add.assoc)
  then show ?thesis using lf by auto
qed

text \<open>Bringing up the heap, from the reservation to the self-test.\<close>

lemma kernel_init_heap_returns:
  assumes "\<not> bit (kheap_spinlock s) 0" "KHEAPSTART s \<noteq> 0" "unat (KHEAPSTART s) + 69632 < 18446744073709551616"
  shows "\<exists>s1 s'. kmalloc_init (init_vmm (init_heap s) frameList) 0x1000 = Some (KHEAPSTART s, s1) \<and> heap_ok s1 [(False, 69508)]
    \<and> kernel_init_heap frameList s = Some s' \<and> heap_ok s' [(False, 60)]
    \<and> Tty_println ''Number = %ul'' [Va_int 10023] \<in> set (trace s') \<and> last (trace s') = Tty_printf (''F R O G E  L O A D I N G'' @ nl) []
    \<and> trace s' \<noteq> []"
proof -
  let ?b = "KHEAPSTART s"
  define t0 where "t0 = init_vmm (say (Tty_println ''Init heap.'' []) (init_heap s)) frameList"
  define t1 where "t1 = say (Tty_println ''Init VMM.'' []) (say (Serial_printf (''Init VMM'' @ nl) []) t0)"
  have up: "\<not> bit (kheap_spinlock t) 0" "K_HEAP_END t = KHEAPSTART t" "KHEAPSTART t = ?b"
    if "same_regs ((init_heap s)\<lparr>vmm_frameAlloc := frameList\<rparr>) t" for t
    using that assms(1) by (simp_all add: same_regs_def init_heap_def)
  have r0: "same_regs ((init_heap s)\<lparr>vmm_frameAlloc := frameList\<rparr>) t1"
    using init_vmm_regs [where s = "say (Tty_println ''Init heap.'' []) (init_heap s)" and l = frameList]
    by (simp add: t1_def t0_def same_regs_def)
  note fresh = kmalloc_init_fresh
  obtain s1 where "kmalloc_init (init_vmm (init_heap s) frameList) 0x1000 = Some (?b, s1)" "heap_ok s1 [(False, 69508)]"
    using fresh [of "init_vmm (init_heap s) frameList"] up [OF init_vmm_regs] assms(2,3) by auto
  moreover obtain t2 where t2: "kmalloc_init t1 0x1000 = Some (?b, t2)" "heap_ok t2 [(False, 69508)]" "KHEAPSTART t2 = ?b"
    using fresh [of t1] up [OF r0] assms(2,3) by auto
  define t3 where "t3 = say (Tty_println ''KMalloc Initialised.'' []) (say (Serial_printf (''Kmalloc init'' @ nl) []) (say Tty_break t2))"
  have t3: "heap_ok t3 [(False, 69508)]" "KHEAPSTART t3 = ?b" using t2 by (simp_all add: t3_def heap_ok_def)
  obtain m t4 where t4: "kmalloc t3 8 = Some (?b + 124, t4)" "mem t4 = filled m (?b + 124) 0 64" "KHEAPSTART t4 = ?b"
      and m: "bucket_rep m ?b [(True, 0), (False, 69448)]" "load32 m (b_spinlock ?b) = 0" "load32 m (b_lflags ?b) AND BUCKET_FLAG_BEST = 0"
    using kmalloc_8 [OF t3(1)] t3(2) by auto
  define u where "u = say (Serial_printf ('' '' @ nl @ ''malloced address %p '' @ nl) [Va_int (?b + 124)]) t4"
  define t5 where "t5 = u\<lparr>mem := store64 (mem u) (?b + 124) 10023\<rparr>"
  define t6 where "t6 = say (Tty_println ''Number = %ul'' [Va_int (load64 (mem t5) (?b + 124))]) t5"
  have n: "load64 (mem t5) (?b + 124) = 10023" by (simp add: t5_def mem_simps)
  obtain t7 where t7: "kfree t6 (?b + 124) = Some t7" "heap_ok t7 [(False, 60)]" "trace t7 = trace t6"
    using kfree_joins_wiped [OF m, of t6] t4 by (auto simp: t6_def t5_def u_def)
  have "kernel_init_heap frameList s = Some (say (Tty_printf (''F R O G E  L O A D I N G'' @ nl) []) (say Tty_break t7))"
    unfolding kernel_init_heap_def Let_def t0_def [symmetric] t1_def [symmetric] t2(1) Option.bind.simps prod.case t3_def [symmetric]
      t4(1) u_def [symmetric] t5_def [symmetric] t6_def [symmetric] t7(1) ..
  moreover have "heap_ok (say (Tty_printf (''F R O G E  L O A D I N G'' @ nl) []) (say Tty_break t7)) [(False, 60)]"
    using t7(2) by (simp add: heap_ok_def)
  moreover have "Tty_println ''Number = %ul'' [Va_int 10023] \<in> set (trace (say (Tty_printf (''F R O G E  L O A D I N G'' @ nl) []) (say Tty_break t7)))"
    using t7(3) n by (simp add: t6_def)
  moreover have "last (trace (say (Tty_printf (''F R O G E  L O A D I N G'' @ nl) []) (say Tty_break t7))) = Tty_printf (''F R O G E  L O A D I N G'' @ nl) []"
      "trace (say (Tty_printf (''F R O G E  L O A D I N G'' @ nl) []) (say Tty_break t7)) \<noteq> []"
    by simp_all
  ultimately show ?thesis by blast
qed

text \<open>The parts of \<open>kernel_init\<close> before the heap touch no register and no global variable that it depends on.\<close>

lemma devices_regs: "same_regs (k_machine k) (k_machine (kernel_init_devices stubs fb font k))"
  by (simp add: kernel_init_devices_def tty_clear_def case_prod_beta Let_def)

lemma devices_idt: "k_idt (kernel_init_devices stubs fb font k) = idt_assemble stubs (k_idt k)"
  by (simp add: kernel_init_devices_def case_prod_beta Let_def)

lemma read_memory_map_regs: "same_regs s (snd (read_memory_map L es s))"
proof -
  obtain t where "snd (read_loop L 0 es \<lparr>total_usable = 0, total = 0, isFirst = True, frameRegion = None\<rparr> s) = s\<lparr>trace := trace s @ t\<rparr>"
    using read_loop_trace by blast
  then show ?thesis by (simp add: read_memory_map_def case_prod_beta Let_def same_regs_def)
qed

lemma read_memory_map_region: "fst (read_memory_map L es s) = find large (tl (usable L es))"
  by (simp add: read_memory_map_def case_prod_beta Let_def read_loop_fold scan_region)

lemma init_frame_list_regs: "same_regs s (snd (init_frame_list s a e))"
  by (simp add: init_frame_list_def Let_def)

lemma kernel_init_frames_returns:
  assumes "1 < length es" "find large (tl (usable L es)) \<noteq> None"
  shows "\<exists>l s'. kernel_init_frames L es s = Some (l, s') \<and> same_regs s s'"
proof -
  obtain e s1 where r: "read_memory_map L es s = (Some e, s1)"
    using assms(2) read_memory_map_region [of L es s] by (metis not_None_eq prod.collapse)
  then have s1: "same_regs s s1" using read_memory_map_regs [of s L es] by simp
  have i: "same_regs s (snd (init_frame_list s1 a e))" for a
    using same_regs_trans [OF s1] init_frame_list_regs by blast
  have m: "same_regs s (snd (map_to_page s3 a f l 0))" if "same_regs s s3" for s3 a f l
    using same_regs_trans [OF that] map_to_page_regs by blast
  show ?thesis
    unfolding kernel_init_frames_def r Let_def prod.case option.case case_prod_beta
    using assms(1) by (simp add: m i)
qed

lemma kernel_init_returns:
  assumes "1 < length es" "find large (tl (usable L es)) \<noteq> None"
    and "\<not> bit (kheap_spinlock (k_machine k)) 0" "KHEAPSTART (k_machine k) \<noteq> 0"
      "unat (KHEAPSTART (k_machine k)) + 69632 < 18446744073709551616"
  shows "\<exists>k'. kernel_init L stubs fb font es k = Some k' \<and> heap_ok (k_machine k') [(False, 60)] \<and> k_idt k' = idt_assemble stubs (k_idt k)
    \<and> k_uart k' = k_uart k \<and> last (trace (k_machine k')) = Tty_printf (''F R O G E  L O A D I N G'' @ nl) []
    \<and> trace (k_machine k') \<noteq> []"
proof -
  let ?k = "kernel_init_devices stubs fb font k"
  obtain l s where f: "kernel_init_frames L es (k_machine ?k) = Some (l, s)" "same_regs (k_machine ?k) s"
    using kernel_init_frames_returns [OF assms(1,2)] by blast
  then have "same_regs (k_machine k) s" using devices_regs same_regs_trans by blast
  then obtain s' where "kernel_init_heap l s = Some s'" "heap_ok s' [(False, 60)]"
      "last (trace s') = Tty_printf (''F R O G E  L O A D I N G'' @ nl) []" "trace s' \<noteq> []"
    using kernel_init_heap_returns [of s l] assms(3-5) by (auto simp: same_regs_def)
  then show ?thesis using f(1) by (auto simp: kernel_init_def Let_def devices_idt) (simp add: kernel_init_devices_def case_prod_beta Let_def)
qed

text \<open>
  What \<open>kmain\<close> asks of the boot loader. The font is the first module whose path contains the name, and it must start with
  the two magic bytes.
\<close>

definition boot_font :: "memory \<Rightarrow> u8 list \<Rightarrow> limine_file list option \<Rightarrow> limine_file option" where
  "boot_font m ns response =
     Option.bind response (\<lambda>fs. Option.bind (find (\<lambda>f. sublist ns (path_string m f)) fs)
       (\<lambda>f. if m (address f) = 0x36 \<and> m (address f + 1) = 0x04 then Some f else None))"

definition answers_ok :: "memory \<Rightarrow> u8 list \<Rightarrow> responses \<Rightarrow> bool" where
  "answers_ok m ns rs \<longleftrightarrow> base_revision_supported rs \<and> framebuffers rs \<noteq> None \<and> framebuffers rs \<noteq> Some []
     \<and> boot_font m ns (modules rs) \<noteq> None \<and> memmap_entries rs \<noteq> None \<and> hhdm_offset rs \<noteq> None"

text \<open>\<open>k\<close> has done nothing but send text over the serial port, and maybe initialise it.\<close>

definition only_serial :: "kernel \<Rightarrow> kernel \<Rightarrow> bool" where
  "only_serial k k' \<longleftrightarrow> (\<exists>u t. u \<in> {k_uart k, init_serial (k_uart k)}
     \<and> k' = k\<lparr>k_uart := u, k_machine := (k_machine k)\<lparr>trace := trace (k_machine k) @ map Serial t\<rparr>\<rparr>)"

lemma only_serial_refl: "only_serial k k"
  unfolding only_serial_def by (intro exI [of _ "k_uart k"] exI [of _ "[]"]) simp

lemma only_serial_more:
  assumes "only_serial k k'"
  shows "only_serial k (k'\<lparr>k_machine := (k_machine k')\<lparr>trace := trace (k_machine k') @ map Serial t\<rparr>\<rparr>)"
proof -
  obtain u t' where "u \<in> {k_uart k, init_serial (k_uart k)}"
      "k' = k\<lparr>k_uart := u, k_machine := (k_machine k)\<lparr>trace := trace (k_machine k) @ map Serial t'\<rparr>\<rparr>"
    using assms by (auto simp: only_serial_def)
  then show ?thesis unfolding only_serial_def by (intro exI [of _ u] exI [of _ "t' @ t"]) auto
qed

lemma only_serial_say: "only_serial k k' \<Longrightarrow> only_serial k (k'\<lparr>k_machine := say_serial x (k_machine k')\<rparr>)"
  using only_serial_more [of k k' "[cbytes x]"] by (simp add: say_def)

lemma getFile_font:
  assumes "cstr_at (mem s) fName ns" "pred_option (list_all (path_ok (mem s))) response"
  shows "\<exists>r t. getFile s response fName = Some (r, s\<lparr>trace := trace s @ map Serial t\<rparr>)
    \<and> r = (case response of None \<Rightarrow> Halted | Some fs \<Rightarrow>
          (case find (\<lambda>f. sublist ns (path_string (mem s) f)) fs of None \<Rightarrow> No_file | Some f \<Rightarrow> File f))"
proof (cases response)
  case None
  then show ?thesis by (auto simp: getFile_def say_def intro: exI [of _ "[cbytes ''get file failed!'']"])
next
  case (Some fs)
  then show ?thesis using getFile_loop_finds [OF assms(1), of fs] assms(2) by (auto simp: getFile_def list_all_iff)
qed

text \<open>What \<open>kernel_init\<close> is given when nothing is missing.\<close>

definition boot_framebuffer :: "limine_framebuffer \<Rightarrow> FrameBuffer" where
  "boot_framebuffer f = \<lparr>base_address = lf_address f, buffer_size = lf_height f * lf_pitch f, fb_width = ucast (lf_width f),
     fb_height = ucast (lf_height f), pixels_per_scan_line = ucast (lf_pitch f div 4)\<rparr>"

definition psf1_font :: "memory \<Rightarrow> limine_file \<Rightarrow> PSF1_FONT" where
  "psf1_font m file = \<lparr>psf1_header = \<lparr>magic = (0x36, 0x04), mode = m (address file + 2), charsize = m (address file + 3)\<rparr>,
     glyph_buffer = address file + 4\<rparr>"

lemma kmain_kernel_init:
  assumes str: "cstr_at (mem (k_machine k)) fName ns" "pred_option (list_all (path_ok (mem (k_machine k)))) (modules rs)"
    and ok: "base_revision_supported rs" "framebuffers rs = Some (f # fbs)" "boot_font (mem (k_machine k)) ns (modules rs) = Some file"
      "memmap_entries rs = Some es" "hhdm_offset rs = Some off"
  shows "\<exists>t. kmain L isr_stub_table fName rs k
    = map_option (\<lambda>k'. (Done_stop, k'\<lparr>k_machine := say_serial (''kernel init complete'' @ nl) (k_machine k')\<rparr>))
        (kernel_init L isr_stub_table (boot_framebuffer f) (psf1_font (mem (k_machine k)) file) es
          (k\<lparr>k_uart := init_serial (k_uart k), k_machine := (k_machine k)\<lparr>PHYSICAL_ADDRESS_OFFSET := off,
            trace := trace (k_machine k) @ map Serial (cbytes ''Hello Coomers!'' # t)\<rparr>\<rparr>))"
proof -
  let ?s = "say_serial ''Hello Coomers!'' (k_machine k)"
  obtain fs where r: "modules rs = Some fs" "find (\<lambda>f. sublist ns (path_string (mem ?s) f)) fs = Some file"
      "mem ?s (address file) = 0x36" "mem ?s (address file + 1) = 0x04"
    using ok(3) by (auto simp: boot_font_def bind_eq_Some_conv split: if_splits)
  obtain t where g: "getFile ?s (Some fs) fName = Some (File file, ?s\<lparr>trace := trace ?s @ map Serial t\<rparr>)"
    using getFile_font [of ?s fName ns "Some fs"] str r(1,2) by auto
  have b: "Option.bind x (\<lambda>k. Some (g k)) = map_option g x" for x and g :: "'a \<Rightarrow> 'b" by (cases x) auto
  show ?thesis
    unfolding kmain_def Let_def ok(2) option.case list.case
    using ok(1) r(3,4)
    by (intro exI [of _ "t @ [cbytes (''font assigned'' @ nl), cbytes (''paging init complete '' @ nl)]"])
      (simp add: r(1) g ok(4,5) init_paging_def b boot_framebuffer_def psf1_font_def, simp add: say_def)
qed

lemma kmain_returns:
  assumes "cstr_at (mem (k_machine k)) fName ns" "pred_option (list_all (path_ok (mem (k_machine k)))) (modules rs)"
    and "answers_ok (mem (k_machine k)) ns rs" "memmap_entries rs = Some es" "1 < length es" "find large (tl (usable L es)) \<noteq> None"
    and "\<not> bit (kheap_spinlock (k_machine k)) 0" "KHEAPSTART (k_machine k) \<noteq> 0"
      "unat (KHEAPSTART (k_machine k)) + 69632 < 18446744073709551616"
  shows "\<exists>k' t. kmain L isr_stub_table fName rs k = Some (Done_stop, k') \<and> heap_ok (k_machine k') [(False, 60)]
    \<and> trace (k_machine k') = t @ [Tty_printf (''F R O G E  L O A D I N G'' @ nl) [], Serial (cbytes (''kernel init complete'' @ nl))]"
proof -
  obtain f fbs font off where "base_revision_supported rs" "framebuffers rs = Some (f # fbs)"
      "boot_font (mem (k_machine k)) ns (modules rs) = Some font" "hhdm_offset rs = Some off"
    using assms(3) by (auto simp: answers_ok_def neq_Nil_conv)
  from kmain_kernel_init [OF assms(1,2) this(1-3) assms(4) this(4), of L isr_stub_table]
  obtain fb fn k1 where k1: "kmain L isr_stub_table fName rs k = map_option
        (\<lambda>k. (Done_stop, k\<lparr>k_machine := say_serial (''kernel init complete'' @ nl) (k_machine k)\<rparr>)) (kernel_init L isr_stub_table fb fn es k1)"
      "kheap_spinlock (k_machine k1) = kheap_spinlock (k_machine k)" "KHEAPSTART (k_machine k1) = KHEAPSTART (k_machine k)"
    by fastforce
  obtain k2 where k2: "kernel_init L isr_stub_table fb fn es k1 = Some k2" "heap_ok (k_machine k2) [(False, 60)]"
      "last (trace (k_machine k2)) = Tty_printf (''F R O G E  L O A D I N G'' @ nl) []" "trace (k_machine k2) \<noteq> []"
    using kernel_init_returns [OF assms(5,6), of k1] assms(7-9) k1(2,3) by metis
  have "trace (k_machine k2) = butlast (trace (k_machine k2)) @ [Tty_printf (''F R O G E  L O A D I N G'' @ nl) []]"
    using append_butlast_last_id [OF k2(4)] k2(3) by simp
  then show ?thesis using k1(1) k2(1,2) by (auto simp: heap_ok_def)
qed

text \<open>The greeting and the search for the font: what is found, and that the serial port is all that was used.\<close>

lemma kmain_search:
  assumes "cstr_at (mem (k_machine k)) fName ns" "pred_option (list_all (path_ok (mem (k_machine k)))) (modules rs)"
  defines "k1 \<equiv> k\<lparr>k_uart := init_serial (k_uart k),
    k_machine := say_serial ''Hello Coomers!'' (k_machine (k\<lparr>k_uart := init_serial (k_uart k)\<rparr>))\<rparr>"
  obtains r s where "getFile (k_machine k1) (modules rs) fName = Some (r, s)"
    "r = (case modules rs of None \<Rightarrow> Halted | Some fs \<Rightarrow>
      (case find (\<lambda>f. sublist ns (path_string (mem (k_machine k)) f)) fs of None \<Rightarrow> No_file | Some f \<Rightarrow> File f))"
    "mem s = mem (k_machine k)" "only_serial k (k1\<lparr>k_machine := s\<rparr>)"
proof -
  have m1: "mem (k_machine k1) = mem (k_machine k)" by (simp add: k1_def)
  obtain r t where g: "getFile (k_machine k1) (modules rs) fName = Some (r, (k_machine k1)\<lparr>trace := trace (k_machine k1) @ map Serial t\<rparr>)"
      "r = (case modules rs of None \<Rightarrow> Halted | Some fs \<Rightarrow>
          (case find (\<lambda>f. sublist ns (path_string (mem (k_machine k)) f)) fs of None \<Rightarrow> No_file | Some f \<Rightarrow> File f))"
    using getFile_font [of "k_machine k1" fName ns "modules rs"] assms(1,2) unfolding m1 by blast
  have "only_serial k k1"
    unfolding only_serial_def k1_def by (intro exI [of _ "init_serial (k_uart k)"] exI [of _ "[cbytes ''Hello Coomers!'']"]) (simp add: say_def)
  from only_serial_more [OF this, of t] show ?thesis using that g m1 by simp
qed

section \<open>Properties\<close>

text \<open>An example: the name of the font at 100, the path of one module at 200, and the module at 4096.\<close>

definition font_file :: limine_file where
  "font_file = \<lparr>path = 200, address = 4096\<rparr>"

definition example_kernel :: kernel where
  "example_kernel = \<lparr>k_machine = boot_state\<lparr>mem := (two_strings ''zap-vga16.psf'' ''/boot/zap-vga16.psf'')(4096 := 0x36, 4097 := 0x04, 4099 := 16)\<rparr>,
     k_tty = small_tty,
     k_idt = empty_idt,
     k_uart = \<lparr>reads = 0, writes = []\<rparr>\<rparr>"

definition example_answers :: responses where
  "example_answers = \<lparr>base_revision_supported = True,
     framebuffers = Some [\<lparr>lf_address = 65536, lf_width = 40, lf_height = 48, lf_pitch = 160\<rparr>],
     modules = Some [font_file], memmap_entries = Some example_map, hhdm_offset = Some 0xffff800000000000\<rparr>"

lemma example_strings:
  "cstr_at (mem (k_machine example_kernel)) 100 (cbytes ''zap-vga16.psf'')"
  "cstr_at (mem (k_machine example_kernel)) 200 (cbytes ''/boot/zap-vga16.psf'')"
  by (simp_all add: example_kernel_def two_strings_def write_bytes_def cbytes_def)

lemma example_path: "path_string (mem (k_machine example_kernel)) font_file = cbytes ''/boot/'' @ cbytes ''zap-vga16.psf''"
  using read_cstr_reads [OF example_strings(2)] by (simp add: path_string_def font_file_def cbytes_def)

lemma example_path_ok: "path_ok (mem (k_machine example_kernel)) font_file"
proof -
  have e: "cbytes ''/boot/'' @ cbytes ''zap-vga16.psf'' = cbytes ''/boot/zap-vga16.psf''" by (simp add: cbytes_def)
  have l: "length (cbytes ''/boot/zap-vga16.psf'') = 19" by (simp add: cbytes_def)
  show ?thesis
    unfolding path_ok_def example_path e l using example_strings(2) by (simp add: font_file_def)
qed

lemma example_font:
  "boot_font (mem (k_machine example_kernel)) (cbytes ''zap-vga16.psf'') (modules example_answers) = Some font_file"
  by (simp add: example_answers_def boot_font_def example_path) (simp add: font_file_def example_kernel_def)

lemma example_ok: "answers_ok (mem (k_machine example_kernel)) (cbytes ''zap-vga16.psf'') example_answers"
  using example_font by (simp add: answers_ok_def) (simp add: example_answers_def)

lemma example_hyps:
  "pred_option (list_all (path_ok (mem (k_machine example_kernel)))) (modules example_answers)"
  "memmap_entries example_answers = Some example_map" "1 < length example_map" "find large (tl (usable zero_extending example_map)) \<noteq> None"
  "\<not> bit (kheap_spinlock (k_machine example_kernel)) 0" "KHEAPSTART (k_machine example_kernel) \<noteq> 0"
  "unat (KHEAPSTART (k_machine example_kernel)) + 69632 < 18446744073709551616"
  using example_path_ok
  by (simp_all add: example_answers_def example_map_def usable_def zero_extending_def large_def example_kernel_def boot_state_def)

lemmas example_boots = kmain_returns [OF example_strings(1) example_hyps(1) example_ok example_hyps(2-7), of spaced_stubs]

text \<open>C18. When one of these answers is missing or wrong, \<open>kmain\<close> stops in \<open>hcf\<close>, whatever the others are: it never runs on into the
  initialisation, and by then it has done nothing but initialise the serial port and send text to it. Memory, the descriptor table and
  the screen are as they were.\<close>
theorem kmain_halts_on_error:
  assumes "cstr_at (mem (k_machine k)) fName ns" "pred_option (list_all (path_ok (mem (k_machine k)))) (modules rs)"
    and "\<not> answers_ok (mem (k_machine k)) ns rs"
  shows "\<exists>k'. kmain L isr_stub_table fName rs k = Some (Error_stop, k') \<and> only_serial k k'"
proof (cases "base_revision_supported rs \<and> framebuffers rs \<noteq> None \<and> framebuffers rs \<noteq> Some []")
  case False
  then show ?thesis using only_serial_refl [of k] by (auto simp: kmain_def neq_Nil_conv split: option.split list.split)
next
  case True
  then obtain f fbs where fb: "framebuffers rs = Some (f # fbs)" by (auto simp: neq_Nil_conv)
  define k1 where "k1 = k\<lparr>k_uart := init_serial (k_uart k),
    k_machine := say_serial ''Hello Coomers!'' (k_machine (k\<lparr>k_uart := init_serial (k_uart k)\<rparr>))\<rparr>"
  obtain r s where g: "getFile (k_machine k1) (modules rs) fName = Some (r, s)"
      and r: "r = (case modules rs of None \<Rightarrow> Halted | Some fs \<Rightarrow>
          (case find (\<lambda>f. sublist ns (path_string (mem (k_machine k)) f)) fs of None \<Rightarrow> No_file | Some f \<Rightarrow> File f))"
      and m: "mem s = mem (k_machine k)" and os: "only_serial k (k1\<lparr>k_machine := s\<rparr>)"
    by (rule kmain_search [OF assms(1,2), folded k1_def])
  define k2 where "k2 = k1\<lparr>k_machine := s\<rparr>"
  have k2: "only_serial k k2" using os by (simp add: k2_def)
  have msg: "only_serial k (k2\<lparr>k_machine := say_serial y (say_serial x s)\<rparr>)" for x y
    using only_serial_say [OF only_serial_say [OF k2, of x], of y] by (simp add: k2_def)
  have kmain: "kmain L isr_stub_table fName rs k = Some (Error_stop, k2)" if "boot_font (mem (k_machine k)) ns (modules rs) = None"
  proof -
    have "r = Halted \<or> r = No_file \<or> (\<exists>f. r = File f \<and> (mem s (address f) \<noteq> 0x36 \<or> mem s (address f + 1) \<noteq> 0x04))"
      using that by (auto simp: r m boot_font_def split: option.splits if_splits)
    then show ?thesis
      using True unfolding kmain_def Let_def fb option.case list.case k1_def [symmetric]
      by (auto simp: g k2_def [symmetric])
  qed
  show ?thesis
  proof (cases "boot_font (mem (k_machine k)) ns (modules rs)")
    case None
    then show ?thesis using kmain k2 by blast
  next
    case (Some font)
    then have "r = File font" "mem s (address font) = 0x36" "mem s (address font + 1) = 0x04"
      by (auto simp: r m boot_font_def bind_eq_Some_conv split: if_splits)
    moreover have "memmap_entries rs = None \<or> hhdm_offset rs = None" using True assms(3) Some by (auto simp: answers_ok_def)
    ultimately show ?thesis
      using True msg unfolding kmain_def Let_def fb option.case list.case k1_def [symmetric]
      by (auto simp: g k2_def [symmetric] split: option.split)
  qed
qed

theorem kmain_halts_on_error_witness:
  "\<exists>k'. kmain zero_extending spaced_stubs 100 (example_answers\<lparr>hhdm_offset := None\<rparr>) example_kernel = Some (Error_stop, k')
    \<and> only_serial example_kernel k'"
proof -
  have f: "pred_option (list_all (path_ok (mem (k_machine example_kernel)))) (modules (example_answers\<lparr>hhdm_offset := None\<rparr>))"
    using example_path_ok by (simp add: example_answers_def)
  have "\<not> answers_ok (mem (k_machine example_kernel)) (cbytes ''zap-vga16.psf'') (example_answers\<lparr>hhdm_offset := None\<rparr>)"
    by (simp add: answers_ok_def)
  from kmain_halts_on_error [OF example_strings(1) f this, of zero_extending spaced_stubs] show ?thesis by blast
qed

end
