(* ===== verification/Output.thy ===== *)
theory Output
  imports Boot Printf
begin

text \<open>
  The formatted output of the whole kernel. The memory management and the start-up code call \<open>printf\<close>, \<open>println\<close> and
  \<open>serial_printf\<close>, whose format and arguments are entries of the trace, and \<open>Printf\<close> says what they do with them: an argument that is
  missing or of the wrong kind is undefined, and so is a text of 1024 bytes or more. Here every call that is reached
  from \<open>kmain\<close> is shown to be sound. \<open>transmit\<close> sends the text of a trace through the driver of the serial port, waiting for the
  device as the driver does.
\<close>

section \<open>Sound calls\<close>

definition format_fits :: "string \<Rightarrow> va list \<Rightarrow> bool" where
  "format_fits fmt vs \<longleftrightarrow> (case format_text (cbytes fmt) vs of None \<Rightarrow> False | Some out \<Rightarrow> length out < 1024)"

fun io_fits :: "io \<Rightarrow> bool" where
  "io_fits (Serial_printf fmt vs) = format_fits fmt vs"
| "io_fits (Tty_printf fmt vs) = format_fits fmt vs"
| "io_fits (Tty_println fmt vs) = format_fits fmt vs"
| "io_fits (Serial xs) = True"
| "io_fits (Tty_print xs) = True"
| "io_fits Tty_break = True"

text \<open>\<open>prints s s'\<close>: between the two states nothing but sound output was made.\<close>

definition prints :: "machine \<Rightarrow> machine \<Rightarrow> bool" where
  "prints s s' \<longleftrightarrow> (\<exists>t. trace s' = trace s @ t \<and> list_all io_fits t)"

lemma prints_refl [simp]: "prints s s"
  by (simp add: prints_def)

lemma prints_trans: "prints s s' \<Longrightarrow> prints s' s'' \<Longrightarrow> prints s s''"
  by (fastforce simp: prints_def)

lemma prints_say [simp]: "io_fits e \<Longrightarrow> prints s s' \<Longrightarrow> prints s (say e s')"
  by (fastforce simp: prints_def)

lemma prints_fields [simp]:
  "prints s (s'\<lparr>mem := m\<rparr>) = prints s s'" "prints s (s'\<lparr>K_HEAP_END := a\<rparr>) = prints s s'"
  "prints s (s'\<lparr>kheap_spinlock := w\<rparr>) = prints s s'" "prints s (s'\<lparr>vmm_frameAlloc := a\<rparr>) = prints s s'"
  "prints (s\<lparr>mem := m\<rparr>) s' = prints s s'" "prints (s\<lparr>PHYSICAL_ADDRESS_OFFSET := a\<rparr>) s' = prints s s'"
  "prints s (s'\<lparr>PHYSICAL_ADDRESS_OFFSET := a\<rparr>) = prints s s'"
  by (simp_all add: prints_def)

section \<open>The serial line\<close>

text \<open>
  A call that is an entry of the trace returns only when the serial port has taken its text, byte by byte, each after polling.
  Nothing else uses the port, so the calls of a trace can be run on the device one after the other: \<open>transmit\<close> is the port after
  them, and \<open>None\<close> a call that never returns.
\<close>

fun serial_text :: "io \<Rightarrow> u8 list option" where
  "serial_text (Serial xs) = Some xs"
| "serial_text (Serial_printf fmt vs) = format_text (cbytes fmt) vs"
| "serial_text e = Some []"

primrec transmit :: "port_device \<Rightarrow> uart \<Rightarrow> io list \<Rightarrow> uart option" where
  "transmit dev u [] = Some u"
| "transmit dev u (e # t) = do {
     cs \<leftarrow> serial_text e;
     u \<leftarrow> send_bytes dev u cs;
     transmit dev u t
   }"

lemma io_text: "io_fits e \<Longrightarrow> \<exists>cs. serial_text e = Some cs"
  by (cases e) (auto simp: format_fits_def split: option.splits)

lemma transmit_responsive:
  assumes "responsive dev" "list_all io_fits t"
  shows "\<exists>k. transmit dev u t = Some (u\<lparr>reads := k, writes := writes u @ map (Pair PORT) (concat (map (the \<circ> serial_text) t))\<rparr>)"
  using assms(2)
proof (induction t arbitrary: u)
  case Nil
  then show ?case by (auto intro: exI [of _ "reads u"])
next
  case (Cons e t)
  obtain cs where cs: "serial_text e = Some cs" using Cons.prems io_text by auto
  obtain k where "send_bytes dev u cs = Some (u\<lparr>reads := k, writes := writes u @ map (Pair PORT) cs\<rparr>)"
    using send_responsive [OF assms(1)] by blast
  then show ?case using Cons.IH [of "u\<lparr>reads := k, writes := writes u @ map (Pair PORT) cs\<rparr>"] Cons.prems cs by auto
qed

lemma transmit_unresponsive:
  assumes "unresponsive dev" "e \<in> set t" "serial_text e \<noteq> Some []"
  shows "transmit dev u t = None"
  using assms(2)
proof (induction t arbitrary: u)
  case (Cons d t)
  show ?case
  proof (cases "serial_text d = Some []")
    case True
    then show ?thesis using Cons assms(3) by auto
  next
    case False
    then show ?thesis using send_unresponsive [OF assms(1)] by (cases "serial_text d") (simp_all del: send_bytes.simps)
  qed
qed simp

section \<open>The formats of the kernel\<close>

lemma render_length: "2 \<le> b \<Longrightarrow> n < 18446744073709551616 \<Longrightarrow> length (render b n) \<le> 64"
  using digits_fit [of b "of_nat n"] by (simp add: unat_of_nat_64)

lemma signed_text_length: "2 \<le> b \<Longrightarrow> \<bar>v\<bar> < 18446744073709551616 \<Longrightarrow> length (signed_text b v) \<le> 65"
proof -
  assume a: "2 \<le> b" "\<bar>v\<bar> < 18446744073709551616"
  then have "nat (- v) < 18446744073709551616" "nat v < 18446744073709551616" by linarith+
  then show ?thesis using render_length [OF a(1), of "nat (- v)"] render_length [OF a(1), of "nat v"] by (simp add: signed_text_def)
qed

lemma number_text_length:
  assumes "conv_base c = 10 \<or> conv_base c = 16"
  shows "length (number_text c v) \<le> 67"
proof -
  have b: "2 \<le> nat (conv_base c)" using assms by auto
  have w: "unat v < 18446744073709551616" "unat (ucast v :: u32) < 18446744073709551616"
    using unat_lt_64 [of v] unsigned_less [where ?'a = nat, of "ucast v :: u32"] by simp_all
  have i: "\<bar>sint v\<bar> < 18446744073709551616" "\<bar>sint (ucast v :: u32)\<bar> < 18446744073709551616"
    using sint_range_size [of v] sint_range_size [of "ucast v :: u32"] by (simp_all add: word_size abs_less_iff)
  show ?thesis
    using signed_text_length [OF b i(1)] signed_text_length [OF b i(2)] render_length [OF b w(1)] render_length [OF b w(2)]
      render_length [of 16, OF _ w(1)] by (auto simp: number_text_def Let_def cbytes_def)
qed

lemma number_length_less:
  assumes c: "conv_base c = 10 \<or> conv_base c = 16" and n: "134 < n"
  shows "length (number_text c v) < n" "length (number_text c v) + length (number_text c w) < n"
  using number_text_length [OF c, of v] number_text_length [OF c, of w] n by simp_all

text \<open>A format without a conversion stands for itself.\<close>

lemma format_plain: "of_char (CHR ''%'') \<notin> set xs \<Longrightarrow> format_text xs vs = Some xs"
  by (induction xs) (auto simp: format_text.simps)

lemma byte_eq_iff: "(of_char x :: u8) = of_char y \<longleftrightarrow> x = y"
proof -
  have u: "unat (of_char z :: u8) = of_char z" for z
    unfolding of_nat_of_char [symmetric, where ?'a = "8 word"] by (simp add: unsigned_of_nat take_bit_nat_eq_self)
  show ?thesis using u [of x] u [of y] by (metis of_char_eq_iff)
qed

lemma format_fits_plain [simp]: "CHR ''%'' \<notin> set fmt \<Longrightarrow> length fmt < 1024 \<Longrightarrow> format_fits fmt vs"
proof -
  assume a: "CHR ''%'' \<notin> set fmt" "length fmt < 1024"
  have "of_char (CHR ''%'') \<notin> set (cbytes fmt)"
    using a(1) byte_eq_iff by (fastforce simp: cbytes_def simp del: of_char_Char)
  then show ?thesis using format_plain [of "cbytes fmt" vs] a(2) by (simp add: format_fits_def cbytes_def)
qed

lemmas format_eval = format_fits_def cbytes_def format_text.simps is_conversion_def conv_init_def printable_def number_length_less

lemma formats_number:
  "format_fits ''heap start %p, heap end: %p'' [Va_int a, Va_int b]"
  "format_fits (''Heap end region: %ulh '' @ [CHR 0x0A]) [Va_int a]" "format_fits ''ptr: %ulh'' [Va_int a]"
  "format_fits ''Region start %ulh'' [Va_int a]" "format_fits ''Error: Couldn't Unmap page at address %ulh'' [Va_int a]"
  "format_fits ('' '' @ [CHR 0x0A] @ ''Largest bucket free pebble size %ul '' @ [CHR 0x0A]) [Va_int a]"
  "format_fits ('' '' @ nl @ ''malloced address %p '' @ nl) [Va_int a]" "format_fits ''Number = %ul'' [Va_int a]"
  by (simp_all add: format_eval)

lemmas formats_fit [simp] = formats_number [unfolded append.simps]

section \<open>Operations\<close>

interpretation out: memory_blind prints io_fits
  by unfold_locales (auto intro: prints_trans)

lemma alloc_page_prints: "prints s s' \<Longrightarrow> prints s (snd (alloc_page s' a))"
  using prints_trans out.page [of s' a] by simp

lemma init_heap_prints: "prints s (init_heap s)"
  by (simp add: init_heap_def Let_def)

lemma init_vmm_prints: "prints s s' \<Longrightarrow> prints s (init_vmm s' l)"
  by (simp add: init_vmm_def case_prod_beta Let_def alloc_page_prints)

lemma grow_heap_prints: "grow_heap s sz = Some (a, s') \<Longrightarrow> prints s s'"
  by (auto simp: grow_heap_def Let_def split: option.splits)

lemma mmap_loop_prints: "mmap_loop s a b = Some s' \<Longrightarrow> prints s s'"
proof (rule mmap_loop.raw_induct [where P = "\<lambda>s a b s'. prints s s'"])
  fix loop s a b s'
  assume "\<And>s a b s'. loop s a b = Some s' \<Longrightarrow> prints s s'"
    and "(if a < b then loop (snd (alloc_page s a)) (a + 0x1000) b else Some s) = Some s'"
  then show "prints s s'"
    using prints_trans [OF alloc_page_prints [OF prints_refl]] by (metis option.inject prints_refl)
qed

lemma mmap_prints: "mmap s sz = Some (a, s') \<Longrightarrow> prints s s'"
proof -
  assume "mmap s sz = Some (a, s')"
  then obtain r s1 where g: "grow_heap s sz = Some (r, s1)" and
    "s' = say (Serial_printf (''Err: Heap region start is NULL '' @ [CHR 0x0A]) []) s1
      \<or> mmap_loop (say (Tty_printf ''Region start %ulh'' [Va_int r]) s1) r (r + sz) = Some s'"
    by (auto simp: mmap_def split: option.splits if_splits)
  then have "prints s1 s'"
    using mmap_loop_prints prints_trans [of s1 "say (Tty_printf ''Region start %ulh'' [Va_int r]) s1" s'] by auto
  then show ?thesis using grow_heap_prints [OF g] prints_trans by blast
qed

lemma munmap_page_prints: "prints s (munmap_page s a)"
  by (simp add: munmap_page_def unmap_page_def case_prod_beta Let_def)

lemma munmap_loop_prints: "munmap_loop s a b = Some s' \<Longrightarrow> prints s s'"
proof (rule munmap_loop.raw_induct [where P = "\<lambda>s a b s'. prints s s'"])
  fix loop s a b s'
  assume "\<And>s a b s'. loop s a b = Some s' \<Longrightarrow> prints s s'"
    and "(if a < b then loop (munmap_page s a) (a + 0x1000) b else Some s) = Some s'"
  then show "prints s s'"
    using prints_trans [OF munmap_page_prints] by (metis option.inject prints_refl)
qed

text \<open>The allocator: its steps on memory print nothing, and its steps on the state are \<open>mmap\<close> and \<open>munmap\<close>.\<close>

lemma create_bucket_prints: "create_bucket s sz f = Some (b, s') \<Longrightarrow> prints s s'"
  using mmap_prints by (auto simp: create_bucket_def Let_def bind_eq_Some_conv split: if_splits)

lemma kmalloc_init_prints: "kmalloc_init s sz = Some (b, s') \<Longrightarrow> prints s s'"
  unfolding kmalloc_init_def using create_bucket_prints prints_trans [of s "say (Serial_printf ([CHR 0x0A] @ '' kmalloc init start.'') []) s"]
  by fastforce

lemma kmalloc_prints:
  assumes "kmalloc s sz = Some (a, s')"
  shows "prints s s'"
proof -
  define s1 where "s1 = say (Serial_printf ('' '' @ [CHR 0x0A] @ ''Largest bucket free pebble size %ul '' @ [CHR 0x0A])
    [Va_int (load64 (mem s) (b_largest_free (KHEAPSTART s)))]) s"
  have s1: "prints s s1" by (simp add: s1_def)
  show ?thesis
    using assms create_bucket_prints [of "s1\<lparr>mem := m\<rparr>" for m] prints_trans [OF s1]
    unfolding kmalloc_def Let_def s1_def [symmetric]
    by (auto simp: bind_eq_Some_conv s1 split: if_splits)
qed

lemma remove_bucket_prints: "remove_bucket s b = Some s' \<Longrightarrow> prints s s'"
  by (auto simp: remove_bucket_def munmap_def Let_def split: if_splits dest!: munmap_loop_prints)

lemma kfree_prints: "kfree s a = Some s' \<Longrightarrow> prints s s'"
  by (auto simp: kfree_def Let_def bind_eq_Some_conv split: if_splits dest!: remove_bucket_prints)

text \<open>Start-up.\<close>

lemma print_memmap_prints: "prints s s' \<Longrightarrow> prints s (print_memmap_entry L e i s')"
  by (simp add: print_memmap_entry_def Let_def)

lemma read_loop_prints: "prints s s' \<Longrightarrow> prints s (snd (read_loop L i es v s'))"
  by (induction es arbitrary: i v s') (auto simp: Let_def case_prod_beta print_memmap_prints)

lemma read_memory_map_prints: "prints s (snd (read_memory_map L es s))"
  by (simp add: read_memory_map_def Let_def case_prod_beta read_loop_prints)

lemma devices_prints: "prints (k_machine k) (k_machine (kernel_init_devices stubs fb font k))"
  by (simp add: kernel_init_devices_def tty_clear_def case_prod_beta Let_def)

lemma kernel_init_frames_prints:
  assumes "kernel_init_frames L es s = Some (l, s')"
  shows "prints s s'"
proof -
  obtain x s1 where x: "read_memory_map L es s = (x, s1)" by fastforce
  then obtain e where r: "read_memory_map L es s = (Some e, s1)"
    using assms by (cases x) (simp_all add: kernel_init_frames_def split: if_splits)
  then have s1: "prints s s1" using read_memory_map_prints [of s L es] by simp
  have m: "prints s (snd (map_to_page s3 a f l 0))" if "prints s s3" for s3 a f l
    using prints_trans [OF that] out.mapping by blast
  have i: "prints s (snd (init_frame_list s1 a e))" for a
    using s1 by (simp add: init_frame_list_def Let_def)
  show ?thesis
    using assms unfolding kernel_init_frames_def r Let_def prod.case option.case case_prod_beta
    by (auto simp: m i split: if_splits)
qed

lemma printed_before: "prints (say e s) t \<Longrightarrow> io_fits e \<Longrightarrow> prints s t"
  using prints_trans [of s "say e s" t] by simp

lemma kernel_init_heap_prints:
  assumes "kernel_init_heap l s = Some s'"
  shows "prints s s'"
proof -
  obtain t u y where p: "prints (init_vmm (say (Tty_println ''Init heap.'' []) (init_heap s)) l) t" "prints t u" "prints u y"
      "s' = say (Tty_printf (''F R O G E  L O A D I N G'' @ nl) []) (say Tty_break y)"
    using assms
    by (auto simp: kernel_init_heap_def Let_def bind_eq_Some_conv
        dest!: kmalloc_init_prints kmalloc_prints kfree_prints printed_before)
  have "prints s (init_vmm (say (Tty_println ''Init heap.'' []) (init_heap s)) l)"
    by (simp add: init_vmm_prints init_heap_prints)
  then have "prints s y" using p(1-3) prints_trans by blast
  then show ?thesis by (simp add: p(4))
qed

lemma kernel_init_prints: "kernel_init L stubs fb font es k = Some k' \<Longrightarrow> prints (k_machine k) (k_machine k')"
  using devices_prints [of k stubs fb font] prints_trans kernel_init_frames_prints kernel_init_heap_prints
  by (auto simp: kernel_init_def Let_def bind_eq_Some_conv) blast

lemma getFile_prints: "getFile s fs name = Some (r, s') \<Longrightarrow> prints s s'"
  using getFile_trace by (fastforce simp: prints_def list_all_iff)

lemma kmain_prints:
  assumes "kmain L isr_stub_table fName rs k = Some (r, k')"
  shows "prints (k_machine k) (k_machine k')"
proof (cases "base_revision_supported rs \<and> framebuffers rs \<noteq> None \<and> framebuffers rs \<noteq> Some []")
  case False
  then show ?thesis using assms by (auto simp: kmain_def split: option.splits list.splits if_splits)
next
  case True
  define k1 where "k1 = k\<lparr>k_uart := init_serial (k_uart k),
    k_machine := say_serial ''Hello Coomers!'' (k_machine (k\<lparr>k_uart := init_serial (k_uart k)\<rparr>))\<rparr>"
  obtain f s where g: "getFile (k_machine k1) (modules rs) fName = Some (f, s)"
    using True assms unfolding kmain_def Let_def k1_def [symmetric]
    by (auto simp: bind_eq_Some_conv split: option.splits list.splits)
  then have s: "prints (k_machine k) s" using getFile_prints [OF g] by (auto simp: k1_def dest: printed_before)
  show ?thesis
    using True assms s unfolding kmain_def Let_def k1_def [symmetric]
    by (auto simp: g bind_eq_Some_conv init_paging_def split: option.splits list.splits found.splits if_splits
        dest!: kernel_init_prints printed_before intro!: prints_say) (blast intro: prints_trans)
qed

section \<open>Property\<close>

text \<open>C17. With the answers the kernel asks for (a supported revision, a frame buffer, a memory map, an offset, and a module whose path
  contains the name of the font and that starts with its magic bytes), \<open>kmain\<close> hands over to \<open>kernel_init\<close>: with the first frame buffer,
  the first such module as the font, the memory map and the offset, on a machine in which it has initialised the port and sent
  messages and changed nothing else; when \<open>kernel_init\<close> returns, one more message follows and the work is done. On a port that keeps getting
  ready while it is polled the messages before the hand-over are sent, each byte once and in order; on one that never is, the
  very first message never ends, and \<open>kernel_init\<close> is not reached.\<close>
theorem kmain_hands_over:
  assumes "cstr_at (mem (k_machine k)) fName ns" "pred_option (list_all (path_ok (mem (k_machine k)))) (modules rs)"
    and "base_revision_supported rs" "framebuffers rs = Some (f # fbs)" "boot_font (mem (k_machine k)) ns (modules rs) = Some file"
      "memmap_entries rs = Some es" "hhdm_offset rs = Some off"
  shows "\<exists>t. kmain L isr_stub_table fName rs k
      = map_option (\<lambda>k'. (Done_stop, k'\<lparr>k_machine := say_serial (''kernel init complete'' @ nl) (k_machine k')\<rparr>))
          (kernel_init L isr_stub_table (boot_framebuffer f) (psf1_font (mem (k_machine k)) file) es
            (k\<lparr>k_uart := init_serial (k_uart k), k_machine := (k_machine k)\<lparr>PHYSICAL_ADDRESS_OFFSET := off,
              trace := trace (k_machine k) @ map Serial (cbytes ''Hello Coomers!'' # t)\<rparr>\<rparr>))
    \<and> (responsive dev \<longrightarrow> (\<exists>u. transmit dev (init_serial (k_uart k)) (map Serial (cbytes ''Hello Coomers!'' # t)) = Some u
        \<and> writes u = writes (init_serial (k_uart k)) @ map (Pair PORT) (cbytes ''Hello Coomers!'' @ concat t)))
    \<and> (unresponsive dev \<longrightarrow> transmit dev (init_serial (k_uart k)) (map Serial (cbytes ''Hello Coomers!'' # t)) = None)"
proof -
  have "list_all io_fits (map Serial ts)" "concat (map (the \<circ> serial_text) (map Serial ts)) = concat ts" for ts
    by (induction ts) simp_all
  then have sent: "\<exists>u. transmit dev v (map Serial (c # ts)) = Some u \<and> writes u = writes v @ map (Pair PORT) (c @ concat ts)"
    if "responsive dev" for v c ts
    using transmit_responsive [OF that, of "map Serial (c # ts)" v] by (fastforce simp del: list.map)
  have stuck: "transmit dev v (map Serial (cbytes ''Hello Coomers!'' # ts)) = None" if "unresponsive dev" for v ts
    by (rule transmit_unresponsive [OF that, of "Serial (cbytes ''Hello Coomers!'')"]) (simp_all add: cbytes_def)
  obtain t where "kmain L isr_stub_table fName rs k
      = map_option (\<lambda>k'. (Done_stop, k'\<lparr>k_machine := say_serial (''kernel init complete'' @ nl) (k_machine k')\<rparr>))
          (kernel_init L isr_stub_table (boot_framebuffer f) (psf1_font (mem (k_machine k)) file) es
            (k\<lparr>k_uart := init_serial (k_uart k), k_machine := (k_machine k)\<lparr>PHYSICAL_ADDRESS_OFFSET := off,
              trace := trace (k_machine k) @ map Serial (cbytes ''Hello Coomers!'' # t)\<rparr>\<rparr>))"
    using kmain_kernel_init [OF assms, of L isr_stub_table] by blast
  then show ?thesis using sent stuck by blast
qed

theorem kmain_hands_over_witness:
  "\<exists>t font. kmain zero_extending spaced_stubs 100 example_answers example_kernel
      = map_option (\<lambda>k'. (Done_stop, k'\<lparr>k_machine := say_serial (''kernel init complete'' @ nl) (k_machine k')\<rparr>))
          (kernel_init zero_extending spaced_stubs (boot_framebuffer \<lparr>lf_address = 65536, lf_width = 40, lf_height = 48, lf_pitch = 160\<rparr>)
            font example_map (example_kernel\<lparr>k_uart := init_serial (k_uart example_kernel),
              k_machine := (k_machine example_kernel)\<lparr>PHYSICAL_ADDRESS_OFFSET := 0xffff800000000000, trace := map Serial t\<rparr>\<rparr>))
    \<and> charsize (psf1_header font) = 16 \<and> transmit (\<lambda>s p. 0x60) (init_serial (k_uart example_kernel)) (map Serial t) = None"
proof -
  have a: "base_revision_supported example_answers" "hhdm_offset example_answers = Some 0xffff800000000000"
      "framebuffers example_answers = Some [\<lparr>lf_address = 65536, lf_width = 40, lf_height = 48, lf_pitch = 160\<rparr>]"
    by (simp_all add: example_answers_def)
  have c: "charsize (psf1_header (psf1_font (mem (k_machine example_kernel)) font_file)) = 16"
    by (simp add: psf1_font_def font_file_def example_kernel_def)
  have dev: "unresponsive (\<lambda>s p. 0x60)" by (simp add: unresponsive_def)
  note k = kmain_hands_over [OF example_strings(1) example_hyps(1) a(1,3) example_font example_hyps(2) a(2),
      where L = zero_extending and isr_stub_table = spaced_stubs and dev = "\<lambda>s p. 0x60"]
  have "trace (k_machine example_kernel) = []" by (simp add: example_kernel_def boot_state_def)
  from k [unfolded this append_Nil] show ?thesis using c dev by blast
qed

text \<open>The example of \<open>Boot\<close> prints a banner last; here is a machine with that format at 100.\<close>

definition banner :: string where
  "banner = ''F R O G E  L O A D I N G'' @ nl"

definition banner_machine :: machine where
  "banner_machine = print_example\<lparr>mem := two_strings banner []\<rparr>"

text \<open>C16. Every formatted output the kernel makes from \<open>kmain\<close> on, through paging, the heap and its allocator, is sound: whenever one of
  the three routines is called with a format and arguments, the C routine, given that format as a string and these arguments in memory outside
  of its buffer, returns, puts out exactly the text the format stands for, and writes nothing but its own buffer. No conversion is
  without its argument and no text overruns the buffer.\<close>
theorem kmain_output_sound:
  assumes "kmain L isr_stub_table fName rs k = Some (r, k')" "trace (k_machine k') = trace (k_machine k) @ t"
    and "Tty_printf fmt vs \<in> set t \<or> Tty_println fmt vs \<in> set t \<or> Serial_printf fmt vs \<in> set t"
    and "cstr_in (beyond buf 1024) (mem s) p (cbytes fmt)" "list_all2 (holds (beyond buf 1024) (mem s)) vs args"
  shows "\<exists>out m. format_text (cbytes fmt) vs = Some out \<and> length out < 1024
    \<and> printf s buf p args = Some (say (Tty_print out) (s\<lparr>mem := m\<rparr>))
    \<and> println s buf p args = Some (say Tty_break (say (Tty_print out) (s\<lparr>mem := m\<rparr>)))
    \<and> serial_printf s buf p args = Some (say (Serial out) (s\<lparr>mem := m\<rparr>))
    \<and> (\<forall>x\<in>beyond buf 1024. m x = mem s x)"
proof -
  have "list_all io_fits t" using kmain_prints [OF assms(1)] assms(2) by (simp add: prints_def)
  then have "format_fits fmt vs" using assms(3) by (auto simp: list_all_iff)
  then obtain out where out: "format_text (cbytes fmt) vs = Some out" "length out < 1024"
    by (auto simp: format_fits_def split: option.splits)
  moreover have "write_bytes (filled (mem s) buf 0 1024) buf out x = mem s x" if "x \<in> beyond buf 1024" for x
    using that out(2) by (auto simp: beyond_def write_bytes_def filled_def)
  ultimately show ?thesis
    using print_buffer_text [OF out assms(4,5)] by (auto simp: printf_def serial_printf_def println_def)
qed

theorem kmain_output_sound_witness:
  "\<exists>m. printf banner_machine 0x7000 100 [] = Some (say (Tty_print (cbytes banner)) (banner_machine\<lparr>mem := m\<rparr>))"
proof -
  obtain k' t where k: "kmain zero_extending spaced_stubs 100 example_answers example_kernel = Some (Done_stop, k')"
      "trace (k_machine k') = t @ [Tty_printf banner [], Serial (cbytes (''kernel init complete'' @ nl))]"
    using example_boots unfolding banner_def by blast
  have "trace (k_machine example_kernel) = []" by (simp add: example_kernel_def boot_state_def)
  then have tr: "trace (k_machine k') = trace (k_machine example_kernel) @ trace (k_machine k')" by simp
  have "cstr_in (beyond 0x7000 1024) (mem banner_machine) 100 (cbytes banner)"
    by (simp add: banner_machine_def print_example_def two_strings_def banner_def write_bytes_def cbytes_def beyond_def)
  moreover have "format_text (cbytes banner) [] = Some (cbytes banner)" by (rule format_plain) (simp add: banner_def cbytes_def)
  ultimately show ?thesis
    using kmain_output_sound [OF k(1) tr, of banner "[]" "0x7000" banner_machine 100 "[]"] k(2) by auto
qed

end
