(* ===== verification/Backing.thy ===== *)
theory Backing
  imports Output Heaprun
begin

text \<open>
  Page faults. The definitions of the other theories read and write memory at any address; on the processor an access to a page without a
  translation is a fault. An operation \<^emph>\<open>touches\<close> a byte if its course depends on that byte or it writes it: if changing the byte before the
  operation is not the same as changing it afterwards. Here the bytes touched by the heap operations are compared with the
  pages that the memory manager has mapped by then.
\<close>

section \<open>Bytes that an operation touches\<close>

definition poke :: "u64 \<Rightarrow> u8 \<Rightarrow> machine \<Rightarrow> machine" where
  "poke x v s = s\<lparr>mem := (mem s)(x := v)\<rparr>"

definition touches :: "(machine \<Rightarrow> ('a \<times> machine) option) \<Rightarrow> machine \<Rightarrow> u64 \<Rightarrow> bool" where
  "touches f s x \<longleftrightarrow> (\<exists>v. f (poke x v s) \<noteq> map_option (apsnd (poke x v)) (f s))"

lemma poke_fields [simp]:
  "mem (poke x v s) = (mem s)(x := v)" "cr3 (poke x v s) = cr3 s" "PHYSICAL_ADDRESS_OFFSET (poke x v s) = PHYSICAL_ADDRESS_OFFSET s"
  "KHEAPSTART (poke x v s) = KHEAPSTART s" "K_HEAP_END (poke x v s) = K_HEAP_END s" "kheap_spinlock (poke x v s) = kheap_spinlock s"
  "vmm_frameAlloc (poke x v s) = vmm_frameAlloc s" "trace (poke x v s) = trace s"
  by (simp_all add: poke_def)

lemma poke_say: "say e (poke x v s) = poke x v (say e s)"
  by (simp add: say_def poke_def)

text \<open>Cells away from the byte.\<close>

lemma far_cells:
  assumes "\<not> unat (x - a) < 8"
  shows "load64 (m(x := v)) a = load64 m a" "store64 (m(x := v)) a w = (store64 m a w)(x := v)"
  using assms by (auto simp: store64_def store_def fun_eq_iff intro: c64.get_local)

lemma far_cells_32:
  assumes "\<not> unat (x - a) < 4"
  shows "load32 (m(x := v)) a = load32 m a" "store32 (m(x := v)) a u = (store32 m a u)(x := v)"
  using assms by (auto simp: store32_def store_def fun_eq_iff intro: c32.get_local)

lemma far_filled: "\<not> unat (x - a) < n \<Longrightarrow> filled (m(x := v)) a c n = (filled m a c n)(x := v)"
  by (auto simp: filled_def fun_eq_iff)

lemma far_sub:
  fixes x a i :: u64
  assumes "\<not> unat (x - a) < n" "unat i + k \<le> n" "n < 18446744073709551616"
  shows "\<not> unat (x - (a + i)) < k"
  using assms inside_from [of x a i k n] by blast

section \<open>Requests and mapped pages\<close>

text \<open>Whatever the state is, \<open>kmalloc\<close> clears all that it hands out, so it touches each of these bytes.\<close>

lemma kmalloc_clears:
  assumes "kmalloc s sz = Some (p, s')" "p \<noteq> 0" "unat (x - p) < unat (if sz < 64 then 64 else sz)"
  shows "mem s' x = 0"
  using assms unfolding kmalloc_def Let_def PEBBLE_MIN_SIZE_def
  by (auto simp: bind_eq_Some_conv memset_filled filled_def split: if_splits)

lemma kmalloc_touches:
  assumes "kmalloc s sz = Some (p, s')" "p \<noteq> 0" "unat (x - p) < unat (if sz < 64 then 64 else sz)"
  shows "touches (\<lambda>s. kmalloc s sz) s x"
proof -
  have "kmalloc (poke x 1 s) sz \<noteq> Some (p, poke x 1 s')" using kmalloc_clears [OF _ assms(2,3)] by fastforce
  then show ?thesis using assms(1) unfolding touches_def by (intro exI [of _ 1]) simp
qed

lemma page_bits: "j < 36 \<Longrightarrow> bit (page_of a) (12 + j) \<longleftrightarrow> bit (unat a div 4096) j" "j < 12 \<or> 48 \<le> j \<Longrightarrow> \<not> bit (page_of a) j"
proof -
  have "unat a div 4096 = drop_bit 12 (unat a)" by (simp add: drop_bit_eq_div)
  then have "bit (unat a div 4096) j = bit (unat a) (12 + j)" by (simp only: bit_drop_bit_eq comp_apply)
  also have "\<dots> = bit a (12 + j)" by (simp only: bit_unsigned_iff possible_bit_nat simp_thms)
  finally have "bit (unat a div 4096) j = bit a (12 + j)" .
  then show "j < 36 \<Longrightarrow> bit (page_of a) (12 + j) \<longleftrightarrow> bit (unat a div 4096) j" by (simp add: bit_page_of)
qed (auto simp: bit_page_of)

lemma page_same:
  fixes x b :: u64
  assumes "unat b mod 4096 + unat (x - b) < 4096"
  shows "page_of x = page_of b"
proof -
  define q where "q = unat b div 4096"
  have b: "unat b = 4096 * q + unat b mod 4096" by (simp add: q_def)
  have "q < 4503599627370496" using unat_lt_64 [of b] by (simp add: q_def less_mult_imp_div_less)
  then have "unat b + unat (x - b) < 18446744073709551616" using assms b by linarith
  then have "unat x = 4096 * q + (unat b mod 4096 + unat (x - b))" using unat_add_64 [of b "x - b"] b by simp
  then have "unat x div 4096 = q" using assms by (metis div_mult_self4 div_less add_0_right zero_neq_numeral)
  then have "bit (page_of x) (12 + j) = bit (page_of b) (12 + j)" if "j < 36" for j using page_bits(1) [OF that] by (simp add: q_def)
  then have "bit (page_of x) j = bit (page_of b) j" for j
    using page_bits(2) [of j x] page_bits(2) [of j b] by (cases "12 \<le> j \<and> j < 48") (auto simp: not_le dest!: le_Suc_ex)
  then show ?thesis by (intro bit_word_eqI) simp
qed

lemma page_next:
  assumes "unat (b :: u64) + 4096 < 18446744073709551616"
  shows "page_of (b + 4096) \<noteq> page_of b"
proof -
  have "unat (b + 4096) div 4096 = Suc (unat b div 4096)" using assms by (simp add: unat_add_64)
  then have "bit (page_of (b + 4096)) 12 \<noteq> bit (page_of b) 12" using page_bits(1) [of 0] by (simp add: bit_0)
  then show ?thesis by metis
qed

text \<open>The first request after \<open>kmalloc_init\<close> that the rounding serves.\<close>

lemma first_request:
  assumes vm: "vmm_ok cap s (f # fs)" "\<not> bit (kheap_spinlock s) 0" "K_HEAP_END s = KHEAPSTART s" "KHEAPSTART s \<noteq> 0"
      "3 \<le> length fs" "arena cap lim s (f # fs)" "unat (KHEAPSTART s) + 69632 \<le> lim"
    and sz: "kmalloc_covers sz" "unat sz \<le> 65536"
  shows "\<exists>s1 s2. kmalloc_init s 0x1000 = Some (KHEAPSTART s, s1) \<and> kmalloc s1 sz = Some (KHEAPSTART s + 124, s2) \<and> KHEAPSTART s + 124 \<noteq> 0
    \<and> (\<forall>v. translate s1 v = (if page_of v = page_of (KHEAPSTART s) then Some f else translate s v)) \<and> (\<forall>v. translate s2 v = translate s1 v)"
proof -
  obtain s1 fs1 where s1: "kmalloc_init s 0x1000 = Some (KHEAPSTART s, s1)" "kernel_heap cap s1 fs1 [(KHEAPSTART s, [(False, 69508)])]"
      "\<forall>v. translate s1 v = (if page_of v = page_of (KHEAPSTART s) then Some f else translate s v)"
    using kmalloc_init_heap [OF vm(1-5) _ vm(6,7), of "0x1000"] by auto
  have "kmalloc_rounded sz \<le> 69508" using rounded_small(2) [OF sz(2)] rounded_small(1) [OF sz(2)] by simp
  then have fit: "first_fit (kmalloc_rounded sz) [(False, 69508)] = Some ([], 69508, [])" by simp
  obtain s2 where "kmalloc s1 sz = Some (KHEAPSTART s + 124, s2)" "\<forall>v. translate s2 v = translate s1 v"
    using kmalloc_heap_list [where pre = "[]" and post = "[]", OF _ _ fit sz(1), of cap s1 fs1 "KHEAPSTART s"] s1(2) by (auto simp: add.assoc)
  moreover have "unat (KHEAPSTART s + 124) = unat (KHEAPSTART s) + 124" using vm(6,7) by (intro unat_add_64 [THEN trans]) (auto simp: arena_def)
  then have "KHEAPSTART s + 124 \<noteq> 0" by auto
  ultimately show ?thesis using s1(1,3) by blast
qed

lemma covers_page:
  assumes "kmalloc_covers sz" "unat sz \<le> 65536"
  shows "4033 \<le> unat sz"
proof (rule ccontr)
  define j where "j = (if sz < 64 then 64 else sz)"
  assume "\<not> 4033 \<le> unat sz"
  then have j: "64 \<le> unat j" "unat j \<le> 4032" by (auto simp: j_def word_less_nat_alt)
  then have "(unat j + 63) div 4096 = 0" by simp
  then have "unat (request_size j) = 0" using unat_request [of j] j by simp
  then show False using assms(1) j(1) by (simp add: kmalloc_covers_def kmalloc_rounded_def j_def [symmetric])
qed

section \<open>The memory manager\<close>

text \<open>What the manager does away from its pages and its free list is nothing: mapping a page and changing a byte elsewhere commute.\<close>

lemma pop_far:
  assumes fl: "frame_list cap m l (f # fs)" and x: "\<not> unat (x - l) < 24 + 8 * cap"
  shows "pop_frame_list (m(x := v)) l = apsnd (\<lambda>m. m(x := v)) (pop_frame_list m l)"
proof -
  have cap: "24 + 8 * cap < 18446744073709551616" "length fs < cap" using fl by (auto simp: frame_list_def)
  have far: "\<not> unat (x - (l + i)) < 8" if "unat i + 8 \<le> 24 + 8 * cap" for i using far_sub [OF x that cap(1)] .
  have h: "\<not> unat (x - l) < 8" "\<not> unat (x - (l + 8)) < 8" "\<not> unat (x - (l + 16)) < 8" using far [of 0] far [of 8] far [of 16] by simp_all
  define n where "n = ffl_nextFree m l"
  have "unat (16 + 8 * of_nat (length (f # fs)) :: u64) = 16 + 8 * length (f # fs)"
    using cap unat_of_nat_64 [of "16 + 8 * length (f # fs)"] by simp
  moreover have n: "n = l + (16 + 8 * of_nat (length (f # fs)))" using fl by (simp add: frame_list_def n_def add.assoc)
  ultimately have "\<not> unat (x - n) < 8" using far [of "16 + 8 * of_nat (length (f # fs))"] cap(2) by simp
  then show ?thesis
    unfolding pop_frame_list_def Let_def ffl_nextFree_def ffl_numFrames_def ffl_head_def using h n_def [unfolded ffl_nextFree_def]
    by (simp add: far_cells)
qed

lemma print_poke: "print_ptr_address (poke x v s) a = poke x v (print_ptr_address s a)"
  by (simp add: print_ptr_address_def poke_say)

lemma table_far:
  assumes "frame_list cap (mem s) l (f # fs)" "\<not> unat (x - l) < 24 + 8 * cap" "\<not> unat (x - (f + PHYSICAL_ADDRESS_OFFSET s)) < 4096"
  shows "create_new_page_table (poke x v s) l = apsnd (poke x v) (create_new_page_table s l)"
proof -
  obtain a m where p: "pop_frame_list (mem s) l = (a, m)" by fastforce
  then have a: "a = f" using ffl.pop_rep [OF assms(1)] by simp
  let ?w = "f + PHYSICAL_ADDRESS_OFFSET s"
  have far: "\<not> unat (x - (?w + 8)) < 8" using far_sub [OF assms(3), of 8 8] by simp
  have upd: "poke x v s\<lparr>mem := m(x := v)\<rparr> = poke x v (s\<lparr>mem := m\<rparr>)" for m s by (simp add: poke_def)
  show ?thesis
    using pop_far [OF assms(1,2), of v] assms(3) far
    by (simp add: create_new_page_table_def p a phys_to_virt_translation_def upd print_poke poke_say memset_filled far_filled far_cells Let_def)
qed

text \<open>Away from all tables, free frames and the list.\<close>

definition off_pages :: "nat \<Rightarrow> u64 \<Rightarrow> u64 list \<Rightarrow> u64 \<Rightarrow> bool" where
  "off_pages cap l ts x \<longleftrightarrow> (\<forall>t\<in>set ts. \<not> unat (x - t) < 4096) \<and> \<not> unat (x - l) < 24 + 8 * cap"

lemma off_vmm_pages: "off_vmm cap s fs a n \<Longrightarrow> unat (x - a) < n \<Longrightarrow> off_pages cap (vmm_frameAlloc s) (vmm_pages s fs) x"
  using sep_apart by (simp only: off_vmm_def off_pages_def) blast

lemma level_far:
  assumes ok: "pt_ok cap (mem s) (PHYSICAL_ADDRESS_OFFSET s) (Suc n) t l fs" and i: "unat i < 512"
    and go: "is_page_table_present (load64 (mem s) (t + 8 * i)) \<or> fs \<noteq> []"
    and x: "off_pages cap l (tables (mem s) (PHYSICAL_ADDRESS_OFFSET s) (Suc n) t @ phys_frames (PHYSICAL_ADDRESS_OFFSET s) fs) x"
  shows "map_level (poke x v s) t i l msg = apsnd (poke x v) (map_level s t i l msg)"
proof -
  have "\<not> unat (x - t) < 4096" using x root_in_tables [of t] by (auto simp: off_pages_def)
  moreover have "unat (8 * i) = 8 * unat i" using i by (simp add: unat_word_ariths)
  ultimately have far: "\<not> unat (x - (t + 8 * i)) < 8" using far_sub [of x t 4096 "8 * i" 8] i by simp
  have upd: "poke x v s\<lparr>mem := m(x := v)\<rparr> = poke x v (s\<lparr>mem := m\<rparr>)" for m s by (simp add: poke_def)
  show ?thesis
  proof (cases "is_page_table_present (load64 (mem s) (t + 8 * i))")
    case True
    then show ?thesis using far by (simp add: map_level_def far_cells phys_to_virt_translation_def)
  next
    case False
    then obtain f gs where fs: "fs = f # gs" using go by (cases fs) auto
    obtain a s1 where c: "create_new_page_table s l = (a, s1)" by fastforce
    have "create_new_page_table (poke x v s) l = (a, poke x v s1)"
      using table_far [of cap s l f gs x v] ok x c by (simp add: fs pt_ok_iff off_pages_def)
    then show ?thesis using False far c by (simp add: map_level_def far_cells phys_to_virt_translation_def poke_say upd)
  qed
qed

lemma path_far:
  assumes "pt_ok cap (mem s) (PHYSICAL_ADDRESS_OFFSET s) (Suc (length is)) t l fs" "length is \<le> length fs"
    "index_path (Suc (length is)) (map fst is @ [k])"
    "off_pages cap l (tables (mem s) (PHYSICAL_ADDRESS_OFFSET s) (Suc (length is)) t @ phys_frames (PHYSICAL_ADDRESS_OFFSET s) fs) x"
  shows "map_path (poke x v s) t is k frame l = apsnd (poke x v) (map_path s t is k frame l)"
  using assms
proof (induction "is" arbitrary: s t fs)
  case Nil
  have "\<not> unat (x - t) < 4096" using Nil.prems(4) by (simp add: off_pages_def tables_1)
  moreover have k: "unat k < 512" using Nil.prems(3) by (simp add: index_path_def)
  moreover have "unat (8 * k) = 8 * unat k" using k by (simp add: unat_word_ariths)
  ultimately have "\<not> unat (x - (t + 8 * k)) < 8" using far_sub [of x t 4096 "8 * k" 8] by simp
  then show ?case by (simp add: far_cells poke_def)
next
  case (Cons im "is")
  obtain i msg where im: "im = (i, msg)" by fastforce
  let ?o = "PHYSICAL_ADDRESS_OFFSET s"
  have i: "unat i < 512" and idx: "index_path (Suc (length is)) (map fst is @ [k])" using Cons.prems(3) im by (auto simp: index_path_def)
  have ok: "pt_ok cap (mem s) ?o (Suc (Suc (length is))) t l fs" using Cons.prems by simp
  have go: "is_page_table_present (load64 (mem s) (t + 8 * i)) \<or> fs \<noteq> []" using Cons.prems(2) by auto
  obtain s1 fs1 u where u: "u = page_table_phys_address (load64 (mem s1) (t + 8 * i)) + ?o"
    and m: "map_level s t i l msg = (Some u, s1)" and e: "is_page_table_present (load64 (mem s1) (t + 8 * i))"
    and st: "pt_step cap l (Suc (Suc (length is))) t s fs s1 fs1" and len: "length fs \<le> Suc (length fs1)"
    using map_level_ok [OF ok _ i go, of msg] by auto
  have ok1: "pt_ok cap (mem s1) ?o (Suc (Suc (length is))) t l fs1" and o: "PHYSICAL_ADDRESS_OFFSET s1 = ?o"
    and "mset (tables (mem s1) ?o (Suc (Suc (length is))) t @ phys_frames ?o fs1) = mset (tables (mem s) ?o (Suc (Suc (length is))) t @ phys_frames ?o fs)"
    using st by (simp_all add: pt_step_def same_regs_def Let_def)
  note ms = mset_eq_setD [OF this(3)]
  have "subtables (mem s1) ?o (Suc (length is)) t (unat i) = tables (mem s1) ?o (Suc (length is)) u" using e u by (simp add: subtables_def)
  then have "set (tables (mem s1) ?o (Suc (length is)) u) \<subseteq> set (tables (mem s1) ?o (Suc (Suc (length is))) t)"
    using subtables_subset [of "Suc (length is)" "unat i" "mem s1" ?o t] i by simp
  then have x: "off_pages cap l (tables (mem s1) ?o (Suc (length is)) u @ phys_frames ?o fs1) x"
    using Cons.prems(4) ms by (auto simp: off_pages_def simp del: tables.simps)
  have "pt_ok cap (mem s1) ?o (Suc (length is)) u l fs1" using pt_ok_child [OF ok1 _ i e u] by simp
  then have "map_path (poke x v s1) u is k frame l = apsnd (poke x v) (map_path s1 u is k frame l)"
    using Cons.IH [of s1 u fs1] len Cons.prems(2) idx x by (simp add: o)
  then show ?case
    using level_far [OF ok i go, of x v msg] Cons.prems(4) m by (simp add: im)
qed

lemma map_far:
  assumes ok: "pt_ok cap (mem s) (PHYSICAL_ADDRESS_OFFSET s) 4 (map_root s 0) l fs" "map_root s 0 \<noteq> 0" "3 \<le> length fs"
    and x: "off_pages cap l (tables (mem s) (PHYSICAL_ADDRESS_OFFSET s) 4 (map_root s 0) @ phys_frames (PHYSICAL_ADDRESS_OFFSET s) fs) x"
  shows "map_to_page (poke x v s) a frame l 0 = apsnd (poke x v) (map_to_page s a frame l 0)"
proof -
  let ?x = "calculate_pt_indices a"
  let ?is = "[(pgd ?x, ''Can't allocate new PUD page table''), (pud ?x, ''Can't allocate new PMD page table''),
    (pmd ?x, ''Couldn't Allocate new PT.'')]"
  have p: "map fst ?is @ [pt ?x] = page_path a" "Suc (length ?is) = 4" by (simp_all add: page_path_def Let_def)
  have "map_path (poke x v s) (map_root s 0) ?is (pt ?x) frame l = apsnd (poke x v) (map_path s (map_root s 0) ?is (pt ?x) frame l)"
  proof (rule path_far [where fs = fs])
    show "length ?is \<le> length fs" using ok(3) by simp
  qed (use ok x in \<open>simp_all only: p page_path_index\<close>)
  then show ?thesis
    using map_to_page_path [of "map_root s 0" 0 s a frame l] map_to_page_path [of "map_root s 0" 0 "poke x v s" a frame l] ok(2)
    by (simp add: map_root_def case_prod_beta)
qed

lemma page_far:
  assumes ok: "vmm_ok cap s (f # fs)" and n: "3 \<le> length fs" and x: "off_pages cap (vmm_frameAlloc s) (vmm_pages s (f # fs)) x"
  shows "alloc_page (poke x v s) a = apsnd (poke x v) (alloc_page s a)"
proof -
  let ?l = "vmm_frameAlloc s" and ?o = "PHYSICAL_ADDRESS_OFFSET s"
  have pt: "pt_ok cap (mem s) ?o 4 (map_root s 0) ?l (f # fs)" "map_root s 0 \<noteq> 0" using ok by (simp_all add: vmm_ok_def)
  obtain g m where p: "pop_frame_list (mem s) ?l = (g, m)" by fastforce
  then have g: "pt_ok cap m ?o 4 (map_root s 0) ?l fs" "tables m ?o 4 (map_root s 0) = tables (mem s) ?o 4 (map_root s 0)"
    using pop_pt_ok(1,3) [OF pt(1)] by (metis snd_conv)+
  define s1 where "s1 = s\<lparr>mem := m\<rparr>"
  have s1: "get_physical_frame_addr s = (g, s1)" by (simp add: get_physical_frame_addr_def p s1_def)
  have "pop_frame_list ((mem s)(x := v)) ?l = (g, m(x := v))"
    using pop_far [of cap "mem s" ?l f fs x v] pt(1) x p by (simp add: pt_ok_iff off_pages_def)
  then have s1': "get_physical_frame_addr (poke x v s) = (g, poke x v s1)" by (simp add: get_physical_frame_addr_def s1_def poke_def)
  have "map_to_page (poke x v s1) a g ?l 0 = apsnd (poke x v) (map_to_page s1 a g ?l 0)"
    using g pt(2) n x by (intro map_far [where fs = fs]) (auto simp: s1_def map_root_def off_pages_def)
  moreover have "vmm_frameAlloc s1 = ?l" by (simp add: s1_def)
  ultimately show ?thesis by (simp add: alloc_page_def s1 s1' poke_say)
qed

section \<open>Bringing up the heap\<close>

lemma init_heap_poke: "init_heap (poke x v s) = poke x v (init_heap s)"
  by (simp add: init_heap_def Let_def poke_def say_def)

lemma init_vmm_far:
  assumes "vmm_ok cap (s\<lparr>vmm_frameAlloc := l\<rparr>) (f # fs)" "3 \<le> length fs" "off_pages cap l (vmm_pages (s\<lparr>vmm_frameAlloc := l\<rparr>) (f # fs)) x"
  shows "init_vmm (poke x v s) l = poke x v (init_vmm s l)"
proof -
  have upd: "poke x v s\<lparr>vmm_frameAlloc := l\<rparr> = poke x v (s\<lparr>vmm_frameAlloc := l\<rparr>)" by (simp add: poke_def)
  have far: "alloc_page (poke x v (s\<lparr>vmm_frameAlloc := l\<rparr>)) (KHEAPSTART s) = apsnd (poke x v) (alloc_page (s\<lparr>vmm_frameAlloc := l\<rparr>) (KHEAPSTART s))"
    by (rule page_far [OF assms(1,2)]) (use assms(3) in simp)
  show ?thesis by (simp add: init_vmm_def case_prod_beta poke_say Let_def upd far)
qed

lemma grow_poke: "grow_heap (poke x v s) sz = map_option (apsnd (poke x v)) (grow_heap s sz)"
proof -
  have "poke x v s\<lparr>kheap_spinlock := w\<rparr> = poke x v (s\<lparr>kheap_spinlock := w\<rparr>)" "poke x v s\<lparr>K_HEAP_END := a\<rparr> = poke x v (s\<lparr>K_HEAP_END := a\<rparr>)" for s w a
    by (simp_all add: poke_def)
  then show ?thesis by (simp add: grow_heap_def Let_def poke_say split: option.split)
qed

lemma mmap_far:
  assumes ok: "vmm_ok cap s (f # fs)" and n: "3 \<le> length fs" and free: "\<not> bit (kheap_spinlock s) 0"
    and sz: "1 \<le> unat sz" "unat sz \<le> 4096" and start: "K_HEAP_END s \<noteq> 0" "unat (K_HEAP_END s) + 4096 < 18446744073709551616"
    and x: "off_pages cap (vmm_frameAlloc s) (vmm_pages s (f # fs)) x"
  shows "mmap (poke x v s) sz = map_option (apsnd (poke x v)) (mmap s sz)"
proof -
  let ?a = "K_HEAP_END s"
  obtain s1 where g: "grow_heap s sz = Some (?a, s1)" "mem s1 = mem s" "cr3 s1 = cr3 s" "vmm_frameAlloc s1 = vmm_frameAlloc s"
      "PHYSICAL_ADDRESS_OFFSET s1 = PHYSICAL_ADDRESS_OFFSET s"
    using grow_heap_returns [OF free, of sz] by blast
  define s2 where "s2 = say (Tty_printf ''Region start %ulh'' [Va_int ?a]) s1"
  have "vmm_ok cap s2 (f # fs)" "off_pages cap (vmm_frameAlloc s2) (vmm_pages s2 (f # fs)) x"
    using ok x vmm_ok_cong [of s2 s] g by (simp_all add: s2_def map_root_def)
  note far = page_far [OF this(1) n this(2)]
  have one: "mmap_loop t ?a (?a + sz) = Some (snd (alloc_page t ?a))" for t
  proof -
    have "?a < ?a + sz" "\<not> ?a + 0x1000 < ?a + sz"
      using sz start unat_add_64 [of ?a sz] unat_add_64 [of ?a "0x1000"] by (simp_all add: word_less_nat_alt)
    then show ?thesis by (simp add: mmap_loop.simps)
  qed
  show ?thesis using start(1) g(1) by (simp add: mmap_def grow_poke poke_say s2_def [symmetric] one far)
qed

text \<open>The bytes at the start of a bucket.\<close>

lemma head_far:
  fixes x b i :: u64
  assumes "\<not> unat (x - b) < 188"
  shows "unat i + 8 \<le> 188 \<Longrightarrow> load64 (m(x := v)) (b + i) = load64 m (b + i)"
    "unat i + 8 \<le> 188 \<Longrightarrow> store64 (m(x := v)) (b + i) w = (store64 m (b + i) w)(x := v)"
    "unat i + 4 \<le> 188 \<Longrightarrow> load32 (m(x := v)) (b + i) = load32 m (b + i)"
    "unat i + 4 \<le> 188 \<Longrightarrow> store32 (m(x := v)) (b + i) u = (store32 m (b + i) u)(x := v)"
    "store32 (m(x := v)) b u = (store32 m b u)(x := v)"
  using far_sub [OF assms, of i] far_sub [OF assms, of 0 4] by (simp_all add: far_cells far_cells_32)

lemma create_far:
  assumes "mmap (poke x v s) (bucket_bytes sz div PAGESIZE) = map_option (apsnd (poke x v)) (mmap s (bucket_bytes sz div PAGESIZE))"
    and "mmap s (bucket_bytes sz div PAGESIZE) = Some (a, s1)" "a \<noteq> 0" and far: "\<not> unat (x - a) < 188"
  shows "create_bucket (poke x v s) sz fl = map_option (apsnd (poke x v)) (create_bucket s sz fl)"
proof -
  have upd: "poke x v s\<lparr>mem := m(x := v)\<rparr> = poke x v (s\<lparr>mem := m\<rparr>)" for m s by (simp add: poke_def)
  have m: "mmap (poke x v s) (bucket_bytes sz div PAGESIZE) = Some (a, poke x v s1)" using assms(1,2) by simp
  show ?thesis
    unfolding create_bucket_def Let_def bucket_bytes_def [symmetric] m assms(2)
    using assms(3) by (simp add: layout sizeof_bucket_def add.assoc head_far [OF far] upd)
qed

lemma kmalloc_init_far:
  assumes "vmm_ok cap s (f # fs)" "3 \<le> length fs" "\<not> bit (kheap_spinlock s) 0" "K_HEAP_END s \<noteq> 0" "unat (K_HEAP_END s) + 4096 < 18446744073709551616"
    "off_pages cap (vmm_frameAlloc s) (vmm_pages s (f # fs)) x" "\<not> unat (x - K_HEAP_END s) < 188"
  shows "kmalloc_init (poke x v s) 0x1000 = map_option (apsnd (poke x v)) (kmalloc_init s 0x1000)"
proof -
  define s0 where "s0 = say (Serial_printf ([CHR 0x0A] @ '' kmalloc init start.'') []) s"
  have s0: "vmm_ok cap s0 (f # fs)" "\<not> bit (kheap_spinlock s0) 0" "K_HEAP_END s0 = K_HEAP_END s" "off_pages cap (vmm_frameAlloc s0) (vmm_pages s0 (f # fs)) x"
    using assms(1,3,6) vmm_ok_cong(1) [of s0 s] by (simp_all add: s0_def map_root_def)
  have b: "bucket_bytes 0x1000 div PAGESIZE = 17" by (simp add: bucket_bytes_def heap_consts)
  obtain s1 where "mmap s0 17 = Some (K_HEAP_END s, s1)"
    using mmap_one_page [OF s0(1) assms(2) s0(2), of 17] assms(4,5) s0(3) by auto
  moreover have "mmap (poke x v s0) 17 = map_option (apsnd (poke x v)) (mmap s0 17)"
    using assms(4,5) s0 by (intro mmap_far [OF s0(1) assms(2)]) simp_all
  ultimately have "create_bucket (poke x v s0) 0x1000 (0 OR BUCKET_FLAG_FIRST)
      = map_option (apsnd (poke x v)) (create_bucket s0 0x1000 (0 OR BUCKET_FLAG_FIRST))"
    using assms(4,7) by (intro create_far [where a = "K_HEAP_END s"]) (simp_all add: b)
  then show ?thesis unfolding kmalloc_init_def poke_say s0_def [symmetric] .
qed

text \<open>
  The self-test of \<open>kernel_init\<close> on the fresh bucket: what \<open>kmalloc\<close> and \<open>kfree\<close> leave in memory, as the stores they make.
\<close>

definition carved :: "memory \<Rightarrow> u64 \<Rightarrow> memory" where
  "carved m b = release_at (store64 (store32 (cut_at (split_new (store32 m (b + 24) (load32 m (b + 24) OR 1)) (b + 64) (b + 124) 69448)
     (b + 64) 0 (b + 124)) (b + 68) 1) (b + 8) 69448) (b + 24)"

definition tested :: "memory \<Rightarrow> u64 \<Rightarrow> memory" where
  "tested m b = joined (store64 (filled (carved m b) (b + 124) 0 64) (b + 124) 10023) b"

lemma carve:
  assumes ok: "heap_ok s [(False, 69508)]"
  defines "b \<equiv> KHEAPSTART s"
  shows "bucket_loop (mem s) b 0 PEBBLE_FLAG_IN_USE = Some (b + 124, carved (mem s) b)"
    "bucket_rep (carved (mem s) b) b [(True, 0), (False, 69448)]" "load32 (carved (mem s) b) (b_spinlock b) = 0"
    "load32 (carved (mem s) b) (b_lflags b) AND BUCKET_FLAG_BEST = 0"
proof -
  have fit: "first_fit 0 [(False, 69508)] = Some ([], 69508, [])" by simp
  have split: "SPLIT_PEBBLE 69508 0" by (simp add: SPLIT_PEBBLE_def heap_consts)
  then have cut: "cut_block 0 69508 = [(True, 0), (False, 69448)]" by (simp add: cut_block_def)
  have rep: "bucket_rep (mem s) b [(False, 69508)]" and lf: "load32 (mem s) (b_lflags b) AND BUCKET_FLAG_BEST = 0"
    using ok by (simp_all add: heap_ok_def header_ok_def b_def)
  have opn: "bucket_open (mem s) b 0" using heap_open [OF ok fit] by (simp add: b_def)
  define m1 where "m1 = store32 (mem s) (b + 24) (load32 (mem s) (b + 24) OR 1)"
  have acq: "acquire_at (mem s) (b_spinlock b) = Some m1"
    using opn by (simp add: acquire_at_def acquire_spinlock_def bucket_open_def m1_def layout)
  have r0: "(0 :: u64) AND 63 = 0" by simp
  obtain m0 m2 m3 m' where st: "acquire_at (mem s) (b_spinlock b) = Some m0" "load64 m0 (b_largest_free b) = load64 (mem s) (b_largest_free b)"
      "place_pebble m0 b 0 PEBBLE_FLAG_IN_USE = Some (end_addr (b + 64) [], m2)" "end_addr (b + 64) [] \<noteq> 0"
      "bucket_update_largest m2 b = Some (largest 0 ([] @ cut_block 0 69508 @ []), m3)" "release_at m3 (b_spinlock b) = m'"
    and m': "bucket_rep m' b ([] @ cut_block 0 69508 @ [])" "load32 m' (b_spinlock b) = 0" "load32 m' (b_lflags b) = load32 (mem s) (b_lflags b)"
    by (rule place_locked [OF rep fit r0 opn])
  have "m0 = m1" using st(1) acq by simp
  note st = st(2-) [unfolded this cut end_addr.simps append.simps] and m' = m' [unfolded cut append.simps]
  have rep1: "bucket_rep m1 b [(False, 69508)]" using lock_store(1) [OF rep] by (simp add: m1_def layout)
  have "split_pebble m1 (b + 64) 0 = (b + 64, cut_at (split_new m1 (b + 64) (b + 124) 69448) (b + 64) 0 (b + 124))"
    using split_steps [of m1 b 0 "b + 64" False 69508 "[]" 0] rep1 split st(3)
    by (auto simp: bucket_rep_def link_back_def add.assoc unat_add_64)
  moreover have "first_loop m1 (b + 64) 0 = Some (b + 64)"
    using rep1 st(3) by (simp add: first_loop.simps [of _ "b + 64"] bucket_rep_def pebble_at_def)
  moreover have "load32 m1 (b_lflags b) AND BUCKET_FLAG_BEST = 0" using lf by (simp add: m1_def layout mem_simps sep_offsets)
  ultimately have m2: "m2 = store32 (cut_at (split_new m1 (b + 64) (b + 124) 69448) (b + 64) 0 (b + 124)) (b + 68) 1"
    using st(2,3) rep1 by (simp add: place_pebble_def take_pebble_def bucket_rep_def layout add.assoc PEBBLE_FLAG_IN_USE_def)
  have "m3 = store64 m2 (b + 8) 69448" using st(4) by (auto simp: bucket_update_largest_def bind_eq_Some_conv layout)
  then have e: "m' = carved (mem s) b" using st(5) m2 by (simp add: carved_def m1_def layout)
  show "bucket_loop (mem s) b 0 PEBBLE_FLAG_IN_USE = Some (b + 124, carved (mem s) b)"
    unfolding e [symmetric] using st acq rep by (subst bucket_loop.simps) (simp add: sizeof_pebble_def add.assoc bucket_rep_def)
  show "bucket_rep (carved (mem s) b) b [(True, 0), (False, 69448)]" "load32 (carved (mem s) b) (b_spinlock b) = 0"
    "load32 (carved (mem s) b) (b_lflags b) AND BUCKET_FLAG_BEST = 0"
    using m' lf unfolding e by simp_all
qed

lemma copy_far:
  assumes "\<not> unat (x - d) < unat n" "\<not> unat (x - a) < unat n" "sep d (unat n) a (unat n)"
  shows "snd (memcpy (m(x := v)) d a n) = (snd (memcpy m d a n))(x := v)"
proof -
  have "a + (y - d) \<noteq> x" if "unat (y - d) < unat n" for y using that assms(2) by auto
  then show ?thesis using assms(1) unfolding memcpy_def snd_conv copy_up_sep [OF assms(3)] by (auto simp: copied_def fun_eq_iff)
qed

lemma tested_far:
  assumes "\<not> unat (x - b) < 188"
  shows "tested (m(x := v)) b = (tested m b)(x := v)"
proof -
  note h = head_far [OF assms]
  have far: "\<not> unat (x - (b + 124)) < 60" "\<not> unat (x - (b + 64)) < 60" "\<not> unat (x - (b + 124)) < 64"
    using far_sub [OF assms, of 124 60] far_sub [OF assms, of 64 60] far_sub [OF assms, of 124 64] by simp_all
  have c: "snd (memcpy (m(x := v)) (b + 124) (b + 64) 60) = (snd (memcpy m (b + 124) (b + 64) 60))(x := v)" for m
    using far by (intro copy_far) (simp_all add: sep_offsets)
  have "carved (m(x := v)) b = (carved m b)(x := v)" for m
    by (simp add: carved_def split_new_def cut_at_def release_at_def release_spinlock_def layout sizeof_pebble_def add.assoc h c)
  then show ?thesis
    using far_filled [OF far(3)] by (simp add: tested_def joined_def release_at_def release_spinlock_def h)
qed

text \<open>The output of the self-test, and bringing up the heap as a whole.\<close>

definition test_output :: "u64 \<Rightarrow> io list" where
  "test_output b = [Tty_break, Serial_printf (''Kmalloc init'' @ nl) [], Tty_println ''KMalloc Initialised.'' [],
     Serial_printf ('' '' @ nl @ ''Largest bucket free pebble size %ul '' @ nl) [Va_int 69508],
     Serial_printf ('' '' @ nl @ ''malloced address %p '' @ nl) [Va_int (b + 124)], Tty_println ''Number = %ul'' [Va_int 10023],
     Tty_break, Tty_printf (''F R O G E  L O A D I N G'' @ nl) []]"

definition vmm_ready :: "u64 \<Rightarrow> machine \<Rightarrow> machine" where
  "vmm_ready l s = say (Tty_println ''Init VMM.'' []) (say (Serial_printf (''Init VMM'' @ nl) [])
     (init_vmm (say (Tty_println ''Init heap.'' []) (init_heap s)) l))"

lemma kmalloc_carves:
  assumes ok: "heap_ok s [(False, 69508)]"
  defines "b \<equiv> KHEAPSTART s"
  shows "kmalloc s 8 = Some (b + 124, say (Serial_printf ('' '' @ nl @ ''Largest bucket free pebble size %ul '' @ nl) [Va_int 69508])
    (s\<lparr>mem := filled (carved (mem s) b) (b + 124) 0 64\<rparr>))"
proof -
  have "load64 (mem s) (b_largest_free b) = 69508" "unat (b + 124) = unat b + 124"
    using ok by (auto simp: heap_ok_def header_ok_def b_def bucket_rep_def intro!: unat_add_64 [THEN trans])
  moreover from this have "b + 124 \<noteq> 0" by auto
  moreover have "request_size 64 = 0" by (simp add: request_size_def heap_consts)
  ultimately show ?thesis
    using carve(1) [OF ok] unfolding kmalloc_def Let_def by (simp add: b_def PEBBLE_MIN_SIZE_def memset_filled say_def)
qed

lemma heap_brought_up:
  assumes "\<not> bit (kheap_spinlock s) 0" "KHEAPSTART s \<noteq> 0" "unat (KHEAPSTART s) + 69632 < 18446744073709551616"
  defines "b \<equiv> KHEAPSTART s"
  shows "\<exists>t. kmalloc_init (vmm_ready l s) 0x1000 = Some (b, t)
    \<and> kernel_init_heap l s = Some (t\<lparr>mem := tested (mem t) b, trace := trace t @ test_output b\<rparr>)"
proof -
  have "same_regs ((init_heap s)\<lparr>vmm_frameAlloc := l\<rparr>) (vmm_ready l s)"
    using init_vmm_regs [where s = "say (Tty_println ''Init heap.'' []) (init_heap s)" and l = l]
    by (simp add: vmm_ready_def same_regs_def)
  then have r: "\<not> bit (kheap_spinlock (vmm_ready l s)) 0" "K_HEAP_END (vmm_ready l s) = b" "KHEAPSTART (vmm_ready l s) = b"
    using assms(1) by (simp_all add: same_regs_def init_heap_def b_def)
  then obtain t where t: "kmalloc_init (vmm_ready l s) 0x1000 = Some (b, t)" "heap_ok t [(False, 69508)]" "KHEAPSTART t = b"
    using kmalloc_init_fresh [of "vmm_ready l s"] assms(2,3) by (auto simp: b_def)
  define t1 where "t1 = say (Tty_println ''KMalloc Initialised.'' []) (say (Serial_printf (''Kmalloc init'' @ nl) []) (say Tty_break t))"
  have t1: "heap_ok t1 [(False, 69508)]" "KHEAPSTART t1 = b" "mem t1 = mem t" using t(2,3) by (simp_all add: t1_def heap_ok_def)
  note m = kmalloc_carves [OF t1(1), unfolded t1(2,3)] and c = carve(2-4) [OF t1(1), unfolded t1(2,3)]
  have "kfree s' (b + 124) = Some (s'\<lparr>mem := tested (mem t) b\<rparr>)"
    if "mem s' = store64 (filled (carved (mem t) b) (b + 124) 0 64) (b + 124) 10023" "KHEAPSTART s' = b" for s'
    using kfree_joins_wiped(1) [OF c that] by (simp add: tested_def that(1))
  then have "kernel_init_heap l s = Some (t\<lparr>mem := tested (mem t) b, trace := trace t @ test_output b\<rparr>)"
    unfolding kernel_init_heap_def Let_def vmm_ready_def [symmetric] t(1) Option.bind.simps prod.case t1_def [symmetric] m
    using t1(2) by (simp add: mem_simps) (simp add: t1_def say_def test_output_def)
  then show ?thesis using t(1) by blast
qed

text \<open>The frames one page takes.\<close>

lemma missing_bound: "tables_missing m off t p \<le> length p - 1"
  by (induction m off t p rule: tables_missing.induct) (auto simp: Let_def)

lemma alloc_page_left:
  assumes ok: "vmm_ok cap s (f # fs)" and n: "3 \<le> length fs" and a: "a \<noteq> 0" and s': "alloc_page s a = (r, s')" "vmm_ok cap s' fs'"
  shows "length fs \<le> length fs' + 3"
proof -
  define s1 where "s1 = s\<lparr>mem := snd (pop_frame_list (mem s) (vmm_frameAlloc s))\<rparr>"
  note pt = ok [unfolded vmm_ok_def, THEN conjunct1]
  have pop: "fst (pop_frame_list (mem s) (vmm_frameAlloc s)) = f" "frame_ok f"
    "pt_ok cap (mem s1) (PHYSICAL_ADDRESS_OFFSET s1) 4 (map_root s1 0) (vmm_frameAlloc s) fs" "map_root s1 0 \<noteq> 0"
    using pop_pt_ok(3) [OF pt] pt ok by (auto simp: s1_def pt_ok_iff vmm_ok_def map_root_def)
  have s1: "s' = snd (map_to_page s1 a f (vmm_frameAlloc s) 0)"
    using s'(1) pop(1,2) a by (auto simp: alloc_page_def get_physical_frame_addr_def split_beta frame_ok_def s1_def split: if_splits)
  have "tables_missing (mem s1) (PHYSICAL_ADDRESS_OFFSET s1) (map_root s1 0) (page_path a) \<le> 3"
    using missing_bound [of "mem s1" "PHYSICAL_ADDRESS_OFFSET s1" "map_root s1 0" "page_path a"] by (simp add: page_path_def Let_def)
  then have "length fs \<le> unat (ffl_numFrames (mem s') (vmm_frameAlloc s)) + 3"
    using map_to_page_count [OF pop(3,4), of a f] n unfolding s1 by (auto split: if_splits)
  moreover have "vmm_frameAlloc s' = vmm_frameAlloc s" using alloc_page_regs [of s a] s'(1) by (simp add: same_regs_def)
  then have "unat (ffl_numFrames (mem s') (vmm_frameAlloc s)) = length fs'"
    using s'(2) by (intro frame_list_count [of cap]) (simp add: vmm_ok_def pt_ok_iff)
  ultimately show ?thesis by simp
qed

lemma init_vmm_maps:
  assumes ok: "vmm_ok cap (s\<lparr>vmm_frameAlloc := l\<rparr>) (f # fs)" and n: "7 \<le> length fs" and b: "KHEAPSTART s \<noteq> 0"
  shows "\<exists>g gs. vmm_ok cap (init_vmm s l) (g # gs) \<and> 3 \<le> length gs
    \<and> set (vmm_pages (init_vmm s l) (g # gs)) \<subseteq> set (vmm_pages (s\<lparr>vmm_frameAlloc := l\<rparr>) (f # fs))
    \<and> (\<forall>v. translate (init_vmm s l) v = (if page_of v = page_of (KHEAPSTART s) then Some f else translate s v))"
proof -
  let ?s = "s\<lparr>vmm_frameAlloc := l\<rparr>"
  have n3: "3 \<le> length fs" using n by simp
  obtain s' fs' where a: "alloc_page ?s (KHEAPSTART s) = (KHEAPSTART s, s')" "vmm_ok cap s' fs'" "vmm_changes cap ?s (f # fs) s' fs'"
      "\<forall>v. translate s' v = (if page_of v = page_of (KHEAPSTART s) then Some f else translate ?s v)"
    using alloc_page_some [OF ok n3 b] by blast
  have "4 \<le> length fs'" using alloc_page_left [OF ok n3 b a(1,2)] n by simp
  then obtain g gs where fs': "fs' = g # gs" "3 \<le> length gs" by (cases fs') auto
  define t where "t = init_vmm s l"
  have t: "mem t = mem s'" "PHYSICAL_ADDRESS_OFFSET t = PHYSICAL_ADDRESS_OFFSET s'" "cr3 t = cr3 s'" "vmm_frameAlloc t = vmm_frameAlloc s'"
    using b by (simp_all add: t_def init_vmm_def Let_def a(1))
  note c = vmm_ok_cong [OF t]
  have "vmm_pages t fs' = vmm_pages s' fs'" using t by (simp add: map_root_def)
  then show ?thesis
    unfolding t_def [symmetric] using a(2-4) c fs' by (intro exI [of _ g] exI [of _ gs]) (auto simp: vmm_changes_def map_root_def)
qed

text \<open>The state the manager is brought up in, and the one it leaves.\<close>

lemma vmm_brought_up:
  assumes ok: "vmm_ok cap (s\<lparr>vmm_frameAlloc := l\<rparr>) fs" and n: "8 \<le> length fs" and b: "KHEAPSTART s \<noteq> 0"
    and t: "mem t = mem s" "PHYSICAL_ADDRESS_OFFSET t = PHYSICAL_ADDRESS_OFFSET s" "cr3 t = cr3 s" "KHEAPSTART t = KHEAPSTART s"
  shows "\<exists>g gs. vmm_ok cap (init_vmm t l) (g # gs) \<and> 3 \<le> length gs
    \<and> set (vmm_pages (init_vmm t l) (g # gs)) \<subseteq> set (vmm_pages (s\<lparr>vmm_frameAlloc := l\<rparr>) fs)
    \<and> translate (init_vmm t l) (KHEAPSTART s) = Some (hd fs)"
    "off_pages cap l (vmm_pages (s\<lparr>vmm_frameAlloc := l\<rparr>) fs) x \<Longrightarrow> init_vmm (poke x v t) l = poke x v (init_vmm t l)"
proof -
  obtain f gs where fs: "fs = f # gs" "7 \<le> length gs" using n by (cases fs) auto
  have p: "vmm_pages (t\<lparr>vmm_frameAlloc := l\<rparr>) (f # gs) = vmm_pages (s\<lparr>vmm_frameAlloc := l\<rparr>) fs" using t fs by (simp add: map_root_def)
  have ok': "vmm_ok cap (t\<lparr>vmm_frameAlloc := l\<rparr>) (f # gs)"
    using ok vmm_ok_cong(1) [of "t\<lparr>vmm_frameAlloc := l\<rparr>" "s\<lparr>vmm_frameAlloc := l\<rparr>"] t fs by simp
  show "\<exists>g gs. vmm_ok cap (init_vmm t l) (g # gs) \<and> 3 \<le> length gs
      \<and> set (vmm_pages (init_vmm t l) (g # gs)) \<subseteq> set (vmm_pages (s\<lparr>vmm_frameAlloc := l\<rparr>) fs)
      \<and> translate (init_vmm t l) (KHEAPSTART s) = Some (hd fs)"
  proof -
    have e: "hd fs = f" "KHEAPSTART t \<noteq> 0" using b fs(1) t(4) by simp_all
    show ?thesis using init_vmm_maps [OF ok' fs(2) e(2)] unfolding p e(1) t(4) by metis
  qed
  show "init_vmm (poke x v t) l = poke x v (init_vmm t l)" if "off_pages cap l (vmm_pages (s\<lparr>vmm_frameAlloc := l\<rparr>) fs) x"
    using init_vmm_far [OF ok' _ that [folded p]] fs(2) by simp
qed

lemma ready_ok:
  assumes ok: "vmm_ok cap (s\<lparr>vmm_frameAlloc := l\<rparr>) fs" "8 \<le> length fs" "KHEAPSTART s \<noteq> 0"
  shows "\<exists>g gs. vmm_ok cap (vmm_ready l s) (g # gs) \<and> 3 \<le> length gs
      \<and> set (vmm_pages (vmm_ready l s) (g # gs)) \<subseteq> set (vmm_pages (s\<lparr>vmm_frameAlloc := l\<rparr>) fs)"
    "vmm_frameAlloc (vmm_ready l s) = l" "K_HEAP_END (vmm_ready l s) = KHEAPSTART s" "kheap_spinlock (vmm_ready l s) = kheap_spinlock s"
    "off_pages cap l (vmm_pages (s\<lparr>vmm_frameAlloc := l\<rparr>) fs) x \<Longrightarrow> vmm_ready l (poke x v s) = poke x v (vmm_ready l s)"
proof -
  define s0 where "s0 = say (Tty_println ''Init heap.'' []) (init_heap s)"
  have s0: "mem s0 = mem s" "PHYSICAL_ADDRESS_OFFSET s0 = PHYSICAL_ADDRESS_OFFSET s" "cr3 s0 = cr3 s" "KHEAPSTART s0 = KHEAPSTART s"
      "K_HEAP_END s0 = KHEAPSTART s" "kheap_spinlock s0 = kheap_spinlock s"
    by (simp_all add: s0_def init_heap_def)
  note up = vmm_brought_up [OF ok s0(1-4)]
  have r: "vmm_ready l s = say (Tty_println ''Init VMM.'' []) (say (Serial_printf (''Init VMM'' @ nl) []) (init_vmm s0 l))"
    by (simp add: vmm_ready_def s0_def)
  have "vmm_ok cap (vmm_ready l s) gs = vmm_ok cap (init_vmm s0 l) gs" "vmm_pages (vmm_ready l s) gs = vmm_pages (init_vmm s0 l) gs" for gs
    using vmm_ok_cong(1) [of "vmm_ready l s" "init_vmm s0 l"] by (simp_all add: r map_root_def)
  then show "\<exists>g gs. vmm_ok cap (vmm_ready l s) (g # gs) \<and> 3 \<le> length gs
      \<and> set (vmm_pages (vmm_ready l s) (g # gs)) \<subseteq> set (vmm_pages (s\<lparr>vmm_frameAlloc := l\<rparr>) fs)"
    using up(1) by metis
  show "vmm_frameAlloc (vmm_ready l s) = l" "K_HEAP_END (vmm_ready l s) = KHEAPSTART s" "kheap_spinlock (vmm_ready l s) = kheap_spinlock s"
    using init_vmm_regs [where s = s0 and l = l] s0 by (simp_all add: r same_regs_def)
  show "vmm_ready l (poke x v s) = poke x v (vmm_ready l s)" if "off_pages cap l (vmm_pages (s\<lparr>vmm_frameAlloc := l\<rparr>) fs) x"
    using up(2) [OF that] by (simp add: vmm_ready_def s0_def init_heap_poke poke_say)
qed

text \<open>Changing a byte elsewhere and bringing up the heap commute.\<close>

lemma kernel_init_heap_far:
  assumes ok: "vmm_ok cap (s\<lparr>vmm_frameAlloc := l\<rparr>) fs" "8 \<le> length fs" "KHEAPSTART s \<noteq> 0" "\<not> bit (kheap_spinlock s) 0"
      "unat (KHEAPSTART s) + 69632 < 18446744073709551616"
    and x: "off_pages cap l (vmm_pages (s\<lparr>vmm_frameAlloc := l\<rparr>) fs) x" "\<not> unat (x - KHEAPSTART s) < 188"
  shows "kernel_init_heap l (poke x v s) = map_option (poke x v) (kernel_init_heap l s)"
proof -
  let ?b = "KHEAPSTART s" and ?r = "vmm_ready l s"
  note up = ready_ok [OF ok(1-3)]
  obtain g gs where g: "vmm_ok cap ?r (g # gs)" "3 \<le> length gs" "set (vmm_pages ?r (g # gs)) \<subseteq> set (vmm_pages (s\<lparr>vmm_frameAlloc := l\<rparr>) fs)"
    using up(1) by blast
  have "off_pages cap l (vmm_pages ?r (g # gs)) x" unfolding off_pages_def using x(1) g(3) by (meson off_pages_def subsetD)
  then have far: "kmalloc_init (poke x v ?r) 0x1000 = map_option (apsnd (poke x v)) (kmalloc_init ?r 0x1000)"
    using g(1,2) ok(3-5) x(2) up(2-4) by (intro kmalloc_init_far) simp_all
  obtain t where t: "kmalloc_init ?r 0x1000 = Some (?b, t)"
      "kernel_init_heap l s = Some (t\<lparr>mem := tested (mem t) ?b, trace := trace t @ test_output ?b\<rparr>)"
    using heap_brought_up [OF ok(4,3,5)] by blast
  obtain t' where t': "kmalloc_init (poke x v ?r) 0x1000 = Some (?b, t')"
      "kernel_init_heap l (poke x v s) = Some (t'\<lparr>mem := tested (mem t') ?b, trace := trace t' @ test_output ?b\<rparr>)"
    using heap_brought_up [of "poke x v s" l] ok(3-5) unfolding up(5) [OF x(1)] by auto
  have "t' = poke x v t" using t(1) t'(1) far by simp
  then show ?thesis using t(2) t'(2) tested_far [OF x(2), of "mem t" v] by (simp add: poke_def)
qed

text \<open>The page at the start of the heap stays mapped.\<close>

lemma kernel_init_heap_mapped:
  assumes ok: "vmm_ok cap (s\<lparr>vmm_frameAlloc := l\<rparr>) fs" "8 \<le> length fs" "KHEAPSTART s \<noteq> 0" "\<not> bit (kheap_spinlock s) 0"
      "unat (KHEAPSTART s) + 69632 < 18446744073709551616" "off_vmm cap (s\<lparr>vmm_frameAlloc := l\<rparr>) fs (KHEAPSTART s) 69632"
    and s': "kernel_init_heap l s = Some s'"
  shows "translate s' (KHEAPSTART s) \<noteq> None"
proof -
  let ?b = "KHEAPSTART s" and ?r = "vmm_ready l s"
  note up = ready_ok [OF ok(1-3)]
  obtain g gs where g: "vmm_ok cap ?r (g # gs)" "3 \<le> length gs" "set (vmm_pages ?r (g # gs)) \<subseteq> set (vmm_pages (s\<lparr>vmm_frameAlloc := l\<rparr>) fs)"
    using up(1) by blast
  define r0 where "r0 = say (Serial_printf ([CHR 0x0A] @ '' kmalloc init start.'') []) ?r"
  have b: "bucket_bytes 0x1000 = 69632" by (simp add: bucket_bytes_def heap_consts)
  have off: "off_vmm cap ?r (g # gs) ?b 69632" unfolding off_vmm_def up(2) using ok(6) g(3) by (auto simp: off_vmm_def)
  have r0: "vmm_ok cap r0 (g # gs)" "\<not> bit (kheap_spinlock r0) 0" "K_HEAP_END r0 = ?b" "off_vmm cap r0 (g # gs) ?b 69632"
    using g(1) ok(4) off up(3,4) vmm_ok_cong(1) [of r0 ?r] by (simp_all add: r0_def kernel_heap_say)
  obtain t where t: "kmalloc_init ?r 0x1000 = Some (?b, t)" "s' = t\<lparr>mem := tested (mem t) ?b, trace := trace t @ test_output ?b\<rparr>"
    using heap_brought_up [OF ok(4,3,5), of l] s' by auto
  have "create_bucket r0 0x1000 (0 OR BUCKET_FLAG_FIRST) = Some (?b, t)" using t(1) unfolding kmalloc_init_def r0_def .
  then obtain ts where c: "vmm_ok cap t ts" "vmm_within r0 (g # gs) t ts" "translate t ?b = Some g"
    using create_bucket_vmm [OF r0(1,2) _ _ g(2), where cs = "[]" and sz = "0x1000" and flags = "0 OR BUCKET_FLAG_FIRST"] r0(3,4) ok(3,5)
    by (auto simp: b)
  have off': "off_vmm cap t ts ?b 69632" by (rule off_vmm_within [OF c(2) r0(4)])
  have m: "mem s' x = mem t x" if "\<not> unat (x - ?b) < 188" for x
    using fun_cong [OF tested_far [OF that, of "mem t" "mem t x"], of x] by (simp add: t(2))
  have "translate s' ?b = translate t ?b"
  proof (rule vmm_ok_outside(3) [OF c(1)])
    show "same_regs t s'" by (simp add: t(2) same_regs_def)
  qed (use off' sep_apart m in \<open>fastforce simp: off_vmm_def\<close>)+
  then show ?thesis using c(3) by simp
qed

section \<open>Properties\<close>

text \<open>C6. The heap cannot serve a request without a page fault. \<open>kmalloc_init\<close> lays out a bucket of seventeen pages but has only the first of them
  mapped; the first request that the rounding serves and that fits is answered, and the block it is given reaches beyond that page, so that clearing it,
  the last step of \<open>kmalloc\<close>, touches a byte that has no translation before or after the call.\<close>
theorem kmalloc_unbacked:
  assumes "vmm_ok cap s (f # fs)" "\<not> bit (kheap_spinlock s) 0" "K_HEAP_END s = KHEAPSTART s" "KHEAPSTART s \<noteq> 0"
    "3 \<le> length fs" "arena cap lim s (f # fs)" "unat (KHEAPSTART s) + 69632 \<le> lim"
    "kmalloc_covers sz" "unat sz \<le> 65536" "translate s (KHEAPSTART s + 4096) = None"
  shows "\<exists>s1 s2. kmalloc_init s 0x1000 = Some (KHEAPSTART s, s1) \<and> kmalloc s1 sz = Some (KHEAPSTART s + 124, s2)
    \<and> touches (\<lambda>s. kmalloc s sz) s1 (KHEAPSTART s + 4096)
    \<and> translate s1 (KHEAPSTART s + 4096) = None \<and> translate s2 (KHEAPSTART s + 4096) = None"
proof -
  obtain s1 s2 where s: "kmalloc_init s 0x1000 = Some (KHEAPSTART s, s1)" "kmalloc s1 sz = Some (KHEAPSTART s + 124, s2)" "KHEAPSTART s + 124 \<noteq> 0"
      "\<forall>v. translate s1 v = (if page_of v = page_of (KHEAPSTART s) then Some f else translate s v)" "\<forall>v. translate s2 v = translate s1 v"
    using first_request [OF assms(1-9)] by blast
  have "unat (KHEAPSTART s) + 4096 < 18446744073709551616" using assms(6,7) by (simp add: arena_def)
  then have "translate s1 (KHEAPSTART s + 4096) = None" "translate s2 (KHEAPSTART s + 4096) = None"
    using page_next [of "KHEAPSTART s"] assms(10) s(4,5) by simp_all
  moreover have "unat ((KHEAPSTART s + 4096) - (KHEAPSTART s + 124)) < unat (if sz < 64 then 64 else sz)"
    using covers_page [OF assms(8,9)] by (simp add: word_less_nat_alt)
  ultimately show ?thesis using kmalloc_touches [OF s(2,3)] s(1,2) by blast
qed

theorem kmalloc_unbacked_witness:
  "\<exists>s1 s2. kmalloc_init small_start 0x1000 = Some (0x800000, s1) \<and> kmalloc s1 4096 = Some (0x80007C, s2)
    \<and> touches (\<lambda>s. kmalloc s 4096) s1 0x801000 \<and> translate s2 0x801000 = None"
proof -
  have "translate small_start 0x801000 = None"
    using zero_table(2) [OF small_rooted_ok(7)] page_path_index [of "0x801000"]
    by (simp add: small_start_def small_vmm_def map_root_def index_path_def)
  then show ?thesis
    using kmalloc_unbacked [OF small_start_ok(1,2) _ _ _ small_start_ok(3), of 4096] fresh_heap_request(1) small_start_ok(4,5) by auto
qed

text \<open>C10. Bringing up the heap returns and loses the heap. With a memory manager in order, eight free frames, and the first 188 bytes of
  the heap in one page, \<open>kernel_init\<close> sets up a heap with one free block of 69508 bytes, tests it with an allocation, prints the number it
  stored and frees it; afterwards one free block of 60 bytes is left. No page fault comes between: \<open>init_vmm\<close> touches nothing but
  the tables, the free frames and the free list, by then the page at the start of the heap is mapped, and it is the only
  other page that is touched until the end. The messages that are sent on the way are all sent on a port that keeps getting ready.\<close>
theorem kernel_init_loses_heap:
  assumes "vmm_ok cap (s\<lparr>vmm_frameAlloc := l\<rparr>) fs" "8 \<le> length fs" "KHEAPSTART s \<noteq> 0" "\<not> bit (kheap_spinlock s) 0"
    "unat (KHEAPSTART s) + 69632 < 18446744073709551616" "off_vmm cap (s\<lparr>vmm_frameAlloc := l\<rparr>) fs (KHEAPSTART s) 69632"
    "unat (KHEAPSTART s) mod 4096 + 188 \<le> 4096"
  shows "\<exists>s1 s'. kmalloc_init (init_vmm (init_heap s) l) 0x1000 = Some (KHEAPSTART s, s1) \<and> heap_ok s1 [(False, 69508)]
    \<and> kernel_init_heap l s = Some s' \<and> heap_ok s' [(False, 60)] \<and> Tty_println ''Number = %ul'' [Va_int 10023] \<in> set (trace s')
    \<and> translate (init_vmm (init_heap s) l) (KHEAPSTART s) \<noteq> None \<and> translate s' (KHEAPSTART s) \<noteq> None
    \<and> (\<forall>x. touches (\<lambda>s. Some ((), init_vmm (init_heap s) l)) s x \<longrightarrow> \<not> off_pages cap l (vmm_pages (s\<lparr>vmm_frameAlloc := l\<rparr>) fs) x)
    \<and> (\<forall>x. touches (\<lambda>s. map_option (Pair ()) (kernel_init_heap l s)) s x
        \<longrightarrow> \<not> off_pages cap l (vmm_pages (s\<lparr>vmm_frameAlloc := l\<rparr>) fs) x \<or> page_of x = page_of (KHEAPSTART s))
    \<and> (\<forall>dev u. responsive dev \<longrightarrow> (\<exists>t u'. trace s' = trace s @ t \<and> transmit dev u t = Some u'))"
proof -
  obtain s1 s' where s: "kmalloc_init (init_vmm (init_heap s) l) 0x1000 = Some (KHEAPSTART s, s1)" "heap_ok s1 [(False, 69508)]"
      "kernel_init_heap l s = Some s'" "heap_ok s' [(False, 60)]" "Tty_println ''Number = %ul'' [Va_int 10023] \<in> set (trace s')"
    using kernel_init_heap_returns [OF assms(4,3,5)] by blast
  note up = vmm_brought_up [OF assms(1-3), of "init_heap s"]
  have "translate (init_vmm (init_heap s) l) (KHEAPSTART s) \<noteq> None" using up(1) by (auto simp: init_heap_def)
  moreover have "translate s' (KHEAPSTART s) \<noteq> None" by (rule kernel_init_heap_mapped [OF assms(1-6) s(3)])
  moreover have "\<not> touches (\<lambda>s. Some ((), init_vmm (init_heap s) l)) s x" if "off_pages cap l (vmm_pages (s\<lparr>vmm_frameAlloc := l\<rparr>) fs) x" for x
    using up(2) [OF _ _ _ _ that] by (simp add: touches_def init_heap_poke) (simp add: init_heap_def)
  moreover have "\<not> touches (\<lambda>s. map_option (Pair ()) (kernel_init_heap l s)) s x"
    if "off_pages cap l (vmm_pages (s\<lparr>vmm_frameAlloc := l\<rparr>) fs) x" "page_of x \<noteq> page_of (KHEAPSTART s)" for x
  proof -
    have "\<not> unat (x - KHEAPSTART s) < 188" using page_same [of "KHEAPSTART s" x] assms(7) that(2) by linarith
    from kernel_init_heap_far [OF assms(1-5) that(1) this] show ?thesis by (simp add: touches_def option.map_comp comp_def)
  qed
  moreover obtain t where "trace s' = trace s @ t" "list_all io_fits t" using kernel_init_heap_prints [OF s(3)] by (auto simp: prints_def)
  then have "\<exists>t u'. trace s' = trace s @ t \<and> transmit dev u t = Some u'" if "responsive dev" for dev u
    using transmit_responsive [OF that, of t u] by blast
  ultimately show ?thesis using s by blast
qed

text \<open>The kernel's own nine frames, of which one is the root.\<close>

definition nine_region :: limine_memmap_entry where
  "nine_region = \<lparr>mm_base = 0x100000, mm_length = 0x9000, mm_type = 0\<rparr>"

definition nine_state :: machine where
  "nine_state = snd (init_frame_list (boot_state\<lparr>cr3 := 0x108000\<rparr>) 0x5000 nine_region)"

definition nine_rooted :: machine where
  "nine_rooted = snd (create_new_page_table nine_state 0x5000)"

abbreviation eight_frames :: "u64 list" where
  "eight_frames \<equiv> [0x107000, 0x106000, 0x105000, 0x104000, 0x103000, 0x102000, 0x101000, 0x100000]"

lemma nine_rooted_ok:
  "vmm_ok 9 (nine_rooted\<lparr>vmm_frameAlloc := 0x5000\<rparr>) eight_frames" "KHEAPSTART nine_rooted = 0xffffffff80020000" "kheap_spinlock nine_rooted = 0"
  "off_vmm 9 (nine_rooted\<lparr>vmm_frameAlloc := 0x5000\<rparr>) eight_frames 0xffffffff80020000 69632"
proof -
  have o: "PHYSICAL_ADDRESS_OFFSET nine_state = 0xffff800000000000" "cr3 nine_state = 0x108000" "KHEAPSTART nine_state = 0xffffffff80020000"
      "kheap_spinlock nine_state = 0"
    by (simp_all add: nine_state_def init_frame_list_def Let_def boot_state_def)
  have "rev (region_frames nine_region (frames_taken nine_region)) = 0x108000 # eight_frames"
    by (simp add: region_frames_def frames_taken_def nine_region_def upt_rec)
  then have "frame_list 9 (mem nine_state) 0x5000 (0x108000 # eight_frames)"
    using init_frame_list_rep [of "0x5000" 9 "boot_state\<lparr>cr3 := 0x108000\<rparr>" nine_region] by (simp add: nine_state_def)
  then have "free_ok 9 (mem nine_state) (PHYSICAL_ADDRESS_OFFSET nine_state) 0x5000 (0x108000 # eight_frames)"
    by (simp add: pt_ok_iff o frame_ok_def apart_all_def sep_def)
  from create_root [OF this] have r: "same_regs nine_state nine_rooted"
      "pt_ok 9 (mem nine_rooted) 0xffff800000000000 4 0xffff800000108000 0x5000 eight_frames"
      "tables (mem nine_rooted) 0xffff800000000000 4 0xffff800000108000 = [0xffff800000108000]"
    by (auto simp: nine_rooted_def o simp del: tables.simps)
  then have g: "PHYSICAL_ADDRESS_OFFSET nine_rooted = 0xffff800000000000" "cr3 nine_rooted = 0x108000"
    by (simp_all add: same_regs_def o)
  show "KHEAPSTART nine_rooted = 0xffffffff80020000" "kheap_spinlock nine_rooted = 0" using r(1) by (simp_all add: same_regs_def o)
  have root: "map_root (nine_rooted\<lparr>vmm_frameAlloc := 0x5000\<rparr>) 0 = 0xffff800000108000" by (simp add: map_root_def g)
  show "vmm_ok 9 (nine_rooted\<lparr>vmm_frameAlloc := 0x5000\<rparr>) eight_frames" using r(2) by (simp add: vmm_ok_def root g)
  show "off_vmm 9 (nine_rooted\<lparr>vmm_frameAlloc := 0x5000\<rparr>) eight_frames 0xffffffff80020000 69632"
    unfolding off_vmm_def root using r(3) by (simp add: g sep_def del: tables.simps)
qed

theorem kernel_init_loses_heap_witness:
  "\<exists>s'. kernel_init_heap 0x5000 nine_rooted = Some s' \<and> heap_ok s' [(False, 60)] \<and> translate s' 0xffffffff80020000 \<noteq> None
    \<and> \<not> touches (\<lambda>s. map_option (Pair ()) (kernel_init_heap 0x5000 s)) nine_rooted 0xffffffff80021000"
proof -
  have x: "page_of 0xffffffff80021000 \<noteq> page_of 0xffffffff80020000" "unat (0xffffffff80021000 - 0xffffffff80020000 :: u64) < 69632"
    using page_next [of "0xffffffff80020000"] by simp_all
  have "off_pages 9 0x5000 (vmm_pages (nine_rooted\<lparr>vmm_frameAlloc := 0x5000\<rparr>) eight_frames) 0xffffffff80021000"
    using off_vmm_pages [OF nine_rooted_ok(4) x(2)] by simp
  moreover have "unat (0xffffffff80020000 :: u64) + 69632 < 18446744073709551616" "unat (0xffffffff80020000 :: u64) mod 4096 + 188 \<le> 4096"
      "(0xffffffff80020000 :: u64) \<noteq> 0" "\<not> bit (0 :: u32) 0" "8 \<le> length eight_frames"
    by simp_all
  ultimately show ?thesis
    using kernel_init_loses_heap [OF nine_rooted_ok(1), unfolded nine_rooted_ok(2,3)] nine_rooted_ok(4) x(1) by blast
qed

end
