(* ===== verification/Spec2Isabelle.thy ===== *)
theory Spec2Isabelle
  imports Prelude Memory Digits Machine Framealloc Paging Spinlock Vmm Bucketalloc Buckets Heaprun Idt Isr Uart Strings Printf Tty Memorymap Boot Output Backing
begin

text \<open>
  Verification of the froggyos kernel, a small 64-bit x86 kernel in C (\<^verbatim>\<open>kernel/src\<close>) with parts of a C library
  (\<^verbatim>\<open>libc\<close>), started by the Limine boot loader.

  \<^bold>\<open>The program.\<close> \<open>kmain\<close> (\<^verbatim>\<open>main.c\<close>) checks what the boot loader answered, finds the font among its modules, and calls
  \<open>kernel_init\<close> (\<^verbatim>\<open>kernel.c\<close>), which starts the console, installs the interrupt descriptor table, picks a region of the
  memory map, builds the list of free frames in it, maps a first page, and brings up the kernel heap: its address range
  (\<^verbatim>\<open>heap.c\<close>), the virtual memory manager (\<^verbatim>\<open>vmm.c\<close>), which backs the range with frames through the page tables
  (\<^verbatim>\<open>paging.c\<close>), and the allocator (\<^verbatim>\<open>bucketalloc.c\<close>), which cuts it into blocks. Locks guard the heap range and each bucket.
  Everything reports on the serial port and on the console.

  \<^bold>\<open>State.\<close> Memory is a function from 64-bit addresses to bytes. Structures the code keeps in memory (the frame list, page
  tables, buckets and pebbles, strings, buffers, pixels) are read and written there, at the offsets and widths of the C
  declarations, little-endian; global variables and registers are fields of the record \<open>machine\<close>, of the console \<open>TTYRenderer\<close>
  and of the table \<open>idt_state\<close>. Integers have the width of their C type and wrap around; \<open>int\<close> is used for the signed digit
  loops of \<open>itoa\<close>. An operation takes the state and returns it updated.

  \<^bold>\<open>Partiality.\<close> A loop that ends for every input is a \<open>function\<close> with a termination proof. A loop that may not end (a walk over
  a list that could be cyclic, a string without end, a lock, polling) is a \<open>partial_function\<close> into \<open>option\<close>: \<open>None\<close> is a
  call that does not return, or one whose next step C leaves undefined (a read through a null pointer, an index
  out of range, an argument that is not there). No fuel is used anywhere, so no bound had to be chosen: the theorems that a
  call returns show that its value is \<open>Some\<close>, and those that it hangs that it is \<open>None\<close>.

  \<^bold>\<open>Theories,\<close> in the order in which they build on each other:
  \<^item> \<open>Prelude\<close>: integer types, separation of address ranges, shared lemmas and collections of rewrite rules.
  \<^item> \<open>Memory\<close>: typed cells and \<open>memcpy\<close>, \<open>memset\<close>, \<open>memmove\<close>, \<open>memcmp\<close> of \<^verbatim>\<open>main.c\<close> and of \<^verbatim>\<open>libc/string\<close>. The locale \<open>cell\<close> has
    the read-over-write laws, interpreted for 32 and 64 bits; the locale \<open>block_copy\<close> is what a block copy promises,
    interpreted for the four copies. Shown: the copies move the block and nothing else, \<open>memmove\<close> also for
    overlapping blocks, and both libraries agree.
  \<^item> \<open>Digits\<close>: \<open>ultoa\<close>, \<open>uitoa\<close>, \<open>iltoa\<close>, \<open>utoa\<close>, \<open>itoa\<close> and \<open>atoi\<close> of \<^verbatim>\<open>klibc/string\<close>. The locale \<open>formatter\<close> is the contract of a
    routine that writes a number into a buffer. Shown: reading the digits back gives the number, and where \<open>itoa\<close> fails.
  \<^item> \<open>Machine\<close>: the kernel state and the trace of output calls.
  \<^item> \<open>Framealloc\<close>: \<^verbatim>\<open>memory/framealloc.c\<close>. The locale \<open>frame_stack\<close> is a bounded stack in memory that touches nothing else;
    the frame list implements it. Shown too: which frames of a region the list holds, and what happens when it is drained.
  \<^item> \<open>Paging\<close>: \<^verbatim>\<open>arch/paging\<close>. The specification is the table walk \<open>pt_walk\<close> as a partial function from pages to frames; the
    invariant \<open>pt_ok\<close> says that the tables form a tree of distinct frames, four levels deep and without large pages, apart from
    the free ones. Shown: \<open>map_to_page\<close> updates the function at one page, conserves frames, takes one for each table that is missing, and with
    too few of them answers null and leaves every translation as it was; lookup is the walk; \<open>unmap_page\<close> removes one page; the identity map of the first two megabytes.
  \<^item> \<open>Spinlock\<close>: \<^verbatim>\<open>klibc/spinlock.c\<close> and the instructions of \<^verbatim>\<open>spinlock.asm\<close> as a step relation for any number of processors,
    with mutual exclusion as an invariant of all interleavings; the locale \<open>spin_lock\<close> is what one processor relies on.
  \<^item> \<open>Vmm\<close>: \<^verbatim>\<open>memory/heap.c\<close> and \<^verbatim>\<open>memory/vmm.c\<close> over the frame list, the page tables and the lock. Shown: which pages are
    backed, and which frames are lost.
  \<^item> \<open>Bucketalloc\<close>: \<^verbatim>\<open>klibc/bucketalloc.c\<close>. \<open>heap_ok\<close> abstracts a bucket to the list of its blocks, used or free, that tile
    it; the locale \<open>block_heap\<close> has first-fit allocation and release with joining on such lists, with the bytes of used blocks
    kept, and is interpreted for \<open>kmalloc\<close> and \<open>kfree\<close>. Shown too: the size of the block that a request is given, exactly when it
    is large enough, and what the other requests do to the heap.
  \<^item> \<open>Buckets\<close>: the list of buckets of the same file. \<open>kernel_heap\<close> is the invariant of the whole heap: the buckets, linked both ways from
    \<open>KHEAPSTART\<close> on and apart from each other, below the end of the heap range, and apart from the page tables, the free frames
    and the free list of the manager. Shown: \<open>kmalloc\<close> takes from the first bucket that has room; when none has, it maps, links and uses
    a new one, or, for large requests, maps one that is too small; \<open>kfree\<close> joins blocks, and unlinks and unmaps a bucket that
    it empties; \<open>krealloc\<close> moves a block that grows, and loses the rest of one that shrinks. In the midst of the others, the first bucket is again a \<open>block_heap\<close>. A bucket of at most 16 MiB is unmapped, or mapped, by one
    step of the loops of \<open>munmap\<close> and \<open>mmap\<close>; larger ones are left out there.
  \<^item> \<open>Heaprun\<close>: clients of the allocator. The locale \<open>live_heap\<close> is the contract of \<open>kmalloc\<close>, \<open>kfree\<close> and stores as a client sees it, a multiset of
    blocks in use that do not overlap; \<open>resizing_heap\<close> extends it with \<open>krealloc\<close>; both are interpreted for the kernel heap. The step relation
    \<open>heap_step\<close> lets a client call the three operations and write into its blocks in any order, and \<open>heap_run\<close> is its closure. By induction on
    runs: the client's blocks have the contents an ideal allocator (\<open>ideal_step\<close>) gives them, the invariant of the whole heap holds,
    and when everything is freed no fragment is left. A request of a run is one the rounding covers, below 16 MiB, and either has
    room or four free frames and address space behind it (\<open>servable\<close>); shrinking calls of \<open>krealloc\<close>, which lose what they cut off and can
    make the list of blocks cyclic, are not steps.
  \<^item> \<open>Idt\<close>: \<^verbatim>\<open>arch/interrupts/idt.c\<close>, \<^verbatim>\<open>idt.asm\<close> and the handler of \<^verbatim>\<open>isr.c\<close>: the descriptors that are installed, and the allocation of
    vectors.
  \<^item> \<open>Isr\<close>: the entry stubs of \<^verbatim>\<open>isr.asm\<close> as lists of instructions, executed on registers and stack: the frame the handler is given, that nothing else
    is written, and that a handler could not return. \<open>exec\<close> carries the instructions out; \<open>run\<close> also asks the processor and ends in a fault where
    it refuses one: loading \<open>cr4\<close> without PAE in 64-bit mode, and a segment register with a selector that is not accepted.
  \<^item> \<open>Uart\<close>: \<^verbatim>\<open>drivers/uart.c\<close> over a device that is a parameter: what is sent and when sending hangs.
  \<^item> \<open>Strings\<close>: \<open>strlen\<close>, \<open>strstr\<close>, \<open>checkStringEndsWith\<close> and \<open>getFile\<close>, against prefix, suffix and first occurrence in lists.
  \<^item> \<open>Printf\<close>: \<^verbatim>\<open>klibc/string/printf.c\<close>, against the formatter \<open>format_text\<close> on lists of characters.
  \<^item> \<open>Tty\<close>: \<^verbatim>\<open>drivers/vga/framebuffer.c\<close> with pixels in memory: drawing, clearing, line ends and scrolling, and that
    printing never leaves the frame buffer.
  \<^item> \<open>Memorymap\<close>: \<^verbatim>\<open>memory/memorymap.c\<close>: the region that is chosen and what is reported.
  \<^item> \<open>Boot\<close>: \<open>kernel_init\<close> and \<open>kmain\<close>, which compose all of these: when they stop and with what done, and what the self-test of the
    heap leaves. The locale \<open>memory_blind\<close> has what page mapping does to relations that do not look at memory.
  \<^item> \<open>Output\<close>: every formatted output made from \<open>kmain\<close> on matches its format and fits the buffer, so that the routines of \<open>Printf\<close>
    put out what it stands for. \<open>transmit\<close> runs the entries of a trace on the serial device, polling included; with it, what \<open>kmain\<close> hands over to
    \<open>kernel_init\<close>, and that it never does so on a port that is never ready.
  \<^item> \<open>Backing\<close>: page faults. \<open>touches\<close> says which bytes an operation depends on or writes; these are compared with the pages that are mapped. Shown: bringing up
    the heap stays within the pages of the memory manager and the first page of the heap, so that it is not stopped by a fault;
    the first request that a fresh heap serves reaches beyond that page and is.

  \<^bold>\<open>Parameters.\<close> What is not code of this repository is an argument: the answers of the boot loader and the constant
  of its protocol, the addresses of the interrupt stubs and of the labels in them, the serial device, and the upper half of a register that a call with
  a mismatched declaration leaves unspecified (\<open>widen\<close> in \<open>Memorymap\<close>), the selectors that the data segment registers accept, and the
  memory behind a value of \<open>cr3\<close>. What the processor pushes before it enters a stub, by vector, is the hypothesis \<open>entered\<close> in \<open>Isr\<close>.

  \<^bold>\<open>Abstractions.\<close> Output from the memory management and from the start-up code is one entry of the trace per call, with its
  arguments: the text an entry stands for is given by \<open>Printf\<close>, and what it does to the device by \<open>Uart\<close> and \<open>Tty\<close>, which
  model the routines themselves. The value \<open>Some\<close> of an operation of \<open>Vmm\<close>, \<open>Bucketalloc\<close> or \<open>Boot\<close> therefore means that its own
  steps end; that the polling of the port ends too is the value of \<open>transmit\<close> on the trace. Memory is addressed by virtual addresses; page tables are reached through the window at which the boot loader maps all
  physical memory. Addresses of the heap, and the one page that \<open>kernel_init\<close> maps by hand, are storage of their own: that
  the frames behind them can be seen through the window too is not modelled. An access succeeds at every address, mapped or not: what the
  theorems say of an operation holds of the processor if the pages it touches are mapped, which is the case for bringing up the
  heap and its self-test, and not for the first request that a fresh heap serves (\<open>Backing\<close>). The allocator runs on one processor, with the locks as that processor sees them.

  \<^bold>\<open>Not modelled.\<close> The boot protocol's header, which
  is fetched when the kernel is built; make files, linker script, dependency scripts, font and firmware images; functions that
  headers declare and no file defines (\<open>terminal_*\<close>, \<open>putchar\<close>, \<open>puts\<close>, \<open>abort\<close>, \<open>read_serial\<close>, \<open>translate_virt_address\<close>,
  \<open>create_usable_frame_list\<close>); \<open>invlpg\<close>, which no code uses.
\<close>

end
